(* ===== verification/OmPrelude.thy ===== *)
theory OmPrelude
  imports Main "HOL-Library.Word" "HOL-Library.AList"
begin

text \<open>
  What every component of the development shares: Python's \<open>str\<close> as a list of code points,
  \<open>bytes\<close> as a list of 8-bit words, \<open>dict\<close> as an association list in insertion order, raised
  exceptions as the left side of a sum, and \<open>contextvars.ContextVar\<close> tokens.  The collections
  \<open>om_simps\<close> (unfolding of the small helpers) and \<open>om_split\<close> (result inversion) carry most of the
  component proofs.
\<close>

named_theorems om_simps

section \<open>Text, bytes and dictionaries\<close>

text \<open>
  A Python \<open>str\<close> is a sequence of Unicode code points, not of bytes: \<open>len\<close>, slicing and
  comparison count code points.  \<open>py\<close> writes an ASCII literal, and is kept folded so that two
  literals are compared as HOL strings.
\<close>

type_synonym pystr = "nat list"
type_synonym byte = "8 word"
type_synonym bytes = "byte list"
type_synonym ('k, 'v) dict = "('k \<times> 'v) list"

definition py :: "string \<Rightarrow> pystr" where
  "py s = map of_char s"

definition bstr :: "string \<Rightarrow> bytes" where
  "bstr s = map of_char s"

lemma of_char_nat_inj: "(of_char c :: nat) = of_char d \<longleftrightarrow> c = d"
  by simp

lemma py_eq_iff [simp]: "py s = py t \<longleftrightarrow> s = t"
  by (simp add: py_def inj_map_eq_map inj_def)

lemma py_Nil [simp]: "py s = [] \<longleftrightarrow> s = []" "[] = py s \<longleftrightarrow> s = []" "py [] = []"
  by (simp_all add: py_def)

lemma py_append: "py (s @ t) = py s @ py t"
  by (simp add: py_def)

lemma length_py [simp]: "length (py s) = length s"
  by (simp add: py_def)

lemma set_py_less: "c \<in> set (py s) \<Longrightarrow> c < 256"
  by (auto simp: py_def of_char_def)

text \<open>
  A \<open>dict\<close> keeps one entry per key, in the order the keys were first inserted: assigning to an
  existing key keeps its place, which is what \<^const>\<open>AList.update\<close> does; \<open>pop(k, None)\<close> is
  \<^const>\<open>AList.delete\<close>; \<open>d.get(k)\<close> is \<^const>\<open>map_of\<close>.
\<close>

abbreviation dget :: "('k, 'v) dict \<Rightarrow> 'k \<Rightarrow> 'v option" where
  "dget d k \<equiv> map_of d k"

abbreviation dset :: "'k \<Rightarrow> 'v \<Rightarrow> ('k, 'v) dict \<Rightarrow> ('k, 'v) dict" where
  "dset k v d \<equiv> AList.update k v d"

abbreviation dpop :: "'k \<Rightarrow> ('k, 'v) dict \<Rightarrow> ('k, 'v) dict" where
  "dpop k d \<equiv> AList.delete k d"

abbreviation keys :: "('k, 'v) dict \<Rightarrow> 'k list" where
  "keys d \<equiv> map fst d"

lemma dget_dset [simp]: "dget (dset k v d) k' = (if k' = k then Some v else dget d k')"
  by (simp add: update_conv')

lemma dget_dpop [simp]: "dget (dpop k d) k' = (if k' = k then None else dget d k')"
  by (simp add: delete_conv')

lemma keys_dset: "keys (dset k v d) = (if k \<in> set (keys d) then keys d else keys d @ [k])"
  by (rule update_keys)

lemma keys_dpop [simp]: "keys (dpop k d) = removeAll k (keys d)"
  by (rule delete_keys)

lemma distinct_keys_dset [simp, intro]: "distinct (keys d) \<Longrightarrow> distinct (keys (dset k v d))"
  by (rule distinct_update)

lemma distinct_keys_dpop [simp, intro]: "distinct (keys d) \<Longrightarrow> distinct (keys (dpop k d))"
  by (simp add: distinct_removeAll)

lemma set_keys_dset [simp]: "set (keys (dset k v d)) = insert k (set (keys d))"
  by (auto simp: keys_dset)

lemma dget_None_iff: "dget d k = None \<longleftrightarrow> k \<notin> set (keys d)"
  by (simp add: map_of_eq_None_iff)

lemma dset_fresh: "k \<notin> set (keys d) \<Longrightarrow> dset k v d = d @ [(k, v)]"
  by (induction d) auto

text \<open>Building a \<open>dict\<close> from pairs: later values replace earlier ones in place.\<close>

definition dict_of :: "('k \<times> 'v) list \<Rightarrow> ('k, 'v) dict" where
  "dict_of kvs = foldl (\<lambda>d (k, v). dset k v d) [] kvs"

lemma foldl_dset_distinct:
  "distinct (keys (d @ kvs)) \<Longrightarrow> foldl (\<lambda>d (k, v). dset k v d) d kvs = d @ kvs"
proof (induction kvs arbitrary: d)
  case Nil
  then show ?case by simp
next
  case (Cons kv kvs)
  obtain k v where kv: "kv = (k, v)" by (cases kv)
  with Cons.prems have "k \<notin> set (keys d)" by auto
  then have "dset k v d = d @ [(k, v)]" by (rule dset_fresh)
  with Cons.prems kv Cons.IH [of "d @ [(k, v)]"] show ?case by simp
qed

lemma dict_of_distinct: "distinct (keys kvs) \<Longrightarrow> dict_of kvs = kvs"
  using foldl_dset_distinct [of "[]" kvs] by (simp add: dict_of_def)

lemma foldl_dset_lookup:
  "dget (foldl (\<lambda>d (k, v). dset k v d) d kvs) k =
     (case dget (rev kvs) k of None \<Rightarrow> dget d k | Some v \<Rightarrow> Some v)"
  by (induction kvs arbitrary: d) (auto simp: map_add_def split: option.splits)

lemma distinct_dict_of: "distinct (keys (dict_of kvs))"
proof -
  have "distinct (keys d) \<Longrightarrow> distinct (keys (foldl (\<lambda>d (k, v). dset k v d) d kvs))" for d
    by (induction kvs arbitrary: d) (auto split: prod.splits)
  then show ?thesis by (simp add: dict_of_def)
qed

lemma dget_dict_of: "dget (dict_of kvs) k = dget (rev kvs) k"
  by (simp add: dict_of_def foldl_dset_lookup split: option.splits)

section \<open>Raised exceptions as results\<close>

text \<open>
  A call that may raise returns \<^term>\<open>Inl e\<close> for the exception and \<^term>\<open>Inr x\<close> for the value;
  \<open>res_bind\<close> is the sequencing of two statements, the second of which does not run when the first
  raises.
\<close>

fun res_bind :: "'e + 'a \<Rightarrow> ('a \<Rightarrow> 'e + 'b) \<Rightarrow> 'e + 'b" where
  "res_bind (Inl e) f = Inl e"
| "res_bind (Inr x) f = f x"

lemma res_bind_Inr_iff: "res_bind r f = Inr y \<longleftrightarrow> (\<exists>x. r = Inr x \<and> f x = Inr y)"
  by (cases r) auto

lemma res_bind_Inl_iff:
  "res_bind r f = Inl e \<longleftrightarrow> r = Inl e \<or> (\<exists>x. r = Inr x \<and> f x = Inl e)"
  by (cases r) auto

definition is_ok :: "'e + 'a \<Rightarrow> bool" where
  "is_ok r = (case r of Inl _ \<Rightarrow> False | Inr _ \<Rightarrow> True)"

lemma is_ok_simps [simp]: "is_ok (Inl e) = False" "is_ok (Inr x) = True"
  by (simp_all add: is_ok_def)

lemma is_okE: "is_ok r \<Longrightarrow> (\<And>x. r = Inr x \<Longrightarrow> P) \<Longrightarrow> P"
  by (cases r) auto

section \<open>Context variables\<close>

text \<open>
  \<open>ContextVar.set\<close> stores a value and returns a token that remembers the value before;
  \<open>ContextVar.reset(token)\<close> puts that value back.
\<close>

definition cv_set :: "'a \<Rightarrow> 'a \<Rightarrow> 'a \<times> 'a" where
  "cv_set cur new = (new, cur)"

definition cv_reset :: "'a \<Rightarrow> 'a \<Rightarrow> 'a" where
  "cv_reset cur token = token"

declare cv_set_def [om_simps] cv_reset_def [om_simps]

text \<open>\<open>x or d\<close> on strings, where the empty string (and None) is falsy.\<close>

definition or_str :: "pystr \<Rightarrow> pystr \<Rightarrow> pystr" where
  "or_str s d = (if s = [] then d else s)"

definition or_none :: "pystr option \<Rightarrow> pystr option" where
  "or_none s = (case s of None \<Rightarrow> None | Some v \<Rightarrow> if v = [] then None else Some v)"

declare or_str_def [om_simps]

end
