(* ===== verification/PyText.thy ===== *)
theory PyText
  imports OmPrelude
begin

text \<open>
  The operations of Python's \<open>str\<close> the sources rely on: \<open>strip\<close>, \<open>replace\<close>, \<open>startswith\<close>,
  \<open>str(int)\<close>, \<open>int(s, 16)\<close>, and \<open>uuid.UUID(s)\<close>, which decides what the SDK accepts as a tenant
  id.  Whitespace and decimal digits are those of the Unicode 15.0 tables of Python 3.12, the
  oldest version the project supports.
\<close>

section \<open>Character classes\<close>

definition unicode_spaces :: "nat list" where
  "unicode_spaces = [9, 10, 11, 12, 13, 28, 29, 30, 31, 32, 133, 160, 5760, 8192, 8193, 8194, 8195,
     8196, 8197, 8198, 8199, 8200, 8201, 8202, 8232, 8233, 8239, 8287, 12288]"

definition unicode_space :: "nat \<Rightarrow> bool" where
  "unicode_space c = (c \<in> set unicode_spaces)"

text \<open>The zeros of the decimal digit blocks (general category Nd); each block has ten digits.\<close>

definition unicode_zeros :: "nat list" where
  "unicode_zeros = [48, 1632, 1776, 1984, 2406, 2534, 2662, 2790, 2918, 3046, 3174, 3302, 3430, 3558,
     3664, 3792, 3872, 4160, 4240, 6112, 6160, 6470, 6608, 6784, 6800, 6992, 7088, 7232, 7248, 42528,
     43216, 43264, 43472, 43504, 43600, 44016, 65296, 66720, 68912, 69734, 69872, 69942, 70096, 70384,
     70736, 70864, 71248, 71360, 71472, 71904, 72016, 72784, 73040, 73120, 73552, 92768, 92864, 93008,
     120782, 120792, 120802, 120812, 120822, 123200, 123632, 124144, 125264, 130032]"

definition unicode_decimal :: "nat \<Rightarrow> nat option" where
  "unicode_decimal c =
     (case find (\<lambda>z. z \<le> c \<and> c < z + 10) unicode_zeros of None \<Rightarrow> None | Some z \<Rightarrow> Some (c - z))"

text \<open>The blanks of C's \<open>isspace\<close>, which \<open>int\<close> skips.\<close>

definition c_space :: "nat \<Rightarrow> bool" where
  "c_space c = (c \<in> {9, 10, 11, 12, 13, 32})"

definition hexval :: "nat \<Rightarrow> nat option" where
  "hexval c = (if 48 \<le> c \<and> c \<le> 57 then Some (c - 48)
     else if 97 \<le> c \<and> c \<le> 102 then Some (c - 87)
     else if 65 \<le> c \<and> c \<le> 70 then Some (c - 55) else None)"

definition hexchar :: "nat \<Rightarrow> nat" where
  "hexchar d = (if d < 10 then 48 + d else 87 + d)"

lemma hexval_hexchar [simp]: "d < 16 \<Longrightarrow> hexval (hexchar d) = Some d"
  by (auto simp: hexval_def hexchar_def)

lemma hexval_less: "hexval c = Some d \<Longrightarrow> d < 16"
  by (auto simp: hexval_def split: if_splits)

section \<open>Substring operations\<close>

definition startswith :: "nat list \<Rightarrow> nat list \<Rightarrow> bool" where
  "startswith p s = (take (length p) s = p)"

definition strip_while :: "(nat \<Rightarrow> bool) \<Rightarrow> nat list \<Rightarrow> nat list" where
  "strip_while P s = rev (dropWhile P (rev (dropWhile P s)))"

abbreviation strip :: "pystr \<Rightarrow> pystr" where
  "strip s \<equiv> strip_while unicode_space s"

text \<open>\<open>s.replace(old, new)\<close> for a non-empty \<open>old\<close>: leftmost, non-overlapping occurrences.\<close>

function replace_all :: "nat list \<Rightarrow> nat list \<Rightarrow> nat list \<Rightarrow> nat list" where
  "replace_all old new s =
     (case s of [] \<Rightarrow> []
      | c # cs \<Rightarrow> if old \<noteq> [] \<and> startswith old s then new @ replace_all old new (drop (length old) s)
                 else c # replace_all old new cs)"
  by pat_completeness auto
termination
  by (relation "measure (\<lambda>(old, new, s). length s)") auto

declare replace_all.simps [simp del]

lemma replace_all_Nil [simp]: "replace_all old new [] = []"
  by (simp add: replace_all.simps)

lemma replace_all_Cons:
  "replace_all old new (c # cs) =
     (if old \<noteq> [] \<and> startswith old (c # cs) then new @ replace_all old new (drop (length old) (c # cs))
      else c # replace_all old new cs)"
  by (subst replace_all.simps) simp

lemma startswith_hd: "startswith p s \<Longrightarrow> x \<in> set p \<Longrightarrow> x \<in> set s"
  unfolding startswith_def by (metis in_set_takeD)

lemma replace_all_absent: "x \<in> set old \<Longrightarrow> x \<notin> set s \<Longrightarrow> replace_all old new s = s"
  by (induction s) (auto simp: replace_all_Cons dest: startswith_hd)

text \<open>Removing a single character is a filter.\<close>

lemma replace_all_char: "replace_all [x] [] s = filter (\<lambda>c. c \<noteq> x) s"
  by (induction s) (auto simp: replace_all_Cons startswith_def)

section \<open>Decimal integers\<close>

function nat_digits :: "nat \<Rightarrow> nat list" where
  "nat_digits n = (if n < 10 then [48 + n] else nat_digits (n div 10) @ [48 + n mod 10])"
  by pat_completeness auto
termination
  by (relation "measure id") auto

declare nat_digits.simps [simp del]

text \<open>\<open>str(i)\<close> of an integer.\<close>

definition str_int :: "int \<Rightarrow> pystr" where
  "str_int i = (if i < 0 then 45 # nat_digits (nat (- i)) else nat_digits (nat i))"

fun digits_val :: "nat \<Rightarrow> nat list \<Rightarrow> nat" where
  "digits_val acc [] = acc"
| "digits_val acc (c # cs) = digits_val (10 * acc + (c - 48)) cs"

definition is_digit :: "nat \<Rightarrow> bool" where
  "is_digit c = (48 \<le> c \<and> c \<le> 57)"

lemma digits_val_append: "digits_val a (xs @ ys) = digits_val (digits_val a xs) ys"
  by (induction xs arbitrary: a) auto

lemma digits_val_nat_digits: "digits_val 0 (nat_digits n) = n"
proof (induction n rule: nat_digits.induct)
  case (1 n)
  then show ?case
    by (cases "n < 10") (simp_all add: nat_digits.simps [of n] digits_val_append)
qed

lemma nat_digits_digits: "c \<in> set (nat_digits n) \<Longrightarrow> is_digit c"
proof (induction n rule: nat_digits.induct)
  case (1 n)
  then show ?case
    by (cases "n < 10") (auto simp: nat_digits.simps [of n] is_digit_def)
qed

lemma nat_digits_nonempty [simp]: "nat_digits n \<noteq> []"
  by (subst nat_digits.simps) simp

lemma nat_digits_zero [simp]: "nat_digits 0 = [48]"
  by (subst nat_digits.simps) simp

text \<open>Only zero is written with a leading zero.\<close>

lemma hd_nat_digits: "0 < n \<Longrightarrow> hd (nat_digits n) \<noteq> 48"
proof (induction n rule: nat_digits.induct)
  case (1 n)
  then show ?case
    by (cases "n < 10") (auto simp: nat_digits.simps [of n] hd_append)
qed

lemma nat_digits_inj: "nat_digits m = nat_digits n \<longleftrightarrow> m = n"
  by (metis digits_val_nat_digits)

section \<open>Hexadecimal integers and UUIDs\<close>

text \<open>
  \<open>int(s, 16)\<close>: a text with a character outside ASCII is first folded to ASCII (blanks to a space,
  decimal digits to \<open>0\<close>--\<open>9\<close>, anything else to a question mark, which no digit scan accepts); then
  blanks, a sign, \<open>0x\<close> with one underscore after it, digits with single underscores between them,
  blanks, and nothing more.
\<close>

definition fold_ascii :: "pystr \<Rightarrow> pystr" where
  "fold_ascii s = (if list_all (\<lambda>c. c < 128) s then s
     else map (\<lambda>c. if c < 127 then c else if unicode_space c then 32
                   else case unicode_decimal c of Some d \<Rightarrow> 48 + d | None \<Rightarrow> 63) s)"

fun scan_hex :: "nat \<Rightarrow> bool \<Rightarrow> pystr \<Rightarrow> (nat \<times> pystr) option" where
  "scan_hex acc us [] = (if us then None else Some (acc, []))"
| "scan_hex acc us (c # cs) =
     (if c = 95 then (if us then None else scan_hex acc True cs)
      else case hexval c of Some d \<Rightarrow> scan_hex (16 * acc + d) False cs
           | None \<Rightarrow> if us then None else Some (acc, c # cs))"

definition drop_0x :: "pystr \<Rightarrow> pystr" where
  "drop_0x s = (case s of a # b # r \<Rightarrow>
       if a = 48 \<and> (b = 120 \<or> b = 88) then (case r of c # r' \<Rightarrow> if c = 95 then r' else r | [] \<Rightarrow> r) else s
     | _ \<Rightarrow> s)"

definition int16 :: "pystr \<Rightarrow> int option" where
  "int16 s =
     (let s1 = dropWhile c_space (fold_ascii s);
          neg = (case s1 of c # _ \<Rightarrow> c = 45 | [] \<Rightarrow> False);
          s2 = (case s1 of c # r \<Rightarrow> if c = 43 \<or> c = 45 then r else s1 | [] \<Rightarrow> []);
          s3 = drop_0x s2
      in case s3 of [] \<Rightarrow> None
         | c # _ \<Rightarrow> if hexval c = None then None
             else case scan_hex 0 False s3 of None \<Rightarrow> None
               | Some (v, r) \<Rightarrow> if dropWhile c_space r = [] then Some (if neg then - int v else int v)
                   else None)"

text \<open>The hexadecimal text \<open>uuid.UUID(hex)\<close> reads, after its prefixes, braces and dashes are gone.\<close>

definition uuid_hex :: "pystr \<Rightarrow> pystr" where
  "uuid_hex v =
     replace_all [45] [] (strip_while (\<lambda>c. c = 123 \<or> c = 125)
       (replace_all (py ''uuid:'') [] (replace_all (py ''urn:'') [] v)))"

text \<open>\<open>uuid.UUID(v)\<close>: the 128-bit value, or None for the \<open>ValueError\<close> it raises.\<close>

definition uuid_parse :: "pystr \<Rightarrow> nat option" where
  "uuid_parse v =
     (let h = uuid_hex v in
      if length h \<noteq> 32 then None
      else case int16 h of None \<Rightarrow> None
           | Some i \<Rightarrow> if 0 \<le> i \<and> i < 2 ^ 128 then Some (nat i) else None)"

definition valid_uuid :: "pystr \<Rightarrow> bool" where
  "valid_uuid v = (uuid_parse v \<noteq> None)"


text \<open>\<open>str(uuid.UUID(int=n))\<close>, the canonical text, which is also what Postgres' \<open>uuid::text\<close> yields.\<close>

fun hex_width :: "nat \<Rightarrow> nat \<Rightarrow> pystr" where
  "hex_width 0 n = []"
| "hex_width (Suc k) n = hex_width k (n div 16) @ [hexchar (n mod 16)]"

definition uuid_text :: "nat \<Rightarrow> pystr" where
  "uuid_text n = (let h = hex_width 32 n in
     take 8 h @ [45] @ take 4 (drop 8 h) @ [45] @ take 4 (drop 12 h) @ [45] @ take 4 (drop 16 h)
     @ [45] @ drop 20 h)"

lemma length_hex_width [simp]: "length (hex_width k n) = k"
  by (induction k arbitrary: n) auto

lemma hexchar_hex: "d < 16 \<Longrightarrow> hexchar d \<in> {48..57} \<union> {97..102}"
  by (auto simp: hexchar_def)

lemma set_hex_width: "set (hex_width k n) \<subseteq> {48..57} \<union> {97..102}"
proof (induction k arbitrary: n)
  case (Suc k)
  have "hexchar (n mod 16) \<in> {48..57} \<union> {97..102}" by (rule hexchar_hex) simp
  with Suc show ?case by auto
qed simp

lemma set_uuid_text: "set (uuid_text n) \<subseteq> {48..57} \<union> {97..102} \<union> {45}"
  using set_hex_width [of 32 n] unfolding uuid_text_def Let_def
  by (auto dest: in_set_takeD in_set_dropD)

lemma scan_hex_hexchar:
  "d < 16 \<Longrightarrow> scan_hex acc us (hexchar d # ys) = scan_hex (16 * acc + d) False ys"
  by (auto simp: hexchar_def hexval_def)

lemma scan_hex_width:
  "scan_hex acc False (hex_width k n @ ys) = scan_hex (acc * 16 ^ k + n mod 16 ^ k) False ys"
proof (induction k arbitrary: acc n ys)
  case (Suc k)
  have "16 * (acc * 16 ^ k + n div 16 mod 16 ^ k) + n mod 16
      = acc * 16 ^ Suc k + (16 * (n div 16 mod 16 ^ k) + n mod 16)"
    by (simp add: algebra_simps)
  also have "16 * (n div 16 mod 16 ^ k) + n mod 16 = n mod 16 ^ Suc k"
    by (simp add: mod_mult2_eq)
  finally have acc: "16 * (acc * 16 ^ k + n div 16 mod 16 ^ k) + n mod 16
      = acc * 16 ^ Suc k + n mod 16 ^ Suc k" .
  have "scan_hex acc False (hex_width (Suc k) n @ ys)
      = scan_hex (acc * 16 ^ k + n div 16 mod 16 ^ k) False (hexchar (n mod 16) # ys)"
    using Suc.IH [of acc "n div 16" "hexchar (n mod 16) # ys"] by simp
  also have "\<dots> = scan_hex (16 * (acc * 16 ^ k + n div 16 mod 16 ^ k) + n mod 16) False ys"
    by (rule scan_hex_hexchar) simp
  also have "\<dots> = scan_hex (acc * 16 ^ Suc k + n mod 16 ^ Suc k) False ys"
    by (simp only: acc)
  finally show ?case .
qed simp

lemma uuid_hex_uuid_text: "uuid_hex (uuid_text n) = hex_width 32 n"
proof -
  let ?h = "hex_width 32 n"
  have hs: "x \<notin> set ?h" if "x \<notin> {48..57} \<union> {97..102}" for x
    using that set_hex_width [of 32 n] by blast
  have abs: "x \<notin> set (uuid_text n)" if "x \<notin> {48..57} \<union> {97..102} \<union> {45}" for x
    using that set_uuid_text [of n] by blast
  have urn: "replace_all (py ''urn:'') [] (uuid_text n) = uuid_text n"
    by (rule replace_all_absent [where x = 117]) (simp_all add: py_def abs)
  have uuid: "replace_all (py ''uuid:'') [] (uuid_text n) = uuid_text n"
    by (rule replace_all_absent [where x = 117]) (simp_all add: py_def abs)
  have dw: "dropWhile (\<lambda>c. c = 123 \<or> c = 125) (xs :: nat list) = xs"
    if "123 \<notin> set xs" "125 \<notin> set xs" for xs
    using that by (cases xs) auto
  have strip: "strip_while (\<lambda>c. c = 123 \<or> c = 125) (uuid_text n) = uuid_text n"
    by (simp add: strip_while_def dw abs)
  have parts: "filter (\<lambda>c. c \<noteq> 45) (take i (drop j ?h)) = take i (drop j ?h)" for i j
    using hs [of 45] by (auto simp: filter_id_conv dest: in_set_takeD in_set_dropD)
  have parts': "filter (\<lambda>c. c \<noteq> 45) (drop j ?h) = drop j ?h" for j
    using parts [of "length ?h" j] by (simp only: take_all length_drop diff_le_self)
  have parts'': "filter (\<lambda>c. c \<noteq> 45) (take i ?h) = take i ?h" for i
    using parts [of i 0] by simp
  have "filter (\<lambda>c. c \<noteq> 45) (uuid_text n) = take 8 ?h @ take 4 (drop 8 ?h) @ take 4 (drop 12 ?h)
      @ take 4 (drop 16 ?h) @ drop 20 ?h"
    by (simp add: uuid_text_def Let_def parts parts' parts'' del: hex_width.simps)
  also have "\<dots> = ?h"
    using append_take_drop_id [of 8 ?h] append_take_drop_id [of 4 "drop 8 ?h"]
      append_take_drop_id [of 4 "drop 12 ?h"] append_take_drop_id [of 4 "drop 16 ?h"]
    by (simp del: hex_width.simps)
  finally show ?thesis
    by (simp add: uuid_hex_def urn uuid strip replace_all_char del: hex_width.simps)
qed

lemma int16_hex_width:
  assumes "0 < k"
  shows "int16 (hex_width k n) = Some (int (n mod 16 ^ k))"
proof -
  let ?h = "hex_width k n"
  have hs: "x \<in> {48..57} \<union> {97..102}" if "x \<in> set ?h" for x
    using that set_hex_width [of k n] by blast
  have fold: "fold_ascii ?h = ?h"
    using hs by (force simp: fold_ascii_def list_all_iff)
  obtain c r where cr: "?h = c # r"
    using assms length_hex_width [of k n] by (cases ?h) auto
  then have c: "c \<in> {48..57} \<union> {97..102}" by (intro hs) simp
  have ox: "drop_0x ?h = ?h"
    using hs cr by (cases r) (force simp: drop_0x_def)+
  have nc: "\<not> c_space c" "c \<noteq> 45" "c \<noteq> 43" using c by (auto simp: c_space_def)
  have hv: "hexval c \<noteq> None" using c by (auto simp: hexval_def)
  have scan: "scan_hex 0 False ?h = Some (n mod 16 ^ k, [])"
    using scan_hex_width [of 0 k n "[]"] by simp
  show ?thesis
    using ox scan hv nc fold unfolding int16_def Let_def cr by (simp del: scan_hex.simps)
qed

text \<open>Every canonical text is accepted and read back as the number it was written from.\<close>

lemma uuid_parse_text: "n < 2 ^ 128 \<Longrightarrow> uuid_parse (uuid_text n) = Some n"
  by (simp add: uuid_parse_def uuid_hex_uuid_text int16_hex_width del: hex_width.simps)

lemma uuid_parse_less: "uuid_parse v = Some n \<Longrightarrow> n < 2 ^ 128"
  by (auto simp: uuid_parse_def Let_def split: if_splits option.splits)

end
