(* ===== verification/Utf8.thy ===== *)
theory Utf8
  imports PyText
begin

text \<open>
  \<open>str.encode\<close> and \<open>bytes.decode\<close>: strict UTF-8, UTF-8 with the \<open>surrogatepass\<close> handler that
  \<open>json.loads\<close> uses on bytes, ASCII and Latin-1.  A text with a surrogate code point cannot be
  encoded (\<open>UnicodeEncodeError\<close>, None here); decoding rejects overlong forms, stray continuation
  bytes and values above U+10FFFF.
\<close>

section \<open>UTF-8\<close>

definition surrogate :: "nat \<Rightarrow> bool" where
  "surrogate c = (55296 \<le> c \<and> c < 57344)"

definition byte_of :: "nat \<Rightarrow> byte" where
  "byte_of n = of_nat n"

definition utf8_enc1 :: "nat \<Rightarrow> bytes option" where
  "utf8_enc1 c =
     (if c < 128 then Some [byte_of c]
      else if c < 2048 then Some [byte_of (192 + c div 64), byte_of (128 + c mod 64)]
      else if surrogate c then None
      else if c < 65536 then
        Some [byte_of (224 + c div 4096), byte_of (128 + c div 64 mod 64), byte_of (128 + c mod 64)]
      else if c < 1114112 then
        Some [byte_of (240 + c div 262144), byte_of (128 + c div 4096 mod 64),
              byte_of (128 + c div 64 mod 64), byte_of (128 + c mod 64)]
      else None)"

fun utf8_encode :: "pystr \<Rightarrow> bytes option" where
  "utf8_encode [] = Some []"
| "utf8_encode (c # cs) =
     (case utf8_enc1 c of None \<Rightarrow> None
      | Some e \<Rightarrow> (case utf8_encode cs of None \<Rightarrow> None | Some es \<Rightarrow> Some (e @ es)))"

definition is_cont :: "byte \<Rightarrow> bool" where
  "is_cont b = (128 \<le> unat b \<and> unat b < 192)"

definition low6 :: "byte \<Rightarrow> nat" where
  "low6 b = unat b mod 64"

fun utf8_decode :: "bool \<Rightarrow> bytes \<Rightarrow> pystr option" where
  "utf8_decode sp [] = Some []"
| "utf8_decode sp (b # bs) =
     (if unat b < 128 then map_option (Cons (unat b)) (utf8_decode sp bs)
      else if 194 \<le> unat b \<and> unat b < 224 then
        (case bs of b1 # r \<Rightarrow>
           if is_cont b1 then map_option (Cons ((unat b - 192) * 64 + low6 b1)) (utf8_decode sp r) else None
         | _ \<Rightarrow> None)
      else if 224 \<le> unat b \<and> unat b < 240 then
        (case bs of b1 # b2 # r \<Rightarrow>
           let c = (unat b - 224) * 4096 + low6 b1 * 64 + low6 b2 in
           if is_cont b1 \<and> is_cont b2 \<and> 2048 \<le> c \<and> (sp \<or> \<not> surrogate c)
           then map_option (Cons c) (utf8_decode sp r) else None
         | _ \<Rightarrow> None)
      else if 240 \<le> unat b \<and> unat b < 245 then
        (case bs of b1 # b2 # b3 # r \<Rightarrow>
           let c = (unat b - 240) * 262144 + low6 b1 * 4096 + low6 b2 * 64 + low6 b3 in
           if is_cont b1 \<and> is_cont b2 \<and> is_cont b3 \<and> 65536 \<le> c \<and> c < 1114112
           then map_option (Cons c) (utf8_decode sp r) else None
         | _ \<Rightarrow> None)
      else None)"

lemma unat_byte_of [simp]: "n < 256 \<Longrightarrow> unat (byte_of n) = n"
  by (simp add: byte_of_def unat_of_nat)

lemma unat_byte_less [simp]: "unat (b :: byte) < 256"
  using unsigned_less [of b] by simp

lemma byte_of_unat [simp]: "byte_of (unat b) = b"
  by (simp add: byte_of_def)

lemma low6_sum: "(k::nat) < 64 \<Longrightarrow> (128 + k) mod 64 = k"
  by (simp add: mod_if [of "128 + k"] mod_if)

lemma cont_byte: "k < 64 \<Longrightarrow> is_cont (byte_of (128 + k)) \<and> low6 (byte_of (128 + k)) = k"
  by (simp add: is_cont_def low6_def low6_sum)

lemma split64:
  fixes c :: nat
  shows "c div 4096 * 4096 + c div 64 mod 64 * 64 + c mod 64 = c"
    and "c div 262144 * 262144 + c div 4096 mod 64 * 4096 + c div 64 mod 64 * 64 + c mod 64 = c"
proof -
  have a: "c div 64 * 64 + c mod 64 = c"
    and b: "c div 64 div 64 * 64 + c div 64 mod 64 = c div 64"
    and d: "c div 64 div 64 div 64 * 64 + c div 64 div 64 mod 64 = c div 64 div 64"
    by (rule div_mult_mod_eq)+
  have e: "c div 4096 = c div 64 div 64" "c div 262144 = c div 64 div 64 div 64"
    by (simp_all add: div_mult2_eq [symmetric])
  show "c div 4096 * 4096 + c div 64 mod 64 * 64 + c mod 64 = c"
    using a b unfolding e by linarith
  show "c div 262144 * 262144 + c div 4096 mod 64 * 4096 + c div 64 mod 64 * 64 + c mod 64 = c"
    using a b d unfolding e by linarith
qed

lemma utf8_dec_enc1:
  assumes "utf8_enc1 c = Some e"
  shows "utf8_decode sp (e @ r) = map_option (Cons c) (utf8_decode sp r)"
proof -
  note cb = cont_byte [of "c mod 64"] cont_byte [of "c div 64 mod 64"] cont_byte [of "c div 4096 mod 64"]
  consider "c < 128" | "128 \<le> c" "c < 2048" | "2048 \<le> c" "c < 65536" "\<not> surrogate c"
    | "65536 \<le> c" "c < 1114112"
    using assms by (auto simp: utf8_enc1_def split: if_splits)
  then show ?thesis
  proof cases
    case 1
    with assms show ?thesis by (auto simp: utf8_enc1_def)
  next
    case 2
    then have "e = [byte_of (192 + c div 64), byte_of (128 + c mod 64)]"
      using assms by (simp add: utf8_enc1_def)
    moreover have "unat (byte_of (192 + c div 64)) = 192 + c div 64" "192 + c div 64 < 224"
        "2 \<le> c div 64" using 2 by auto
    ultimately show ?thesis using cb by (simp)
  next
    case 3
    then have "e = [byte_of (224 + c div 4096), byte_of (128 + c div 64 mod 64), byte_of (128 + c mod 64)]"
      using assms by (simp add: utf8_enc1_def)
    moreover have "unat (byte_of (224 + c div 4096)) = 224 + c div 4096" "224 + c div 4096 < 240"
      using 3 by auto
    ultimately show ?thesis using 3 cb split64(1) [of c] by simp
  next
    case 4
    then have "e = [byte_of (240 + c div 262144), byte_of (128 + c div 4096 mod 64),
        byte_of (128 + c div 64 mod 64), byte_of (128 + c mod 64)]"
      using assms by (simp add: utf8_enc1_def surrogate_def)
    moreover have "unat (byte_of (240 + c div 262144)) = 240 + c div 262144"
        "240 + c div 262144 < 245" using 4 by auto
    ultimately show ?thesis using 4 cb split64(2) [of c] by simp
  qed
qed

text \<open>Decoding what was encoded gives the text back, under either error handler.\<close>

lemma utf8_decode_encode: "utf8_encode s = Some bs \<Longrightarrow> utf8_decode sp bs = Some s"
proof (induction s arbitrary: bs)
  case (Cons c cs)
  then obtain e es where "utf8_enc1 c = Some e" "utf8_encode cs = Some es" "bs = e @ es"
    by (auto split: option.splits)
  with Cons.IH show ?case by (simp add: utf8_dec_enc1)
qed simp

definition valid_cp :: "nat \<Rightarrow> bool" where
  "valid_cp c = (c < 1114112 \<and> \<not> surrogate c)"

lemma utf8_enc1_None_iff: "utf8_enc1 c = None \<longleftrightarrow> \<not> valid_cp c"
  by (auto simp: utf8_enc1_def valid_cp_def surrogate_def)

text \<open>Exactly the texts without surrogates can be encoded.\<close>

lemma utf8_encode_None_iff: "utf8_encode s = None \<longleftrightarrow> \<not> list_all valid_cp s"
proof (induction s)
  case (Cons c cs)
  then show ?case using utf8_enc1_None_iff [of c] by (auto split: option.splits)
qed simp

lemma utf8_encode_Some: "list_all valid_cp s \<Longrightarrow> \<exists>bs. utf8_encode s = Some bs"
  using utf8_encode_None_iff [of s] by auto

lemma utf8_encode_append:
  "utf8_encode (s @ t) =
     (case utf8_encode s of None \<Rightarrow> None
      | Some a \<Rightarrow> (case utf8_encode t of None \<Rightarrow> None | Some b \<Rightarrow> Some (a @ b)))"
  by (induction s) (auto split: option.splits)

lemma utf8_encode_inj:
  "utf8_encode s = Some bs \<Longrightarrow> utf8_encode t = Some bs \<Longrightarrow> s = t"
  using utf8_decode_encode [of s bs False] utf8_decode_encode [of t bs False] by simp

lemma cont_byte_of: "is_cont b \<Longrightarrow> byte_of (128 + low6 b) = b"
proof -
  assume "is_cont b"
  then have "unat b = 128 + (unat b - 128)" "unat b - 128 < 64" by (auto simp: is_cont_def)
  then have "unat b = 128 + unat b mod 64" by (metis low6_sum)
  then show ?thesis unfolding low6_def by (metis byte_of_unat)
qed

lemma low6_less [simp]: "low6 b < 64"
  by (simp add: low6_def)

lemma joined64:
  "(a * 64 + low6 b) div 64 = a" "(a * 64 + low6 b) mod 64 = low6 b"
  using low6_less [of b] by simp_all

lemma lead_byte: "m \<le> unat b \<Longrightarrow> byte_of (m + (unat b - m)) = b"
  by simp

lemma utf8_enc1_2:
  assumes "194 \<le> unat b" "unat b < 224" "is_cont b1"
  shows "utf8_enc1 ((unat b - 192) * 64 + low6 b1) = Some [b, b1]"
proof -
  let ?c = "(unat b - 192) * 64 + low6 b1"
  note d = joined64 [of "unat b - 192" b1]
  have "\<not> ?c < 128" using assms(1) by linarith
  moreover have "?c < 2048" using assms(2) low6_less [of b1] by linarith
  ultimately show ?thesis using assms
    unfolding utf8_enc1_def d by (simp add: cont_byte_of)
qed

lemma utf8_enc1_3:
  assumes "224 \<le> unat b" "unat b < 240" "is_cont b1" "is_cont b2"
    "c = (unat b - 224) * 4096 + low6 b1 * 64 + low6 b2" "2048 \<le> c" "\<not> surrogate c"
  shows "utf8_enc1 c = Some [b, b1, b2]"
proof -
  have c: "c = ((unat b - 224) * 64 + low6 b1) * 64 + low6 b2" using assms(5) by simp
  have d: "c div 64 = (unat b - 224) * 64 + low6 b1" "c mod 64 = low6 b2" unfolding c by (rule joined64)+
  have "c div 4096 = c div 64 div 64" by (simp add: div_mult2_eq [symmetric])
  then have e: "c div 4096 = unat b - 224" "c div 64 mod 64 = low6 b1" unfolding d by (simp_all only: joined64)
  have "c < 65536" using assms(2) low6_less [of b1] low6_less [of b2] unfolding assms(5) by linarith
  then show ?thesis using assms(1-4,6,7) unfolding utf8_enc1_def d(2) e by (simp add: cont_byte_of)
qed

lemma utf8_enc1_4:
  assumes "240 \<le> unat b" "is_cont b1" "is_cont b2" "is_cont b3"
    "c = (unat b - 240) * 262144 + low6 b1 * 4096 + low6 b2 * 64 + low6 b3" "65536 \<le> c" "c < 1114112"
  shows "utf8_enc1 c = Some [b, b1, b2, b3]"
proof -
  have c: "c = (((unat b - 240) * 64 + low6 b1) * 64 + low6 b2) * 64 + low6 b3" using assms(5) by simp
  have d: "c div 64 = ((unat b - 240) * 64 + low6 b1) * 64 + low6 b2" "c mod 64 = low6 b3"
    unfolding c by (rule joined64)+
  have e: "c div 4096 = c div 64 div 64" "c div 262144 = c div 64 div 64 div 64"
    by (simp_all add: div_mult2_eq [symmetric])
  have f: "c div 262144 = unat b - 240" "c div 4096 mod 64 = low6 b1" "c div 64 mod 64 = low6 b2"
    unfolding e unfolding d by (simp_all only: joined64)
  show ?thesis using assms(1-4,6,7) unfolding utf8_enc1_def d(2) f by (simp add: cont_byte_of surrogate_def)
qed

text \<open>Strict decoding accepts only what encoding writes.\<close>

lemma utf8_encode_decode: "utf8_decode False bs = Some s \<Longrightarrow> utf8_encode s = Some bs"
proof (induction "False" bs arbitrary: s rule: utf8_decode.induct)
  case (2 b bs)
  consider "unat b < 128" | "194 \<le> unat b" "unat b < 224" | "224 \<le> unat b" "unat b < 240" | "240 \<le> unat b" "unat b < 245"
    using "2.prems" by (auto split: if_splits)
  then show ?case
  proof cases
    case 1
    then show ?thesis using 2 by (auto simp: utf8_enc1_def)
  next
    case c: 2
    then obtain b1 r s' where "bs = b1 # r" "is_cont b1" "utf8_decode False r = Some s'"
      "s = ((unat b - 192) * 64 + low6 b1) # s'"
      using "2.prems" by (auto split: list.splits if_splits)
    then show ?thesis using "2.hyps"(2) [of b1 r s'] c by (simp add: utf8_enc1_2)
  next
    case c: 3
    then obtain b1 b2 r s' where "bs = b1 # b2 # r" "is_cont b1" "is_cont b2" "utf8_decode False r = Some s'"
      "2048 \<le> hd s" "\<not> surrogate (hd s)" "s = ((unat b - 224) * 4096 + low6 b1 * 64 + low6 b2) # s'"
      using "2.prems" by (auto simp: Let_def split: list.splits if_splits)
    then show ?thesis using "2.hyps"(3) [of b1 _ b2 r _ s'] c utf8_enc1_3 [of b b1 b2 "hd s"] by (simp add: Let_def)
  next
    case c: 4
    then obtain b1 b2 b3 r s' where "bs = b1 # b2 # b3 # r" "is_cont b1" "is_cont b2" "is_cont b3"
      "utf8_decode False r = Some s'" "65536 \<le> hd s" "hd s < 1114112"
      "s = ((unat b - 240) * 262144 + low6 b1 * 4096 + low6 b2 * 64 + low6 b3) # s'"
      using "2.prems" by (auto simp: Let_def split: list.splits if_splits)
    then show ?thesis using "2.hyps"(4) [of b1 _ b2 _ b3 r _ s'] c utf8_enc1_4 [of b b1 b2 b3 "hd s"] by (simp add: Let_def)
  qed
qed simp
section \<open>ASCII and Latin-1\<close>

definition ascii_encode :: "pystr \<Rightarrow> bytes option" where
  "ascii_encode s = (if list_all (\<lambda>c. c < 128) s then Some (map byte_of s) else None)"

definition ascii_decode :: "bytes \<Rightarrow> pystr option" where
  "ascii_decode bs = (if list_all (\<lambda>b. unat b < 128) bs then Some (map unat bs) else None)"

definition latin1_decode :: "bytes \<Rightarrow> pystr" where
  "latin1_decode bs = map unat bs"

lemma utf8_encode_ascii: "list_all (\<lambda>c. c < 128) s \<Longrightarrow> utf8_encode s = Some (map byte_of s)"
  by (induction s) (auto simp: utf8_enc1_def)

lemma list_all_py_ascii: "list_all (\<lambda>c. of_char c < (128::nat)) s \<Longrightarrow> list_all (\<lambda>c. c < 128) (py s)"
  by (simp add: py_def list_all_iff)

lemma map_unat_byte_of: "list_all (\<lambda>c. c < 256) s \<Longrightarrow> map (unat \<circ> byte_of) s = s"
  by (induction s) auto

lemma ascii_decode_encode: "ascii_encode s = Some bs \<Longrightarrow> ascii_decode bs = Some s"
proof -
  assume "ascii_encode s = Some bs"
  then have s: "list_all (\<lambda>c. c < 128) s" and bs: "bs = map byte_of s"
    by (auto simp: ascii_encode_def split: if_splits)
  from s have "list_all (\<lambda>c. c < 256) s" by (auto simp: list_all_iff)
  then show ?thesis using s map_unat_byte_of [of s]
    by (auto simp: bs ascii_decode_def list_all_iff)
qed

lemma ascii_encode_utf8: "ascii_encode s = Some bs \<Longrightarrow> utf8_encode s = Some bs"
  by (auto simp: ascii_encode_def utf8_encode_ascii split: if_splits)

section \<open>Hexadecimal text of bytes\<close>

text \<open>\<open>bytes.fromhex(s)\<close>: pairs of hexadecimal digits, with ASCII blanks allowed between pairs.\<close>

fun fromhex :: "pystr \<Rightarrow> bytes option" where
  "fromhex [] = Some []"
| "fromhex [a] = (if c_space a then Some [] else None)"
| "fromhex (a # b # r) =
     (if c_space a then fromhex (b # r)
      else case (hexval a, hexval b) of
        (Some x, Some y) \<Rightarrow> map_option (Cons (byte_of (16 * x + y))) (fromhex r)
      | _ \<Rightarrow> None)"

text \<open>\<open>bytes.hex()\<close>.\<close>

fun bytes_hex :: "bytes \<Rightarrow> pystr" where
  "bytes_hex [] = []"
| "bytes_hex (b # bs) = hexchar (unat b div 16) # hexchar (unat b mod 16) # bytes_hex bs"

lemma hexchar_not_space [simp]: "d < 16 \<Longrightarrow> \<not> c_space (hexchar d)" "d < 16 \<Longrightarrow> \<not> unicode_space (hexchar d)"
  by (auto simp: hexchar_def c_space_def unicode_space_def unicode_spaces_def)

lemma unat_byte_div [simp]: "unat (b :: byte) div 16 < 16"
  using unat_byte_less [of b] by linarith

lemma fromhex_hex: "fromhex (bytes_hex bs) = Some bs"
proof (induction bs)
  case (Cons b bs)
  have "byte_of (16 * (unat b div 16) + unat b mod 16) = b"
    using byte_of_unat [of b] by (simp only: mult_div_mod_eq)
  with Cons show ?case by simp
qed simp

lemma fromhex_chars: "fromhex s = Some bs \<Longrightarrow> c \<in> set s \<Longrightarrow> c_space c \<or> hexval c \<noteq> None"
  by (induction s arbitrary: bs rule: fromhex.induct) (auto split: if_splits option.splits)

lemma strip_no_space: "(\<And>c. c \<in> set s \<Longrightarrow> \<not> unicode_space c) \<Longrightarrow> strip s = s"
proof -
  assume a: "\<And>c. c \<in> set s \<Longrightarrow> \<not> unicode_space c"
  then have "dropWhile unicode_space s = s" by (cases s) auto
  moreover have "dropWhile unicode_space (rev s) = rev s" using a by (cases s rule: rev_cases) auto
  ultimately show ?thesis by (simp add: strip_while_def)
qed

lemma bytes_hex_not_space: "c \<in> set (bytes_hex bs) \<Longrightarrow> \<not> unicode_space c"
  by (induction bs) auto

lemma length_bytes_hex [simp]: "length (bytes_hex bs) = 2 * length bs"
  by (induction bs) simp_all

lemma take_bytes_hex: "take (2 * n) (bytes_hex bs) = bytes_hex (take n bs)"
proof (induction bs arbitrary: n)
  case (Cons b bs)
  then show ?case by (cases n) simp_all
qed simp

lemma set_bytes_hex: "set (bytes_hex bs) \<subseteq> {48..57} \<union> {97..102}"
proof (induction bs)
  case (Cons b bs)
  have "hexchar (unat b div 16) \<in> {48..57} \<union> {97..102}" "hexchar (unat b mod 16) \<in> {48..57} \<union> {97..102}"
    by (rule hexchar_hex; simp)+
  with Cons show ?case by simp
qed simp

end
