(* ===== verification/AesGcm.thy ===== *)
theory AesGcm
  imports Utf8
begin

text \<open>
  \<open>omkit/crypto\<close>: the AES-256-GCM envelope (\<open>aes_gcm.py\<close>), the purpose strings (\<open>aad.py\<close>) and the
  session key with its self test (\<open>kuser.py\<close>).  The cipher itself is the third-party
  \<open>cryptography\<close> package: a record of its two operations, with \<open>aead_ok\<close> naming what its
  documentation promises.  The nonce drawn from \<open>os.urandom\<close> is an argument.
\<close>

section \<open>The cipher\<close>

text \<open>\<open>AESGCM(key).encrypt(nonce, data, aad)\<close> and \<open>decrypt\<close>, which raises \<open>InvalidTag\<close> or, for a nonce
  of a length it does not support, \<open>ValueError\<close>.\<close>

datatype aead_error = InvalidTag | BadNonce

record aesgcm =
  aead_encrypt :: "bytes \<Rightarrow> bytes \<Rightarrow> bytes \<Rightarrow> bytes option \<Rightarrow> bytes"
  aead_decrypt :: "bytes \<Rightarrow> bytes \<Rightarrow> bytes \<Rightarrow> bytes option \<Rightarrow> aead_error + bytes"

text \<open>
  The documented laws under 32-byte keys and 12-byte nonces: decryption under the same key, nonce
  and data inverts encryption; a ciphertext is the plaintext's length plus the 16 bytes of the tag;
  and decryption accepts only what encryption of its result gives (the tag is recomputed and
  compared), any other input raising \<open>InvalidTag\<close>.
\<close>

definition aead_ok :: "aesgcm \<Rightarrow> bool" where
  "aead_ok G = (\<forall>k n a. length k = 32 \<longrightarrow> length n = 12 \<longrightarrow>
     (\<forall>p. aead_decrypt G k n (aead_encrypt G k n p a) a = Inr p
        \<and> length (aead_encrypt G k n p a) = length p + 16)
   \<and> (\<forall>c p. aead_decrypt G k n c a = Inr p \<longrightarrow> aead_encrypt G k n p a = c)
   \<and> (\<forall>c. aead_decrypt G k n c a \<noteq> Inl BadNonce))"

lemma aead_okD:
  assumes "aead_ok G" "length k = 32" "length n = 12"
  shows "aead_decrypt G k n (aead_encrypt G k n p a) a = Inr p"
    and "length (aead_encrypt G k n p a) = length p + 16"
    and "aead_decrypt G k n c a = Inr p \<Longrightarrow> aead_encrypt G k n p a = c"
    and "aead_decrypt G k n c a \<noteq> Inl BadNonce"
  using assms unfolding aead_ok_def by blast+

lemma aead_decrypt_iff:
  "aead_ok G \<Longrightarrow> length k = 32 \<Longrightarrow> length n = 12 \<Longrightarrow>
     aead_decrypt G k n c a = Inr p \<longleftrightarrow> c = aead_encrypt G k n p a"
  using aead_okD [of G k n] by blast

lemma aead_decrypt_cases:
  assumes "aead_ok G" "length k = 32" "length n = 12"
  obtains p where "aead_decrypt G k n c a = Inr p" "c = aead_encrypt G k n p a"
  | "aead_decrypt G k n c a = Inl InvalidTag" "\<forall>p. c \<noteq> aead_encrypt G k n p a"
proof (cases "aead_decrypt G k n c a")
  case (Inl e)
  then show ?thesis
    using that(2) aead_okD(4) [OF assms, of c a] aead_decrypt_iff [OF assms, of c a]
    by (cases e) auto
next
  case (Inr p)
  then show ?thesis using that(1) aead_decrypt_iff [OF assms, of c a] by auto
qed

section \<open>The envelope: aes-gcm\<close>

definition NONCE_SIZE :: nat where "NONCE_SIZE = 12"
definition TAG_SIZE :: nat where "TAG_SIZE = 16"
definition KEK_SIZE :: nat where "KEK_SIZE = 32"

text \<open>
  The exceptions of the crypto components: the two of \<open>aes_gcm.py\<close>, which \<open>encryption.py\<close> exports as
  \<open>InvalidKey\<close> and \<open>InvalidToken\<close>, the codec errors of \<open>str.encode\<close> and \<open>bytes.decode\<close>, a \<open>ValueError\<close>
  of the cipher, and whatever a key resolver raises.
\<close>

datatype crypto_error =
    InvalidKeyError
  | InvalidEnvelopeError
  | TextEncodeError
  | TextDecodeError
  | CipherValueError
  | ResolverError

definition aad_arg :: "bytes \<Rightarrow> bytes option" where
  "aad_arg aad = (if aad = [] then None else Some aad)"

definition validate_kek :: "bytes \<Rightarrow> crypto_error + unit" where
  "validate_kek kek = (if length kek \<noteq> KEK_SIZE then Inl InvalidKeyError else Inr ())"

definition wrap_with_key :: "aesgcm \<Rightarrow> bytes \<Rightarrow> bytes \<Rightarrow> bytes \<Rightarrow> bytes \<Rightarrow> crypto_error + bytes" where
  "wrap_with_key G nonce kek plaintext aad =
     res_bind (validate_kek kek) (\<lambda>_. Inr (nonce @ aead_encrypt G kek nonce plaintext (aad_arg aad)))"

definition unwrap_with_key :: "aesgcm \<Rightarrow> bytes \<Rightarrow> bytes \<Rightarrow> bytes \<Rightarrow> crypto_error + bytes" where
  "unwrap_with_key G kek blob aad =
     res_bind (validate_kek kek) (\<lambda>_.
       if length blob < NONCE_SIZE then Inl InvalidEnvelopeError
       else (case aead_decrypt G kek (take NONCE_SIZE blob) (drop NONCE_SIZE blob) (aad_arg aad) of
           Inl InvalidTag \<Rightarrow> Inl InvalidEnvelopeError
         | Inl BadNonce \<Rightarrow> Inl CipherValueError
         | Inr p \<Rightarrow> Inr p))"

text \<open>The keyword surface: the resolver maps a key id to the key, or raises.\<close>

definition aes_wrap ::
    "aesgcm \<Rightarrow> bytes \<Rightarrow> bytes \<Rightarrow> pystr \<Rightarrow> bytes \<Rightarrow> (pystr \<Rightarrow> bytes option) \<Rightarrow> crypto_error + bytes" where
  "aes_wrap G nonce plaintext key_id aad key_resolver =
     (case key_resolver key_id of None \<Rightarrow> Inl ResolverError
      | Some kek \<Rightarrow> wrap_with_key G nonce kek plaintext aad)"

definition aes_unwrap ::
    "aesgcm \<Rightarrow> bytes \<Rightarrow> bytes \<Rightarrow> (pystr \<Rightarrow> bytes option) \<Rightarrow> pystr option \<Rightarrow> crypto_error + bytes" where
  "aes_unwrap G envelope aad key_resolver key_id =
     (case key_resolver (case key_id of Some k \<Rightarrow> k | None \<Rightarrow> py '''') of None \<Rightarrow> Inl ResolverError
      | Some kek \<Rightarrow> unwrap_with_key G kek envelope aad)"

lemma validate_kek_simps [simp]:
  "validate_kek kek = Inr u \<longleftrightarrow> length kek = 32" "validate_kek kek = Inl e \<longleftrightarrow> length kek \<noteq> 32 \<and> e = InvalidKeyError"
  by (auto simp: validate_kek_def KEK_SIZE_def)

lemma wrap_with_key_ok:
  "length kek = 32 \<Longrightarrow> wrap_with_key G nonce kek p aad = Inr (nonce @ aead_encrypt G kek nonce p (aad_arg aad))"
  by (simp add: wrap_with_key_def validate_kek_def KEK_SIZE_def)

lemma wrap_with_key_Inr_iff:
  "wrap_with_key G nonce kek p aad = Inr blob \<longleftrightarrow>
     length kek = 32 \<and> blob = nonce @ aead_encrypt G kek nonce p (aad_arg aad)"
  by (auto simp: wrap_with_key_def validate_kek_def KEK_SIZE_def)

lemma unwrap_wrap_with_key:
  assumes "aead_ok G" "length nonce = 12" "wrap_with_key G nonce kek p aad = Inr blob"
  shows "unwrap_with_key G kek blob aad = Inr p"
  using assms(3) aead_okD(1) [OF assms(1) _ assms(2)] assms(2)
  by (simp add: wrap_with_key_Inr_iff unwrap_with_key_def validate_kek_def KEK_SIZE_def NONCE_SIZE_def)

lemma length_wrap_with_key:
  assumes "aead_ok G" "length nonce = 12" "wrap_with_key G nonce kek p aad = Inr blob"
  shows "length blob = NONCE_SIZE + length p + TAG_SIZE"
  using assms(3) aead_okD(2) [OF assms(1) _ assms(2)] assms(2)
  by (simp add: wrap_with_key_Inr_iff NONCE_SIZE_def TAG_SIZE_def)

lemma unwrap_with_key_Inr_iff:
  assumes "aead_ok G"
  shows "unwrap_with_key G kek blob aad = Inr p \<longleftrightarrow>
    12 \<le> length blob \<and> wrap_with_key G (take 12 blob) kek p aad = Inr blob"
proof (cases "length kek = 32 \<and> 12 \<le> length blob")
  case True
  then have "unwrap_with_key G kek blob aad = Inr p \<longleftrightarrow>
      aead_decrypt G kek (take 12 blob) (drop 12 blob) (aad_arg aad) = Inr p"
    by (auto simp: unwrap_with_key_def validate_kek_def KEK_SIZE_def NONCE_SIZE_def
        split: sum.splits aead_error.splits)
  also have "\<dots> \<longleftrightarrow> drop 12 blob = aead_encrypt G kek (take 12 blob) p (aad_arg aad)"
    using aead_decrypt_iff [OF assms] True by simp
  also have "\<dots> \<longleftrightarrow> wrap_with_key G (take 12 blob) kek p aad = Inr blob"
    using True by (simp add: wrap_with_key_Inr_iff) (metis append_take_drop_id same_append_eq)
  finally show ?thesis using True by simp
next
  case False
  then show ?thesis
    by (auto simp: unwrap_with_key_def validate_kek_def KEK_SIZE_def NONCE_SIZE_def wrap_with_key_Inr_iff)
qed

text \<open>Under a 32-byte key every blob that is not accepted raises \<open>InvalidEnvelopeError\<close>.\<close>

lemma unwrap_with_key_cases:
  assumes "aead_ok G" "length kek = 32"
  shows "(\<exists>p. unwrap_with_key G kek blob aad = Inr p) \<or> unwrap_with_key G kek blob aad = Inl InvalidEnvelopeError"
proof (cases "length blob < 12")
  case False
  then show ?thesis
    using aead_okD(4) [OF assms, of "take 12 blob" "drop 12 blob" "aad_arg aad"] assms(2)
    by (auto simp: unwrap_with_key_def validate_kek_def KEK_SIZE_def NONCE_SIZE_def
        split: sum.splits aead_error.splits)
qed (use assms in \<open>simp add: unwrap_with_key_def validate_kek_def KEK_SIZE_def NONCE_SIZE_def\<close>)

section \<open>A concrete cipher for examples\<close>

text \<open>
  Not AES: a transparent code that satisfies the laws, so that the theorems below can be evaluated.
  The tag is sixteen bytes that depend on the key and the data.
\<close>

definition toy_encrypt :: "bytes \<Rightarrow> bytes \<Rightarrow> bytes \<Rightarrow> bytes option \<Rightarrow> bytes" where
  "toy_encrypt k n p a = (case a of None \<Rightarrow> 0 | Some xs \<Rightarrow> of_nat (Suc (length xs)) + sum_list xs) #
     take 15 (k @ replicate 15 0) @ p"

definition toy_cipher :: aesgcm where
  "toy_cipher = \<lparr>aead_encrypt = toy_encrypt,
     aead_decrypt = (\<lambda>k n c a. if toy_encrypt k n (drop 16 c) a = c then Inr (drop 16 c) else Inl InvalidTag)\<rparr>"

lemma toy_cipher_ok: "aead_ok toy_cipher"
  by (auto simp: aead_ok_def toy_cipher_def toy_encrypt_def split: if_splits)

section \<open>Purpose strings: aad.py\<close>

definition AADMeta :: pystr where "AADMeta = py ''omur-col-meta-v1''"
definition AADMetrics :: pystr where "AADMetrics = py ''omur-col-metrics-v1''"
definition AADContent :: pystr where "AADContent = py ''omur-col-content-v1''"
definition AADEmbeddingsChunks :: pystr where "AADEmbeddingsChunks = py ''omur-col-embeddings-v1''"

definition aad_purposes :: "pystr list" where
  "aad_purposes = [AADMeta, AADMetrics, AADContent, AADEmbeddingsChunks]"

section \<open>The session key: kuser.py\<close>

definition KUSER_SIZE :: nat where "KUSER_SIZE = 32"
definition SELF_TEST_PAYLOAD :: bytes where "SELF_TEST_PAYLOAD = bstr ''OMUR-SELFTEST-V1''"
definition SELF_TEST_AAD :: bytes where "SELF_TEST_AAD = bstr ''omur-selftest''"

text \<open>The object holds one mutable buffer; None is the \<open>ValueError\<close> of the constructor.\<close>

record kuser =
  kbuf :: bytes

definition kuser_init :: "bytes \<Rightarrow> kuser option" where
  "kuser_init raw = (if length raw \<noteq> KUSER_SIZE then None else Some \<lparr>kbuf = raw\<rparr>)"

definition kuser_generate :: "bytes \<Rightarrow> kuser option" where
  "kuser_generate urandom = kuser_init urandom"

definition as_bytes :: "kuser \<Rightarrow> bytes" where
  "as_bytes k = kbuf k"

definition kuser_zero :: "kuser \<Rightarrow> kuser" where
  "kuser_zero k = k\<lparr>kbuf := fold (\<lambda>i b. b[i := 0]) [0..<length (kbuf k)] (kbuf k)\<rparr>"

definition new_self_test :: "aesgcm \<Rightarrow> bytes \<Rightarrow> kuser \<Rightarrow> bytes \<times> bytes" where
  "new_self_test G nonce k = (nonce, aead_encrypt G (kbuf k) nonce SELF_TEST_PAYLOAD (Some SELF_TEST_AAD))"

text \<open>True is the normal return; every failure, of the tag, the nonce or the payload, is a \<open>ValueError\<close>.\<close>

definition verify_self_test :: "aesgcm \<Rightarrow> kuser \<Rightarrow> bytes \<Rightarrow> bytes \<Rightarrow> bool" where
  "verify_self_test G k nonce ciphertext =
     (case aead_decrypt G (kbuf k) nonce ciphertext (Some SELF_TEST_AAD) of
        Inl _ \<Rightarrow> False | Inr pt \<Rightarrow> pt = SELF_TEST_PAYLOAD)"

definition kuser_repr :: "kuser \<Rightarrow> pystr" where
  "kuser_repr k = py ''KUser(<32 bytes redacted>)''"

lemma fold_zero: "n \<le> length b \<Longrightarrow> fold (\<lambda>i b. b[i := 0]) [0..<n] b = replicate n 0 @ drop n (b :: bytes)"
proof (induction n)
  case (Suc n)
  then have "drop n b = b ! n # drop (Suc n) b" by (simp add: Cons_nth_drop_Suc)
  with Suc show ?case by (simp add: list_update_append replicate_append_same)
qed simp

lemma kbuf_zero [simp]: "kbuf (kuser_zero k) = replicate (length (kbuf k)) 0"
  by (simp add: kuser_zero_def fold_zero)

lemma kuser_init_length: "kuser_init raw = Some k \<Longrightarrow> length (kbuf k) = 32 \<and> kbuf k = raw"
  by (simp add: kuser_init_def KUSER_SIZE_def split: if_splits) auto

section \<open>Properties\<close>

text \<open>
  What \<open>wrap_with_key\<close> seals, \<open>unwrap_with_key\<close> opens under the same key and AAD, and the blob is
  the 12-byte nonce, the plaintext's length and the 16-byte tag: nothing else is in the envelope.
\<close>

theorem wrap_unwrap_roundtrip:
  assumes "aead_ok G" "length nonce = NONCE_SIZE" "length kek = KEK_SIZE"
  shows "\<exists>blob. wrap_with_key G nonce kek p aad = Inr blob \<and> unwrap_with_key G kek blob aad = Inr p
    \<and> take NONCE_SIZE blob = nonce \<and> length blob = NONCE_SIZE + length p + TAG_SIZE"
proof -
  let ?blob = "nonce @ aead_encrypt G kek nonce p (aad_arg aad)"
  have w: "wrap_with_key G nonce kek p aad = Inr ?blob"
    using assms by (simp add: wrap_with_key_ok KEK_SIZE_def)
  then show ?thesis
    using assms unwrap_wrap_with_key [OF assms(1) _ w] length_wrap_with_key [OF assms(1) _ w]
    by (auto simp: NONCE_SIZE_def)
qed

lemma wrap_unwrap_roundtrip_witness:
  "\<exists>blob. wrap_with_key toy_cipher (replicate 12 7) (replicate 32 1) (bstr ''dek'') (bstr ''aad'') = Inr blob
    \<and> unwrap_with_key toy_cipher (replicate 32 1) blob (bstr ''aad'') = Inr (bstr ''dek'')
    \<and> take NONCE_SIZE blob = replicate 12 7 \<and> length blob = NONCE_SIZE + length (bstr ''dek'') + TAG_SIZE"
  by (rule wrap_unwrap_roundtrip [OF toy_cipher_ok]) (simp_all add: NONCE_SIZE_def KEK_SIZE_def)

text \<open>
  C38. \<open>unwrap_with_key\<close> classifies every input: a key of the wrong length is \<open>InvalidKeyError\<close>; a blob
  is accepted exactly when sealing its result under its own first twelve bytes gives the blob
  back (so a changed nonce, ciphertext, key or AAD that gives another seal is refused); all the
  rest is \<open>InvalidEnvelopeError\<close>, and no other exception escapes.
\<close>

theorem unwrap_with_key_spec:
  assumes "aead_ok G"
  shows "(unwrap_with_key G kek blob aad = Inr p \<longleftrightarrow>
      NONCE_SIZE \<le> length blob \<and> wrap_with_key G (take NONCE_SIZE blob) kek p aad = Inr blob)
    \<and> (unwrap_with_key G kek blob aad = Inl e \<longrightarrow>
      e = (if length kek = KEK_SIZE then InvalidEnvelopeError else InvalidKeyError))"
proof (cases "length kek = 32")
  case True
  then show ?thesis
    using unwrap_with_key_Inr_iff [OF assms, of kek blob aad p] unwrap_with_key_cases [OF assms True, of blob aad]
    by (auto simp: NONCE_SIZE_def KEK_SIZE_def)
next
  case False
  then show ?thesis
    by (auto simp: unwrap_with_key_def validate_kek_def KEK_SIZE_def wrap_with_key_Inr_iff)
qed

lemma unwrap_with_key_spec_witness:
  "unwrap_with_key toy_cipher (replicate 32 1) (replicate 11 0) [] = Inl InvalidEnvelopeError"
  using unwrap_with_key_spec [OF toy_cipher_ok, of "replicate 32 1" "replicate 11 0" "[]" "[]" CipherValueError]
  by (simp add: unwrap_with_key_def validate_kek_def KEK_SIZE_def NONCE_SIZE_def)

text \<open>
  A key's self test verifies under that key, before the key is zeroed and under any copy of it; a
  pair verifies exactly when it is the self test of that key for that nonce; and \<open>zero()\<close> leaves
  nothing but zeros in the buffer, of the same length.
\<close>

theorem kuser_self_test:
  assumes "aead_ok G" "kuser_init raw = Some k" "length nonce = 12"
  shows "(verify_self_test G k nonce c \<longleftrightarrow> (nonce, c) = new_self_test G nonce k)
    \<and> as_bytes k = raw \<and> as_bytes (kuser_zero k) = replicate KUSER_SIZE 0"
proof -
  have l: "length (kbuf k) = 32" "kbuf k = raw" using kuser_init_length [OF assms(2)] by auto
  have "verify_self_test G k nonce c \<longleftrightarrow> (nonce, c) = new_self_test G nonce k"
    using aead_decrypt_iff [OF assms(1) l(1) assms(3), of c "Some SELF_TEST_AAD" SELF_TEST_PAYLOAD]
    by (auto simp: verify_self_test_def new_self_test_def split: sum.splits)
  then show ?thesis using l by (simp add: as_bytes_def KUSER_SIZE_def)
qed

lemma kuser_self_test_witness:
  "(verify_self_test toy_cipher \<lparr>kbuf = replicate 32 5\<rparr> (replicate 12 0) [] \<longleftrightarrow>
     (replicate 12 0, []) = new_self_test toy_cipher (replicate 12 0) \<lparr>kbuf = replicate 32 5\<rparr>)
   \<and> as_bytes \<lparr>kbuf = replicate 32 5\<rparr> = replicate 32 5
   \<and> as_bytes (kuser_zero \<lparr>kbuf = replicate 32 5\<rparr>) = replicate KUSER_SIZE 0"
  by (rule kuser_self_test [OF toy_cipher_ok]) (simp_all add: kuser_init_def KUSER_SIZE_def)

end
