(* ===== verification/Base64.thy ===== *)
theory Base64
  imports Utf8
begin

text \<open>
  Python's \<open>base64\<close> module, which the settings tokens, the keys and the OpenBao bodies go through.
  Encoding is the standard or the URL-safe alphabet with padding.  Decoding is
  \<open>binascii.a2b_base64\<close> as CPython implements it: without \<open>validate\<close> a character outside the
  alphabet is skipped and everything after a complete padding is ignored; with \<open>validate\<close> both
  are errors.  Encoded text is a list of (ASCII) character codes.
\<close>

section \<open>The alphabets\<close>

definition b64char :: "bool \<Rightarrow> nat \<Rightarrow> nat" where
  "b64char url d = (if d < 26 then 65 + d else if d < 52 then 71 + d else if d < 62 then d - 4
     else if d = 62 then (if url then 45 else 43) else (if url then 95 else 47))"

definition b64val :: "nat \<Rightarrow> nat option" where
  "b64val c = (if 65 \<le> c \<and> c \<le> 90 then Some (c - 65)
     else if 97 \<le> c \<and> c \<le> 122 then Some (c - 71)
     else if 48 \<le> c \<and> c \<le> 57 then Some (c + 4)
     else if c = 43 then Some 62 else if c = 47 then Some 63 else None)"

lemma b64val_char [simp]: "d < 64 \<Longrightarrow> b64val (b64char False d) = Some d"
  by (auto simp: b64val_def b64char_def)

lemma b64char_not_pad [simp]: "d < 64 \<Longrightarrow> b64char u d \<noteq> 61"
  by (auto simp: b64char_def)

lemma b64char_ascii: "d < 64 \<Longrightarrow> b64char u d < 128"
  by (auto simp: b64char_def)

section \<open>Encoding\<close>

text \<open>The four 6-bit groups of three bytes.\<close>

definition sx1 :: "byte \<Rightarrow> nat" where "sx1 a = unat a div 4"
definition sx2 :: "byte \<Rightarrow> byte \<Rightarrow> nat" where "sx2 a b = unat a mod 4 * 16 + unat b div 16"
definition sx3 :: "byte \<Rightarrow> byte \<Rightarrow> nat" where "sx3 b c = unat b mod 16 * 4 + unat c div 64"
definition sx4 :: "byte \<Rightarrow> nat" where "sx4 c = unat c mod 64"

fun b64_encode :: "bool \<Rightarrow> bytes \<Rightarrow> nat list" where
  "b64_encode u [] = []"
| "b64_encode u [a] = [b64char u (sx1 a), b64char u (sx2 a 0), 61, 61]"
| "b64_encode u [a, b] = [b64char u (sx1 a), b64char u (sx2 a b), b64char u (sx3 b 0), 61]"
| "b64_encode u (a # b # c # r) =
     b64char u (sx1 a) # b64char u (sx2 a b) # b64char u (sx3 b c) # b64char u (sx4 c) # b64_encode u r"

section \<open>Decoding\<close>

text \<open>
  The loop over the input: \<open>q\<close> is \<open>quad_pos\<close>, \<open>l\<close> the bits left over (\<open>leftchar\<close>), \<open>p\<close> the
  pads seen since the last data character.
\<close>

fun a2b :: "nat \<Rightarrow> nat \<Rightarrow> nat \<Rightarrow> nat list \<Rightarrow> bytes option" where
  "a2b q l p [] = (if q = 0 then Some [] else None)"
| "a2b q l p (c # cs) =
     (if c = 61 then
        (if 2 \<le> q then (if 4 \<le> q + Suc p then Some [] else a2b q l (Suc p) cs) else a2b q l p cs)
      else case b64val c of None \<Rightarrow> a2b q l p cs
        | Some d \<Rightarrow>
            if q = 0 then a2b 1 d 0 cs
            else if q = 1 then map_option (Cons (byte_of (l * 4 + d div 16))) (a2b 2 (d mod 16) 0 cs)
            else if q = 2 then map_option (Cons (byte_of (l * 16 + d div 4))) (a2b 3 (d mod 4) 0 cs)
            else map_option (Cons (byte_of (l * 64 + d))) (a2b 0 0 0 cs))"

text \<open>
  Strict mode, where \<open>st\<close> is \<open>padding_started\<close> (Python 3.12; a leading pad is refused before the
  loop).
\<close>

fun a2b_strict :: "nat \<Rightarrow> nat \<Rightarrow> nat \<Rightarrow> bool \<Rightarrow> nat list \<Rightarrow> bytes option" where
  "a2b_strict q l p st [] = (if q = 0 then Some [] else None)"
| "a2b_strict q l p st (c # cs) =
     (if c = 61 then
        (if 2 \<le> q then
           (if 4 \<le> q + Suc p then (if cs = [] then Some [] else None) else a2b_strict q l (Suc p) True cs)
         else a2b_strict q l p True cs)
      else case b64val c of None \<Rightarrow> None
        | Some d \<Rightarrow>
            if st then None
            else if q = 0 then a2b_strict 1 d 0 st cs
            else if q = 1 then map_option (Cons (byte_of (l * 4 + d div 16))) (a2b_strict 2 (d mod 16) 0 st cs)
            else if q = 2 then map_option (Cons (byte_of (l * 16 + d div 4))) (a2b_strict 3 (d mod 4) 0 st cs)
            else map_option (Cons (byte_of (l * 64 + d))) (a2b_strict 0 0 0 st cs))"

text \<open>\<open>base64.b64decode(s)\<close>, \<open>base64.b64decode(s, validate=True)\<close> and \<open>base64.urlsafe_b64decode(s)\<close>.\<close>

definition b64_decode :: "nat list \<Rightarrow> bytes option" where
  "b64_decode s = a2b 0 0 0 s"

definition b64_decode_strict :: "nat list \<Rightarrow> bytes option" where
  "b64_decode_strict s =
     (if (case s of c # _ \<Rightarrow> c = 61 | [] \<Rightarrow> False) then None else a2b_strict 0 0 0 False s)"

definition url_translate :: "nat list \<Rightarrow> nat list" where
  "url_translate s = map (\<lambda>c. if c = 45 then 43 else if c = 95 then 47 else c) s"

definition b64url_decode :: "nat list \<Rightarrow> bytes option" where
  "b64url_decode s = b64_decode (url_translate s)"

section \<open>Round trips\<close>

lemma a2b_char:
  "d < 64 \<Longrightarrow> a2b q l p (b64char False d # cs) =
     (if q = 0 then a2b 1 d 0 cs
      else if q = 1 then map_option (Cons (byte_of (l * 4 + d div 16))) (a2b 2 (d mod 16) 0 cs)
      else if q = 2 then map_option (Cons (byte_of (l * 16 + d div 4))) (a2b 3 (d mod 4) 0 cs)
      else map_option (Cons (byte_of (l * 64 + d))) (a2b 0 0 0 cs))"
  by simp

lemma a2b_strict_char:
  "d < 64 \<Longrightarrow> a2b_strict q l p False (b64char False d # cs) =
     (if q = 0 then a2b_strict 1 d 0 False cs
      else if q = 1 then map_option (Cons (byte_of (l * 4 + d div 16))) (a2b_strict 2 (d mod 16) 0 False cs)
      else if q = 2 then map_option (Cons (byte_of (l * 16 + d div 4))) (a2b_strict 3 (d mod 4) 0 False cs)
      else map_option (Cons (byte_of (l * 64 + d))) (a2b_strict 0 0 0 False cs))"
  by simp

text \<open>How the groups recombine into the bytes.\<close>

lemma sx_less [simp]: "sx1 a < 64" "sx2 a b < 64" "sx3 b c < 64" "sx4 c < 64"
proof -
  note lt = unat_byte_less [of a] unat_byte_less [of b] unat_byte_less [of c]
  show "sx1 a < 64" unfolding sx1_def using lt by linarith
  show "sx2 a b < 64" unfolding sx2_def using lt by linarith
  show "sx3 b c < 64" unfolding sx3_def using lt by linarith
  show "sx4 c < 64" unfolding sx4_def by simp
qed

lemma join_parts: "y < n \<Longrightarrow> (x * n + y) div n = x \<and> (x * n + y) mod n = (y::nat)"
  by simp

lemma sx2_parts: "sx2 a b div 16 = unat a mod 4" "sx2 a b mod 16 = unat b div 16"
proof -
  have "unat b div 16 < 16" using unat_byte_less [of b] by linarith
  then show "sx2 a b div 16 = unat a mod 4" "sx2 a b mod 16 = unat b div 16"
    using join_parts unfolding sx2_def by blast+
qed

lemma sx3_parts: "sx3 b c div 4 = unat b mod 16" "sx3 b c mod 4 = unat c div 64"
proof -
  have "unat c div 64 < 4" using unat_byte_less [of c] by linarith
  then show "sx3 b c div 4 = unat b mod 16" "sx3 b c mod 4 = unat c div 64"
    using join_parts unfolding sx3_def by blast+
qed

lemma recombine [simp]:
  "byte_of (sx1 a * 4 + sx2 a b div 16) = a"
  "byte_of (sx2 a b mod 16 * 16 + sx3 b c div 4) = b"
  "byte_of (sx3 b c mod 4 * 64 + sx4 c) = c"
  by (simp_all add: sx2_parts sx3_parts sx1_def sx4_def div_mult_mod_eq)

lemma a2b_pad:
  "a2b q l p (61 # cs) =
     (if 2 \<le> q then (if 4 \<le> q + Suc p then Some [] else a2b q l (Suc p) cs) else a2b q l p cs)"
  by simp

lemma a2b_strict_pad:
  "2 \<le> q \<Longrightarrow> a2b_strict q l p st (61 # cs) =
     (if 4 \<le> q + Suc p then (if cs = [] then Some [] else None) else a2b_strict q l (Suc p) True cs)"
  by simp

declare a2b.simps(2) [simp del] a2b_strict.simps(2) [simp del]

lemma a2b_encode: "a2b 0 l p (b64_encode False bs) = Some bs"
  by (induction "False" bs arbitrary: l p rule: b64_encode.induct)
    (simp_all add: a2b_char a2b_pad)

lemma a2b_strict_encode: "a2b_strict 0 l p False (b64_encode False bs) = Some bs"
  by (induction "False" bs arbitrary: l p rule: b64_encode.induct)
    (simp_all add: a2b_strict_char a2b_strict_pad)

lemma url_translate_char: "d < 64 \<Longrightarrow> url_translate (b64char u d # cs) = b64char False d # url_translate cs"
  by (auto simp: url_translate_def b64char_def)

lemma url_translate_encode: "url_translate (b64_encode u bs) = b64_encode False bs"
proof (induction u bs rule: b64_encode.induct)
  case (1 u)
  then show ?case by (simp add: url_translate_def)
qed (simp_all add: url_translate_char, simp_all add: url_translate_def)

lemma b64_decode_encode: "b64_decode (b64_encode False bs) = Some bs"
  by (simp add: b64_decode_def a2b_encode)

lemma b64_decode_strict_encode: "b64_decode_strict (b64_encode False bs) = Some bs"
proof -
  have "\<not> (case b64_encode False bs of c # _ \<Rightarrow> c = 61 | [] \<Rightarrow> False)"
    by (cases "(False, bs)" rule: b64_encode.cases) auto
  then show ?thesis by (simp add: b64_decode_strict_def a2b_strict_encode)
qed

lemma b64url_decode_encode: "b64url_decode (b64_encode u bs) = Some bs"
  by (simp add: b64url_decode_def url_translate_encode b64_decode_encode)

lemma b64_encode_inj: "b64_encode u xs = b64_encode u ys \<Longrightarrow> xs = ys"
  by (metis b64url_decode_encode option.inject)

lemma b64_encode_ascii: "list_all (\<lambda>c. c < 128) (b64_encode u bs)"
  by (induction u bs rule: b64_encode.induct) (simp_all add: b64char_ascii)

lemma b64char_plain [simp]: "d < 64 \<Longrightarrow> b64char u d \<noteq> 58" "d < 64 \<Longrightarrow> b64char u d \<noteq> 124"
  by (auto simp: b64char_def)

lemma set_b64_encode: "c \<in> set (b64_encode u bs) \<Longrightarrow> c \<noteq> 58 \<and> c \<noteq> 124"
  by (induction u bs rule: b64_encode.induct) auto

lemma length_b64_encode: "length (b64_encode u bs) = 4 * ((length bs + 2) div 3)"
proof (induction u bs rule: b64_encode.induct)
  case (4 u a b c r)
  have "(length (a # b # c # r) + 2) div 3 = Suc ((length r + 2) div 3)" by simp
  with 4 show ?case by (simp del: length_Cons add: length_Cons [of _ "_ # _ # _ # b64_encode u r"])
qed simp_all

section \<open>Decoding a text\<close>

text \<open>
  A \<open>str\<close> argument must be ASCII.  \<open>b64_strict_text\<close> is \<open>b64decode(s, validate=True)\<close>, \<open>b64_text\<close> is
  \<open>b64decode(s)\<close>, \<open>b64url_text\<close> is \<open>urlsafe_b64decode(s)\<close>; None is the \<open>ValueError\<close>.
\<close>

definition b64_strict_text :: "pystr \<Rightarrow> bytes option" where
  "b64_strict_text s = (if list_all (\<lambda>c. c < 128) s then b64_decode_strict s else None)"

definition b64_text :: "pystr \<Rightarrow> bytes option" where
  "b64_text s = (if list_all (\<lambda>c. c < 128) s then b64_decode s else None)"

definition b64url_text :: "pystr \<Rightarrow> bytes option" where
  "b64url_text s = (if list_all (\<lambda>c. c < 128) s then b64url_decode s else None)"

lemma b64_text_encode [simp]:
  "b64_strict_text (b64_encode False bs) = Some bs" "b64_text (b64_encode False bs) = Some bs"
  "b64url_text (b64_encode u bs) = Some bs"
  by (simp_all add: b64_strict_text_def b64_text_def b64url_text_def b64_encode_ascii b64_decode_strict_encode
      b64_decode_encode b64url_decode_encode)

end
