(* ===== verification/Encryption.thy ===== *)
theory Encryption
  imports AesGcm Base64
begin

text \<open>
  \<open>omkit/encryption.py\<close>: settings secrets as URL-safe base64 tokens, a version prefix before the
  envelope of \<open>aes_gcm.py\<close>, and the masking of a secret for display.  The bytes drawn from
  \<open>secrets.token_bytes\<close> and the nonce are arguments.
\<close>

section \<open>Tokens\<close>

definition ENC_KEY_SIZE :: nat where "ENC_KEY_SIZE = 32"
definition ENC_VERSION :: bytes where "ENC_VERSION = bstr ''v1''"
definition ENC_AAD :: bytes where "ENC_AAD = bstr ''omkit.encryption.v1''"

definition decode_key :: "pystr \<Rightarrow> crypto_error + bytes" where
  "decode_key key =
     (case b64url_text key of None \<Rightarrow> Inl InvalidKeyError
      | Some raw \<Rightarrow> if length raw \<noteq> ENC_KEY_SIZE then Inl InvalidKeyError else Inr raw)"

definition generate_key :: "bytes \<Rightarrow> pystr" where
  "generate_key token_bytes = b64_encode True token_bytes"

definition encrypt_value :: "aesgcm \<Rightarrow> bytes \<Rightarrow> pystr \<Rightarrow> pystr \<Rightarrow> crypto_error + pystr" where
  "encrypt_value G nonce plaintext key =
     res_bind (decode_key key) (\<lambda>kek.
       (case utf8_encode plaintext of None \<Rightarrow> Inl TextEncodeError
        | Some pt \<Rightarrow> res_bind (wrap_with_key G nonce kek pt ENC_AAD) (\<lambda>blob.
            Inr (b64_encode True (ENC_VERSION @ blob)))))"

definition decrypt_value :: "aesgcm \<Rightarrow> pystr \<Rightarrow> pystr \<Rightarrow> crypto_error + pystr" where
  "decrypt_value G ciphertext key =
     res_bind (decode_key key) (\<lambda>kek.
       (case b64url_text ciphertext of None \<Rightarrow> Inl InvalidEnvelopeError
        | Some raw \<Rightarrow>
            if length raw < length ENC_VERSION + 12 + 16 then Inl InvalidEnvelopeError
            else if take (length ENC_VERSION) raw \<noteq> ENC_VERSION then Inl InvalidEnvelopeError
            else res_bind (unwrap_with_key G kek (drop (length ENC_VERSION) raw) ENC_AAD) (\<lambda>plain.
              (case utf8_decode False plain of None \<Rightarrow> Inl TextDecodeError | Some s \<Rightarrow> Inr s))))"

lemma length_ENC_VERSION [simp]: "length ENC_VERSION = 2"
  by (simp add: ENC_VERSION_def bstr_def)

lemma decode_key_length: "decode_key key = Inr kek \<Longrightarrow> length kek = 32"
  by (auto simp: decode_key_def ENC_KEY_SIZE_def split: option.splits if_splits)

lemma decode_key_Inl: "decode_key key = Inl e \<Longrightarrow> e = InvalidKeyError"
  by (auto simp: decode_key_def split: option.splits if_splits)

lemma decode_generated [simp]: "length rnd = 32 \<Longrightarrow> decode_key (generate_key rnd) = Inr rnd"
  by (simp add: decode_key_def generate_key_def ENC_KEY_SIZE_def)

text \<open>What a token must decode to, and what its envelope must open to.\<close>

lemma decrypt_value_Inr_iff:
  assumes "aead_ok G"
  shows "decrypt_value G t key = Inr s \<longleftrightarrow>
    (\<exists>kek nonce blob pt. decode_key key = Inr kek \<and> length nonce = 12 \<and> b64url_text t = Some (ENC_VERSION @ blob)
       \<and> wrap_with_key G nonce kek pt ENC_AAD = Inr blob \<and> utf8_decode False pt = Some s)"
    (is "?l \<longleftrightarrow> ?r")
proof
  assume ?l
  then obtain kek raw pt where kek: "decode_key key = Inr kek" and raw: "b64url_text t = Some raw"
    and "take 2 raw = ENC_VERSION" and pt: "unwrap_with_key G kek (drop 2 raw) ENC_AAD = Inr pt"
    and s: "utf8_decode False pt = Some s"
    by (auto simp: decrypt_value_def res_bind_Inr_iff split: option.splits if_splits)
  moreover have "raw = ENC_VERSION @ drop 2 raw"
    using \<open>take 2 raw = ENC_VERSION\<close> by (metis append_take_drop_id)
  moreover have "length (take 12 (drop 2 raw)) = 12" "wrap_with_key G (take 12 (drop 2 raw)) kek pt ENC_AAD = Inr (drop 2 raw)"
    using pt unwrap_with_key_Inr_iff [OF assms] by auto
  ultimately show ?r by metis
next
  assume ?r
  then obtain kek nonce blob pt where kek: "decode_key key = Inr kek" and n: "length nonce = 12"
    and t: "b64url_text t = Some (ENC_VERSION @ blob)" and w: "wrap_with_key G nonce kek pt ENC_AAD = Inr blob"
    and s: "utf8_decode False pt = Some s" by blast
  have "28 \<le> length blob" using length_wrap_with_key [OF assms n w] by (simp add: NONCE_SIZE_def TAG_SIZE_def)
  then show ?l
    using kek t s unwrap_wrap_with_key [OF assms n w] by (simp add: decrypt_value_def)
qed

text \<open>The token of a text, and that it opens.\<close>

abbreviation token_of :: "aesgcm \<Rightarrow> bytes \<Rightarrow> bytes \<Rightarrow> bytes \<Rightarrow> pystr" where
  "token_of G kek nonce pt \<equiv> b64_encode True (ENC_VERSION @ nonce @ aead_encrypt G kek nonce pt (aad_arg ENC_AAD))"

lemma encrypt_value_token:
  "decode_key key = Inr kek \<Longrightarrow> utf8_encode plaintext = Some pt \<Longrightarrow>
    encrypt_value G nonce plaintext key = Inr (token_of G kek nonce pt)"
  using wrap_with_key_ok [OF decode_key_length] by (simp add: encrypt_value_def)

lemma decrypt_value_token:
  assumes "aead_ok G" "length nonce = 12" "decode_key key = Inr kek" "utf8_encode plaintext = Some pt"
  shows "decrypt_value G (token_of G kek nonce pt) key = Inr plaintext"
  unfolding decrypt_value_Inr_iff [OF assms(1)]
  using assms(2,3) wrap_with_key_ok [OF decode_key_length [OF assms(3)]] utf8_decode_encode [OF assms(4)] b64_text_encode(3) by blast

section \<open>Masking\<close>

text \<open>None and the empty text are the falsy \<open>value\<close>; \<open>s[-n:]\<close> is the last \<open>n\<close> characters.\<close>

definition last_n :: "nat \<Rightarrow> 'a list \<Rightarrow> 'a list" where
  "last_n n xs = drop (length xs - n) xs"

definition mask_secret :: "pystr option \<Rightarrow> pystr option" where
  "mask_secret value' =
     (case value' of None \<Rightarrow> None
      | Some v \<Rightarrow>
          if v = [] then None
          else let n = length v in
            if 10 \<le> n then Some (take 4 v @ py ''****'' @ last_n 4 v)
            else if 4 \<le> n then Some (take 2 v @ py ''****'' @ last_n 2 v)
            else Some (py ''****''))"

section \<open>Properties\<close>

text \<open>
  A text without surrogates encrypted under a valid key decrypts to itself under that key,
  whatever the nonce: the token is ASCII, the key need not be the canonical base64 of its bytes, and
  the empty text is a value like any other.
\<close>

theorem encrypt_decrypt_roundtrip:
  assumes "aead_ok G" "length nonce = 12" "decode_key key = Inr kek" "list_all valid_cp plaintext"
  shows "\<exists>token. encrypt_value G nonce plaintext key = Inr token \<and> list_all (\<lambda>c. c < 128) token
    \<and> decrypt_value G token key = Inr plaintext"
proof -
  obtain pt where pt: "utf8_encode plaintext = Some pt" using utf8_encode_Some [OF assms(4)] by blast
  show ?thesis
    using encrypt_value_token [OF assms(3) pt] decrypt_value_token [OF assms(1-3) pt] b64_encode_ascii by blast
qed

lemma encrypt_decrypt_roundtrip_witness:
  "\<exists>token. encrypt_value toy_cipher (replicate 12 9) (py ''s3cret'') (generate_key (replicate 32 1)) = Inr token
    \<and> list_all (\<lambda>c. c < 128) token
    \<and> decrypt_value toy_cipher token (generate_key (replicate 32 1)) = Inr (py ''s3cret'')"
  by (rule encrypt_decrypt_roundtrip [OF toy_cipher_ok])
    (simp_all add: py_def valid_cp_def surrogate_def)

text \<open>
  What decrypts was encrypted: every token accepted under a key carries, behind the version
  prefix, an envelope that \<open>encrypt_value\<close> makes from the result under the same key for some nonce;
  the token itself may differ from that one only in characters the base64 decoder skips.
\<close>

theorem decrypt_value_sound:
  assumes "aead_ok G" "decrypt_value G token key = Inr s"
  shows "\<exists>nonce token'. length nonce = 12 \<and> encrypt_value G nonce s key = Inr token'
    \<and> b64url_text token = b64url_text token'"
proof -
  obtain kek nonce blob pt where d: "decode_key key = Inr kek" "length nonce = 12"
    "b64url_text token = Some (ENC_VERSION @ blob)" "wrap_with_key G nonce kek pt ENC_AAD = Inr blob"
    "utf8_decode False pt = Some s"
    using assms(2) unfolding decrypt_value_Inr_iff [OF assms(1)] by blast
  have "utf8_encode s = Some pt" using d(5) by (rule utf8_encode_decode)
  then have "encrypt_value G nonce s key = Inr (b64_encode True (ENC_VERSION @ blob))"
    using d by (simp add: encrypt_value_def)
  then show ?thesis using d by auto
qed

lemma decrypt_value_sound_witness:
  "\<exists>nonce token'. length nonce = 12 \<and> encrypt_value toy_cipher nonce (py ''x'') (generate_key (replicate 32 1)) = Inr token'
    \<and> b64url_text (b64_encode True (ENC_VERSION @ replicate 12 9 @ aead_encrypt toy_cipher (replicate 32 1)
         (replicate 12 9) (bstr ''x'') (aad_arg ENC_AAD))) = b64url_text token'"
proof (rule decrypt_value_sound [OF toy_cipher_ok])
  have "wrap_with_key toy_cipher (replicate 12 9) (replicate 32 1) (bstr ''x'') ENC_AAD =
      Inr (replicate 12 9 @ aead_encrypt toy_cipher (replicate 32 1) (replicate 12 9) (bstr ''x'') (aad_arg ENC_AAD))"
    by (rule wrap_with_key_ok) simp
  moreover have "utf8_decode False (bstr ''x'') = Some (py ''x'')" by (simp add: bstr_def py_def)
  moreover have "length (replicate 12 (9 :: byte)) = 12" by simp
  ultimately show "decrypt_value toy_cipher (b64_encode True (ENC_VERSION @ replicate 12 9 @
      aead_encrypt toy_cipher (replicate 32 1) (replicate 12 9) (bstr ''x'') (aad_arg ENC_AAD)))
      (generate_key (replicate 32 1)) = Inr (py ''x'')"
    unfolding decrypt_value_Inr_iff [OF toy_cipher_ok]
    by (metis b64_text_encode(3) decode_generated length_replicate)
qed

text \<open>
  Masking hides the length and the middle: two secrets of ten characters or more with the same
  first and last four have the same mask, two of four to nine with the same first and last two,
  and all shorter ones share \<open>****\<close>; a mask is at most twelve characters and only None and
  the empty text have none.
\<close>

theorem mask_secret_hides:
  shows "(10 \<le> length v \<and> 10 \<le> length w \<and> take 4 v = take 4 w \<and> last_n 4 v = last_n 4 w
      \<or> 4 \<le> length v \<and> length v < 10 \<and> 4 \<le> length w \<and> length w < 10 \<and> take 2 v = take 2 w \<and> last_n 2 v = last_n 2 w
      \<or> v \<noteq> [] \<and> w \<noteq> [] \<and> length v < 4 \<and> length w < 4 \<longrightarrow> mask_secret (Some v) = mask_secret (Some w))
    \<and> (mask_secret s = Some m \<longrightarrow> length m \<le> 12)
    \<and> (mask_secret s = None \<longleftrightarrow> or_none s = None)"
  by (auto simp: mask_secret_def Let_def last_n_def or_none_def split: option.splits if_splits)

lemma mask_secret_hides_witness:
  "mask_secret (Some (py ''sk-aaaaaaaaXk2f'')) = mask_secret (Some (py ''sk-aBCDEFGHIJKLMNXk2f''))"
  using mask_secret_hides [of "py ''sk-aaaaaaaaXk2f''" "py ''sk-aBCDEFGHIJKLMNXk2f''" None "[]"]
  by (simp add: py_def last_n_def)

end
