(* ===== verification/Kms.thy ===== *)
theory Kms
  imports AesGcm
begin

text \<open>
  \<open>omkit/kms/base.py\<close>: the errors every key management adapter raises and the contract of its DEK
  operations, stated as a locale.  An adapter is a state (its configuration, its caches and the
  outside world it talks to); \<open>opens s u p aad blob dek\<close> says that in state \<open>s\<close> the blob holds \<open>dek\<close>
  for that user, purpose and AAD.
\<close>

text \<open>
  \<open>KMSAuthError\<close> (permanent) and \<open>KMSUnavailableError\<close> (transient) with their status; an exception
  that is no \<open>KMSError\<close>, which a caller catching \<open>KMSError\<close> does not see, is \<open>Escaped\<close>.
\<close>

datatype escaped =
    EscAttributeError
  | EscTypeError
  | EscValueError
  | EscUnicodeEncode
  | EscUnicodeDecode
  | EscCrypto crypto_error
  | EscHttp nat

datatype kms_error =
    KMSAuthError int
  | KMSUnavailableError int
  | Escaped escaped

definition is_kms_error :: "kms_error \<Rightarrow> bool" where
  "is_kms_error e = (case e of Escaped _ \<Rightarrow> False | _ \<Rightarrow> True)"

datatype kms_op =
    WrapDek pystr pystr bytes bytes
  | UnwrapDek pystr pystr bytes bytes

locale kms =
  fixes valid :: "'s \<Rightarrow> bool"
    and wrap_dek :: "'s \<Rightarrow> pystr \<Rightarrow> pystr \<Rightarrow> bytes \<Rightarrow> bytes \<Rightarrow> 's \<times> (kms_error + bytes \<times> pystr)"
    and unwrap_dek :: "'s \<Rightarrow> pystr \<Rightarrow> pystr \<Rightarrow> bytes \<Rightarrow> bytes \<Rightarrow> 's \<times> (kms_error + bytes)"
    and opens :: "'s \<Rightarrow> pystr \<Rightarrow> pystr \<Rightarrow> bytes \<Rightarrow> bytes \<Rightarrow> bytes \<Rightarrow> bool"
  assumes wrap_keeps: "valid s \<Longrightarrow> valid (fst (wrap_dek s u p dek aad))"
    and unwrap_keeps: "valid s \<Longrightarrow> valid (fst (unwrap_dek s u p blob aad))"
    and wrap_opens: "valid s \<Longrightarrow> wrap_dek s u p dek aad = (s', Inr (blob, ver)) \<Longrightarrow> opens s' u p aad blob dek"
    and opens_wrap: "valid s \<Longrightarrow> opens s u p aad blob dek \<Longrightarrow> opens (fst (wrap_dek s u' p' dek' aad')) u p aad blob dek"
    and opens_unwrap: "valid s \<Longrightarrow> opens s u p aad blob dek \<Longrightarrow> opens (fst (unwrap_dek s u' p' blob' aad')) u p aad blob dek"
    and unwrap_right: "valid s \<Longrightarrow> opens s u p aad blob dek \<Longrightarrow> unwrap_dek s u p blob aad = (s', Inr d) \<Longrightarrow> d = dek"
begin

definition step :: "'s \<Rightarrow> kms_op \<Rightarrow> 's" where
  "step s op = (case op of WrapDek u p dek aad \<Rightarrow> fst (wrap_dek s u p dek aad)
     | UnwrapDek u p blob aad \<Rightarrow> fst (unwrap_dek s u p blob aad))"

definition run :: "'s \<Rightarrow> kms_op list \<Rightarrow> 's" where
  "run s ops = foldl step s ops"

lemma step_keeps: "valid s \<Longrightarrow> valid (step s op)"
  by (cases op) (simp_all add: step_def wrap_keeps unwrap_keeps)

lemma step_opens: "valid s \<Longrightarrow> opens s u p aad blob dek \<Longrightarrow> opens (step s op) u p aad blob dek"
  by (cases op) (simp_all add: step_def opens_wrap opens_unwrap)

lemma run_opens: "valid s \<Longrightarrow> opens s u p aad blob dek \<Longrightarrow> valid (run s ops) \<and> opens (run s ops) u p aad blob dek"
  unfolding run_def by (induction ops arbitrary: s) (simp_all add: step_keeps step_opens)

text \<open>A wrapped key never unwraps to another one, whatever was called in between.\<close>

lemma wrap_then_unwrap:
  assumes "valid s" "wrap_dek s u p dek aad = (s1, Inr (blob, ver))"
    "unwrap_dek (run s1 ops) u p blob aad = (s2, Inr d)"
  shows "d = dek"
proof -
  have "valid s1" using wrap_keeps [OF assms(1), of u p dek aad] assms(2) by simp
  moreover have "opens s1 u p aad blob dek" using assms(1,2) by (rule wrap_opens)
  ultimately have "valid (run s1 ops)" "opens (run s1 ops) u p aad blob dek"
    using run_opens by blast+
  then show ?thesis using assms(3) by (rule unwrap_right)
qed

end

text \<open>An adapter with no network behind it also answers every unwrap of what opens.\<close>

locale kms_live = kms +
  assumes unwrap_live: "valid s \<Longrightarrow> opens s u p aad blob dek \<Longrightarrow> \<exists>s'. unwrap_dek s u p blob aad = (s', Inr dek)"
begin

lemma wrap_then_unwrap_live:
  assumes "valid s" "wrap_dek s u p dek aad = (s1, Inr (blob, ver))"
  shows "\<exists>s2. unwrap_dek (run s1 ops) u p blob aad = (s2, Inr dek)"
proof -
  have "valid s1" using wrap_keeps [OF assms(1), of u p dek aad] assms(2) by simp
  moreover have "opens s1 u p aad blob dek" using assms by (rule wrap_opens)
  ultimately show ?thesis using run_opens unwrap_live by blast
qed

end

end
