(* ===== verification/LocalDev.thy ===== *)
theory LocalDev
  imports Kms Base64 Sha256
begin

text \<open>
  \<open>omkit/kms/localdev.py\<close>: wrapping keys derived from one master secret by HMAC-SHA256 over labels,
  DEKs sealed by the AES-GCM envelope under an AAD that carries the purpose and the user.
\<close>

section \<open>Construction\<close>

definition MASTER_SIZE :: nat where "MASTER_SIZE = 32"
definition STATIC_KEY_LABEL_PREFIX :: bytes where "STATIC_KEY_LABEL_PREFIX = bstr ''omur-kms-derive-v1:''"
definition VERSION_TOKEN :: pystr where "VERSION_TOKEN = py ''localdev-v1''"

record localdev =
  master :: bytes

definition localdev_init :: "bytes \<Rightarrow> localdev option" where
  "localdev_init m = (if length m < MASTER_SIZE then None else Some \<lparr>master = take MASTER_SIZE m\<rparr>)"

datatype env_error = EnvNotSet | EnvBadEncoding | EnvBadLength nat

definition decode_master :: "pystr \<Rightarrow> env_error + bytes" where
  "decode_master raw =
     (let decoded = fromhex (strip raw) in
      if decoded = None \<or> length (the decoded) \<noteq> MASTER_SIZE then
        (case b64_strict_text (strip raw) of Some d \<Rightarrow> Inr d
         | None \<Rightarrow> (case b64url_text (strip raw @ [61, 61]) of Some d \<Rightarrow> Inr d | None \<Rightarrow> Inl EnvBadEncoding))
      else Inr (the decoded))"

definition localdev_from_env :: "pystr option \<Rightarrow> env_error + localdev" where
  "localdev_from_env env =
     (case or_none env of None \<Rightarrow> Inl EnvNotSet
      | Some raw \<Rightarrow> res_bind (decode_master raw) (\<lambda>d.
          if length d \<noteq> MASTER_SIZE then Inl (EnvBadLength (length d))
          else (case localdev_init d of Some k \<Rightarrow> Inr k | None \<Rightarrow> Inl (EnvBadLength (length d)))))"

section \<open>Key derivation\<close>

text \<open>None is the \<open>UnicodeEncodeError\<close> of a user, purpose or key id with a surrogate.\<close>

definition static_label :: "pystr \<Rightarrow> bytes option" where
  "static_label key_id = map_option (\<lambda>k. STATIC_KEY_LABEL_PREFIX @ k) (utf8_encode key_id)"

definition static_key :: "localdev \<Rightarrow> pystr \<Rightarrow> bytes option" where
  "static_key s key_id = map_option (hmac_sha256 (master s)) (static_label key_id)"

definition user_label :: "pystr \<Rightarrow> pystr \<Rightarrow> bytes option" where
  "user_label user_id purpose = utf8_encode (py ''user-'' @ user_id @ [45] @ purpose)"

definition user_key :: "localdev \<Rightarrow> pystr \<Rightarrow> pystr \<Rightarrow> bytes option" where
  "user_key s user_id purpose = map_option (hmac_sha256 (master s)) (user_label user_id purpose)"

definition bind_aad :: "pystr \<Rightarrow> pystr \<Rightarrow> bytes \<Rightarrow> bytes option" where
  "bind_aad purpose user_id aad = map_option (\<lambda>b. b @ aad) (utf8_encode (purpose @ [124] @ user_id @ [124]))"

section \<open>The protocol\<close>

definition escape_crypto :: "crypto_error + 'a \<Rightarrow> kms_error + 'a" where
  "escape_crypto r = (case r of Inl e \<Rightarrow> Inl (Escaped (EscCrypto e)) | Inr x \<Rightarrow> Inr x)"

definition ld_wrap :: "aesgcm \<Rightarrow> bytes \<Rightarrow> localdev \<Rightarrow> pystr \<Rightarrow> bytes \<Rightarrow> bytes \<Rightarrow> kms_error + bytes" where
  "ld_wrap G nonce s key_id plaintext aad =
     (case static_key s key_id of None \<Rightarrow> Inl (Escaped EscUnicodeEncode)
      | Some kek \<Rightarrow> escape_crypto (wrap_with_key G nonce kek plaintext aad))"

definition ld_unwrap :: "aesgcm \<Rightarrow> localdev \<Rightarrow> pystr \<Rightarrow> bytes \<Rightarrow> bytes \<Rightarrow> kms_error + bytes" where
  "ld_unwrap G s key_id blob aad =
     (case static_key s key_id of None \<Rightarrow> Inl (Escaped EscUnicodeEncode)
      | Some kek \<Rightarrow> escape_crypto (unwrap_with_key G kek blob aad))"

definition ld_current_version :: "localdev \<Rightarrow> pystr \<Rightarrow> pystr" where
  "ld_current_version s key_id = py ''v1''"

definition ld_wrap_dek ::
    "aesgcm \<Rightarrow> bytes \<Rightarrow> localdev \<Rightarrow> pystr \<Rightarrow> pystr \<Rightarrow> bytes \<Rightarrow> bytes \<Rightarrow> kms_error + (bytes \<times> pystr)" where
  "ld_wrap_dek G nonce s user_id purpose plain_dek aad =
     (case user_key s user_id purpose of None \<Rightarrow> Inl (Escaped EscUnicodeEncode)
      | Some kek \<Rightarrow>
          (case bind_aad purpose user_id aad of None \<Rightarrow> Inl (Escaped EscUnicodeEncode)
           | Some bound \<Rightarrow> res_bind (escape_crypto (wrap_with_key G nonce kek plain_dek bound)) (\<lambda>wrapped.
               Inr (wrapped, VERSION_TOKEN))))"

definition ld_unwrap_dek :: "aesgcm \<Rightarrow> localdev \<Rightarrow> pystr \<Rightarrow> pystr \<Rightarrow> bytes \<Rightarrow> bytes \<Rightarrow> kms_error + bytes" where
  "ld_unwrap_dek G s user_id purpose wrapped aad =
     (case user_key s user_id purpose of None \<Rightarrow> Inl (Escaped EscUnicodeEncode)
      | Some kek \<Rightarrow>
          (case bind_aad purpose user_id aad of None \<Rightarrow> Inl (Escaped EscUnicodeEncode)
           | Some bound \<Rightarrow>
               (case unwrap_with_key G kek wrapped bound of Inl _ \<Rightarrow> Inl (KMSAuthError 400) | Inr dek \<Rightarrow> Inr dek)))"

definition ld_delete_user_keys :: "localdev \<Rightarrow> pystr \<Rightarrow> localdev" where
  "ld_delete_user_keys s user_id = s"

section \<open>Lemmas\<close>

lemma length_user_key: "user_key s u p = Some k \<Longrightarrow> length k = 32"
  by (auto simp: user_key_def)

lemma length_static_key: "static_key s i = Some k \<Longrightarrow> length k = 32"
  by (auto simp: static_key_def)

lemma encodable_append: "utf8_encode (s @ t) \<noteq> None \<longleftrightarrow> utf8_encode s \<noteq> None \<and> utf8_encode t \<noteq> None"
  by (simp add: utf8_encode_None_iff)

lemma valid_literals [simp]: "list_all valid_cp (py ''user-'')" "valid_cp 45" "valid_cp 124"
  by (simp_all add: py_def valid_cp_def surrogate_def)

lemma user_label_None_iff: "user_label u p = None \<longleftrightarrow> \<not> list_all valid_cp (u @ p)"
  by (simp add: user_label_def utf8_encode_None_iff)

lemma bind_aad_None_iff: "bind_aad p u aad = None \<longleftrightarrow> \<not> list_all valid_cp (u @ p)"
  by (simp add: bind_aad_def utf8_encode_None_iff) blast

lemma user_key_None_iff: "user_key s u p = None \<longleftrightarrow> \<not> list_all valid_cp (u @ p)"
  by (simp add: user_key_def user_label_None_iff)

text \<open>When both names can be encoded, the DEK operations are the envelope under the derived key and the bound AAD.\<close>

lemma ld_names:
  assumes "list_all valid_cp (u @ p)"
  obtains kek bound where "user_key s u p = Some kek" "bind_aad p u aad = Some bound" "length kek = 32"
proof -
  obtain kek bound where kb: "user_key s u p = Some kek" "bind_aad p u aad = Some bound"
    using user_key_None_iff [of s u p] bind_aad_None_iff [of p u aad] assms by auto
  show ?thesis by (rule that [OF kb length_user_key [OF kb(1)]])
qed

lemma ld_wrap_dek_Inr_iff:
  "ld_wrap_dek G nonce s u p dek aad = Inr (blob, ver) \<longleftrightarrow>
    (\<exists>kek bound. user_key s u p = Some kek \<and> bind_aad p u aad = Some bound
       \<and> wrap_with_key G nonce kek dek bound = Inr blob \<and> ver = VERSION_TOKEN)"
  by (auto simp: ld_wrap_dek_def escape_crypto_def res_bind_Inr_iff split: option.splits sum.splits)

lemma ld_unwrap_dek_Inr_iff:
  "ld_unwrap_dek G s u p blob aad = Inr dek \<longleftrightarrow>
    (\<exists>kek bound. user_key s u p = Some kek \<and> bind_aad p u aad = Some bound \<and> unwrap_with_key G kek blob bound = Inr dek)"
  by (auto simp: ld_unwrap_dek_def split: option.splits sum.splits)

section \<open>The adapter as a provider of the KMS contract\<close>

text \<open>
  The object with its surroundings: the cipher, and the \<open>os.urandom\<close> source as the sequence of
  nonces it will give and how many were drawn.
\<close>

record ld_world =
  lw_cipher :: aesgcm
  lw_dev :: localdev
  lw_nonces :: "nat \<Rightarrow> bytes"
  lw_drawn :: nat

definition lw_valid :: "ld_world \<Rightarrow> bool" where
  "lw_valid w = (aead_ok (lw_cipher w) \<and> (\<forall>i. length (lw_nonces w i) = 12))"

definition lw_wrap_dek ::
    "ld_world \<Rightarrow> pystr \<Rightarrow> pystr \<Rightarrow> bytes \<Rightarrow> bytes \<Rightarrow> ld_world \<times> (kms_error + bytes \<times> pystr)" where
  "lw_wrap_dek w u p dek aad =
     (w\<lparr>lw_drawn := Suc (lw_drawn w)\<rparr>, ld_wrap_dek (lw_cipher w) (lw_nonces w (lw_drawn w)) (lw_dev w) u p dek aad)"

definition lw_unwrap_dek ::
    "ld_world \<Rightarrow> pystr \<Rightarrow> pystr \<Rightarrow> bytes \<Rightarrow> bytes \<Rightarrow> ld_world \<times> (kms_error + bytes)" where
  "lw_unwrap_dek w u p blob aad = (w, ld_unwrap_dek (lw_cipher w) (lw_dev w) u p blob aad)"

definition lw_opens :: "ld_world \<Rightarrow> pystr \<Rightarrow> pystr \<Rightarrow> bytes \<Rightarrow> bytes \<Rightarrow> bytes \<Rightarrow> bool" where
  "lw_opens w u p aad blob dek = (ld_unwrap_dek (lw_cipher w) (lw_dev w) u p blob aad = Inr dek)"

lemma lw_wrap_opens:
  assumes "lw_valid w" "lw_wrap_dek w u p dek aad = (w', Inr (blob, ver))"
  shows "lw_opens w' u p aad blob dek"
proof -
  let ?n = "lw_nonces w (lw_drawn w)"
  from assms(2) have w': "w' = w\<lparr>lw_drawn := Suc (lw_drawn w)\<rparr>"
    and wr: "ld_wrap_dek (lw_cipher w) ?n (lw_dev w) u p dek aad = Inr (blob, ver)"
    by (simp_all add: lw_wrap_dek_def)
  from wr obtain kek bound where k: "user_key (lw_dev w) u p = Some kek" "bind_aad p u aad = Some bound"
    and b: "wrap_with_key (lw_cipher w) ?n kek dek bound = Inr blob"
    unfolding ld_wrap_dek_Inr_iff by blast
  have "unwrap_with_key (lw_cipher w) kek blob bound = Inr dek"
    using assms(1) by (intro unwrap_wrap_with_key [OF _ _ b]) (simp_all add: lw_valid_def)
  with k show ?thesis by (auto simp: lw_opens_def w' ld_unwrap_dek_Inr_iff)
qed

interpretation ld: kms_live lw_valid lw_wrap_dek lw_unwrap_dek lw_opens
proof (unfold_locales, goal_cases)
  case (3 s u p dek aad s' blob ver)
  then show ?case by (rule lw_wrap_opens)
qed (auto simp: lw_valid_def lw_wrap_dek_def lw_unwrap_dek_def lw_opens_def)

section \<open>What the labels and the AAD determine\<close>

text \<open>The byte of a bar is in an encoded text exactly where the character is.\<close>

lemma bar_byte: "utf8_encode s = Some bs \<Longrightarrow> 124 \<in> set bs \<longleftrightarrow> 124 \<in> set s"
proof (induction s arbitrary: bs)
  case (Cons c s)
  then obtain e es where e: "utf8_enc1 c = Some e" "utf8_encode s = Some es" "bs = e @ es"
    by (auto split: option.splits)
  have "124 \<in> set e \<longleftrightarrow> c = 124"
  proof (cases "c < 128")
    case True
    then have "e = [byte_of c]" using e by (simp add: utf8_enc1_def)
    moreover have "byte_of c = 124 \<longleftrightarrow> c = 124"
      using True unat_byte_of [of c] by (auto simp: byte_of_def)
    ultimately show ?thesis by auto
  next
    case False
    have "124 \<notin> set e"
    proof
      assume "124 \<in> set e"
      then have "\<exists>b \<in> set e. unat b = 124" by (intro bexI [of _ 124]) simp_all
      then show False using e(1) False unfolding utf8_enc1_def
        by (auto split: if_splits)
    qed
    with False show ?thesis by auto
  qed
  with Cons.IH [OF e(2)] e(3) show ?case by auto
qed simp

lemma split_at_bar:
  assumes "x @ c # r = y @ c # t" "c \<notin> set x" "c \<notin> set y"
  shows "x = y \<and> r = t"
proof -
  have "takeWhile (\<lambda>z. z \<noteq> c) (x @ c # r) = x" "takeWhile (\<lambda>z. z \<noteq> c) (y @ c # t) = y"
    using assms(2,3) by (subst takeWhile_append2; auto)+
  with assms(1) show ?thesis by simp
qed

lemma bind_aad_purpose:
  assumes "bind_aad p u a = Some b" "bind_aad p' u' a' = Some b" "124 \<notin> set p" "124 \<notin> set p'"
  shows "p = p'"
proof -
  have split: "\<exists>pb r. utf8_encode q = Some pb \<and> b = pb @ 124 # r" if "bind_aad q v c = Some b" for q v c
    using that by (auto simp: bind_aad_def utf8_encode_append utf8_enc1_def byte_of_def split: option.splits)
  obtain pb r where p: "utf8_encode p = Some pb" "b = pb @ 124 # r" using split [OF assms(1)] by blast
  obtain pb' r' where p': "utf8_encode p' = Some pb'" "b = pb' @ 124 # r'" using split [OF assms(2)] by blast
  have "pb = pb'"
    using split_at_bar [of pb 124 r pb' r'] p p' bar_byte [OF p(1)] bar_byte [OF p'(1)] assms(3,4) by simp
  with p p' show ?thesis using utf8_encode_inj by blast
qed

lemma user_label_user:
  assumes "user_label u p = Some l" "user_label u' p = Some l"
  shows "u = u'"
  using utf8_encode_inj assms unfolding user_label_def by fastforce

lemma bind_aad_aad: "bind_aad p u a = Some b \<Longrightarrow> bind_aad p u a' = Some b \<Longrightarrow> a = a'"
  by (auto simp: bind_aad_def)

lemma label_domains: "static_label i = Some l \<Longrightarrow> user_label u p \<noteq> Some l"
  by (auto simp: static_label_def user_label_def STATIC_KEY_LABEL_PREFIX_def bstr_def py_def utf8_enc1_def byte_of_def
      split: option.splits)

section \<open>Encodings of the master\<close>

lemma b64char_not_space: "d < 64 \<Longrightarrow> \<not> unicode_space (b64char u d)"
  by (auto simp: b64char_def unicode_space_def unicode_spaces_def)

lemma not_pad_space [simp]: "\<not> unicode_space 61"
  by (simp add: unicode_space_def unicode_spaces_def)

lemma b64_not_space: "c \<in> set (b64_encode u bs) \<Longrightarrow> \<not> unicode_space c"
  by (induction u bs rule: b64_encode.induct) (auto simp: b64char_not_space)

lemma a2b_strict_chars:
  "a2b_strict q l p st cs = Some bs \<Longrightarrow> c \<in> set cs \<Longrightarrow> c = 61 \<or> b64val c \<noteq> None"
proof (induction cs arbitrary: q l p st bs)
  case (Cons d ds)
  then show ?case
    by (auto simp: a2b_strict.simps(2) split: if_splits option.splits)
qed simp

lemma a2b_pads: "a2b 0 l p (b64_encode False bs @ [61, 61]) = Some bs"
  by (induction "False" bs arbitrary: l p rule: b64_encode.induct)
    (simp_all add: a2b_char a2b_pad)

text \<open>The URL-safe form is read as the standard one when it uses neither of the two characters that differ.\<close>

lemma b64_url_chars: "45 \<notin> set (b64_encode True bs) \<Longrightarrow> 95 \<notin> set (b64_encode True bs) \<Longrightarrow> b64_encode True bs = b64_encode False bs"
proof -
  assume "45 \<notin> set (b64_encode True bs)" "95 \<notin> set (b64_encode True bs)"
  then have "url_translate (b64_encode True bs) = b64_encode True bs"
    unfolding url_translate_def by (intro map_idI) auto
  then show ?thesis by (simp add: url_translate_encode)
qed

lemma b64_strict_url: "b64_strict_text (b64_encode True bs) = None \<or> b64_strict_text (b64_encode True bs) = Some bs"
proof (cases "45 \<in> set (b64_encode True bs) \<or> 95 \<in> set (b64_encode True bs)")
  case True
  have "b64val 45 = None" "b64val 95 = None" by (simp_all add: b64val_def)
  then have "b64_strict_text (b64_encode True bs) = None"
    using True a2b_strict_chars [of 0 0 0 False "b64_encode True bs"]
    by (fastforce simp: b64_strict_text_def b64_decode_strict_def)
  then show ?thesis by blast
next
  case False
  then have "b64_encode True bs = b64_encode False bs" by (intro b64_url_chars) auto
  then show ?thesis by simp
qed

lemma b64url_pads: "b64url_text (b64_encode True bs @ [61, 61]) = Some bs"
proof -
  have "url_translate (b64_encode True bs @ [61, 61]) = b64_encode False bs @ [61, 61]"
    using url_translate_encode [of True bs] by (simp add: url_translate_def)
  then show ?thesis
    by (simp add: b64url_text_def b64_encode_ascii b64url_decode_def b64_decode_def a2b_pads)
qed

lemma b64_last_pad: "length bs mod 3 \<noteq> 0 \<Longrightarrow> 61 \<in> set (b64_encode u bs)"
proof (induction u bs rule: b64_encode.induct)
  case (4 u a b c r)
  have "length (a # b # c # r) mod 3 = length r mod 3" by (simp add: mod_Suc) linarith
  with 4 show ?case by simp
qed auto

lemma fromhex_b64:
  assumes "length bs = 32"
  shows "fromhex (b64_encode u bs) = None"
proof (rule ccontr)
  assume "\<not> ?thesis"
  then obtain xs where "fromhex (b64_encode u bs) = Some xs" by blast
  moreover have "61 \<in> set (b64_encode u bs)" using b64_last_pad [of bs u] assms by simp
  ultimately have "c_space 61 \<or> hexval 61 \<noteq> None" by (rule fromhex_chars)
  then show False by (simp add: c_space_def hexval_def)
qed

section \<open>Properties\<close>


definition example_world :: ld_world where
  "example_world = \<lparr>lw_cipher = toy_cipher, lw_dev = \<lparr>master = replicate 32 7\<rparr>,
     lw_nonces = (\<lambda>i. replicate 12 (of_nat i)), lw_drawn = 0\<rparr>"


text \<open>
  Unwrapping a DEK raises nothing but \<open>KMSAuthError(400)\<close>, whatever the blob, when the user and
  the purpose can be encoded; when they cannot, the \<open>UnicodeEncodeError\<close> escapes the KMS errors. The
  static-key \<open>unwrap\<close> has no such translation: the envelope's own errors escape it.
\<close>

theorem localdev_unwrap_errors:
  assumes "aead_ok G"
  shows "(ld_unwrap_dek G s u p blob aad = Inl e \<longrightarrow>
      e = (if list_all valid_cp (u @ p) then KMSAuthError 400 else Escaped EscUnicodeEncode))
    \<and> (ld_unwrap G s i blob aad = Inl e \<longrightarrow>
      e = (if list_all valid_cp i then Escaped (EscCrypto InvalidEnvelopeError) else Escaped EscUnicodeEncode))"
proof (intro conjI impI)
  assume "ld_unwrap_dek G s u p blob aad = Inl e"
  then show "e = (if list_all valid_cp (u @ p) then KMSAuthError 400 else Escaped EscUnicodeEncode)"
    using user_key_None_iff [of s u p] bind_aad_None_iff [of p u aad]
    by (auto simp: ld_unwrap_dek_def split: option.splits sum.splits)
next
  assume l: "ld_unwrap G s i blob aad = Inl e"
  have "static_key s i = None \<longleftrightarrow> \<not> list_all valid_cp i"
    by (simp add: static_key_def static_label_def utf8_encode_None_iff)
  moreover have "e = Escaped (EscCrypto InvalidEnvelopeError)" if "static_key s i = Some kek" for kek
    using l that unwrap_with_key_cases [OF assms length_static_key [OF that], of blob aad]
    by (auto simp: ld_unwrap_def escape_crypto_def)
  ultimately show "e = (if list_all valid_cp i then Escaped (EscCrypto InvalidEnvelopeError) else Escaped EscUnicodeEncode)"
    using l by (cases "static_key s i") (auto simp: ld_unwrap_def)
qed

lemma localdev_unwrap_errors_witness:
  "ld_unwrap_dek toy_cipher \<lparr>master = replicate 32 7\<rparr> (py ''u'') (py ''p'') [] [] = Inl (KMSAuthError 400)"
proof -
  have v: "list_all valid_cp (py ''u'' @ py ''p'')" by (simp add: py_def valid_cp_def surrogate_def)
  obtain r where r: "ld_unwrap_dek toy_cipher \<lparr>master = replicate 32 7\<rparr> (py ''u'') (py ''p'') [] [] = Inl r"
    using unwrap_with_key_Inr_iff [OF toy_cipher_ok] by (cases "ld_unwrap_dek toy_cipher \<lparr>master = replicate 32 7\<rparr> (py ''u'') (py ''p'') [] []")
      (auto simp: ld_unwrap_dek_Inr_iff)
  with localdev_unwrap_errors [OF toy_cipher_ok, of "\<lparr>master = replicate 32 7\<rparr>" "py ''u''" "py ''p''" "[]" "[]" r "[]"] v
  show ?thesis by simp
qed

text \<open>
  C9. For purposes without a bar, as the four of \<open>aad.py\<close> are, the derived key's label and the bound
  AAD together determine the purpose, the user and the caller's AAD: two different triples never
  share both, so a blob of one is never opened by the same cipher call as the other. The labels of
  static keys and of DEK keys never coincide.
\<close>

theorem localdev_binding_injective:
  assumes "124 \<notin> set p" "124 \<notin> set p'"
    and "user_label u p = Some l" "user_label u' p' = Some l"
    and "bind_aad p u aad = Some b" "bind_aad p' u' aad' = Some b"
  shows "p = p' \<and> u = u' \<and> aad = aad' \<and> static_label i \<noteq> Some l"
proof -
  have "p = p'" using bind_aad_purpose [OF assms(5,6,1,2)] .
  moreover have "u = u'" using user_label_user assms(3,4) \<open>p = p'\<close> by blast
  ultimately show ?thesis using bind_aad_aad assms(5,6) label_domains [of i l u p] assms(3) by blast
qed

lemma localdev_binding_injective_witness:
  "AADMeta = AADMeta \<and> py ''u'' = py ''u'' \<and> bstr ''a'' = bstr ''a'' \<and> static_label (py ''k'') \<noteq> user_label (py ''u'') AADMeta"
proof -
  have p: "124 \<notin> set AADMeta" by (simp add: AADMeta_def py_def)
  have v: "list_all valid_cp (py ''u'' @ AADMeta)" by (simp add: AADMeta_def py_def valid_cp_def surrogate_def)
  obtain l b where l: "user_label (py ''u'') AADMeta = Some l" "bind_aad AADMeta (py ''u'') (bstr ''a'') = Some b"
    using v user_label_None_iff bind_aad_None_iff by (metis option.exhaust)
  from localdev_binding_injective [OF p p l(1) l(1) l(2) l(2), of "py ''k''"] l(1) show ?thesis by simp
qed

text \<open>
  With a bar in a name the separation is lost: the DEK of user \<open>z\<close> for purpose \<open>m|z-m\<close> and the DEK
  of user \<open>z-m|z\<close> for purpose \<open>m\<close> have the same key and the same AAD, so each unwraps the other's
  blobs, though the contract in \<open>base.py\<close> has any mismatch raise.
\<close>

theorem localdev_cross_user_collision:
  "user_key s (py ''z'') (py ''m|z-m'') = user_key s (py ''z-m|z'') (py ''m'')
   \<and> bind_aad (py ''m|z-m'') (py ''z'') aad = bind_aad (py ''m'') (py ''z-m|z'') aad
   \<and> ld_unwrap_dek G s (py ''z'') (py ''m|z-m'') blob aad = ld_unwrap_dek G s (py ''z-m|z'') (py ''m'') blob aad"
proof -
  have "user_label (py ''z'') (py ''m|z-m'') = user_label (py ''z-m|z'') (py ''m'')"
    by (simp add: user_label_def py_def)
  then have k: "user_key s (py ''z'') (py ''m|z-m'') = user_key s (py ''z-m|z'') (py ''m'')"
    by (simp add: user_key_def)
  have b: "bind_aad (py ''m|z-m'') (py ''z'') aad = bind_aad (py ''m'') (py ''z-m|z'') aad"
    by (simp add: bind_aad_def py_def)
  show ?thesis by (simp only: ld_unwrap_dek_def k b)
qed

text \<open>
  \<open>from_env\<close> reads a 32-byte master written as hexadecimal, as standard base64 or as URL-safe
  base64, and gives the adapter with exactly that master.
\<close>

theorem localdev_from_env_encodings:
  assumes "length m = MASTER_SIZE" "raw \<in> {bytes_hex m, b64_encode False m, b64_encode True m}"
  shows "localdev_from_env (Some raw) = Inr \<lparr>master = m\<rparr>"
proof -
  have l: "length m = 32" using assms(1) by (simp add: MASTER_SIZE_def)
  then obtain b bs where m: "m = b # bs" by (cases m) auto
  have "length (b64_encode u m) = 44" for u using l by (simp add: length_b64_encode)
  then have "b64_encode u m \<noteq> []" for u by (metis list.size(3) zero_neq_numeral)
  then have ne: "raw \<noteq> []" using assms(2) by (auto simp: m eq_commute [of "[]"])
  have st: "strip raw = raw"
    using assms(2) by (intro strip_no_space) (auto dest: bytes_hex_not_space b64_not_space)
  have "decode_master raw = Inr m"
  proof (cases "raw = bytes_hex m")
    case True
    then show ?thesis using st l by (simp add: decode_master_def fromhex_hex MASTER_SIZE_def)
  next
    case False
    then consider "raw = b64_encode False m" | "raw = b64_encode True m" using assms(2) by blast
    then show ?thesis
    proof cases
      case 1
      then show ?thesis using st fromhex_b64 [OF l] by (simp add: decode_master_def)
    next
      case 2
      then show ?thesis using st fromhex_b64 [OF l, of True] b64_strict_url [of m] b64url_pads [of m]
        by (auto simp: decode_master_def)
    qed
  qed
  then show ?thesis using ne l
    by (simp add: localdev_from_env_def or_none_def localdev_init_def MASTER_SIZE_def)
qed

lemma localdev_from_env_encodings_witness:
  "localdev_from_env (Some (bytes_hex (replicate 32 171))) = Inr \<lparr>master = replicate 32 171\<rparr>"
  by (rule localdev_from_env_encodings) (simp_all add: MASTER_SIZE_def)

end
