(* ===== verification/Json.thy ===== *)
theory Json
  imports Base64 "HOL-Library.List_Lexorder"
begin

text \<open>
  Python's \<open>json\<close> module: values, \<open>json.dumps\<close> (with the separators and key order the sources ask
  for) and \<open>json.loads\<close> on text and on bytes.  The scanner follows the C scanner of CPython, with
  its extensions (\<open>NaN\<close>, \<open>Infinity\<close>), its strict control-character rule, its joining of surrogate
  escapes and its last-wins rule for repeated keys.  The main lemma is that loading what was
  dumped gives the value back.

  A float is represented by its literal (what \<open>float.__repr__\<close> writes, or what was read), so
  two literals of one double are two values here.  Not modelled: the interpreter's recursion limit
  and its limit of 4300 digits on converting integers.
\<close>

section \<open>Values\<close>

datatype json =
    JNull
  | JBool bool
  | JInt int
  | JFloat pystr
  | JStr pystr
  | JArr "json list"
  | JObj "(pystr \<times> json) list"

text \<open>Python's truth value of a loaded value (a float literal is falsy when all its digits are 0).\<close>

definition json_truthy :: "json \<Rightarrow> bool" where
  "json_truthy v = (case v of JNull \<Rightarrow> False | JBool b \<Rightarrow> b | JInt i \<Rightarrow> i \<noteq> 0
     | JFloat t \<Rightarrow> (\<exists>c \<in> set (takeWhile (\<lambda>c. c \<noteq> 101 \<and> c \<noteq> 69) t). c \<notin> {43, 45, 46, 48})
     | JStr s \<Rightarrow> s \<noteq> [] | JArr xs \<Rightarrow> xs \<noteq> [] | JObj kvs \<Rightarrow> kvs \<noteq> [])"

section \<open>Writing\<close>

definition join_surrogates :: "nat \<Rightarrow> nat \<Rightarrow> nat" where
  "join_surrogates h l = 65536 + (h - 55296) * 1024 + (l - 56320)"

text \<open>\<open>ensure_ascii=True\<close>, the default: anything but printable ASCII is escaped.\<close>

definition esc_char :: "nat \<Rightarrow> pystr" where
  "esc_char c =
     (if c = 34 then [92, 34] else if c = 92 then [92, 92]
      else if c = 10 then [92, 110] else if c = 13 then [92, 114] else if c = 9 then [92, 116]
      else if c = 12 then [92, 102] else if c = 8 then [92, 98]
      else if 32 \<le> c \<and> c \<le> 126 then [c]
      else if c < 65536 then 92 # 117 # hex_width 4 c
      else 92 # 117 # hex_width 4 (55296 + (c - 65536) div 1024 mod 1024)
           @ 92 # 117 # hex_width 4 (56320 + (c - 65536) mod 1024))"

definition esc_str :: "pystr \<Rightarrow> pystr" where
  "esc_str s = 34 # concat (map esc_char s) @ [34]"

text \<open>\<open>json.dumps(v, separators=(i, k))\<close>.\<close>

fun dumps :: "pystr \<Rightarrow> pystr \<Rightarrow> json \<Rightarrow> pystr"
and dumps_elems :: "pystr \<Rightarrow> pystr \<Rightarrow> json list \<Rightarrow> pystr"
and dumps_membs :: "pystr \<Rightarrow> pystr \<Rightarrow> (pystr \<times> json) list \<Rightarrow> pystr" where
  "dumps i k JNull = py ''null''"
| "dumps i k (JBool b) = (if b then py ''true'' else py ''false'')"
| "dumps i k (JInt n) = str_int n"
| "dumps i k (JFloat t) = t"
| "dumps i k (JStr s) = esc_str s"
| "dumps i k (JArr []) = [91, 93]"
| "dumps i k (JArr (x # xs)) = 91 # dumps i k x @ dumps_elems i k xs"
| "dumps i k (JObj []) = [123, 125]"
| "dumps i k (JObj ((n, v) # kvs)) = 123 # esc_str n @ k @ dumps i k v @ dumps_membs i k kvs"
| "dumps_elems i k [] = [93]"
| "dumps_elems i k (x # xs) = i @ dumps i k x @ dumps_elems i k xs"
| "dumps_membs i k [] = [125]"
| "dumps_membs i k ((n, v) # kvs) = i @ esc_str n @ k @ dumps i k v @ dumps_membs i k kvs"

text \<open>The separators \<open>(",", ":")\<close> of the wire formats and the default \<open>(", ", ": ")\<close>.\<close>

definition dumps_compact :: "json \<Rightarrow> pystr" where
  "dumps_compact v = dumps [44] [58] v"

definition dumps_default :: "json \<Rightarrow> pystr" where
  "dumps_default v = dumps [44, 32] [58, 32] v"

text \<open>\<open>sort_keys=True\<close>: the members of every object in the order of their keys.\<close>

fun jsort :: "json \<Rightarrow> json" where
  "jsort (JArr xs) = JArr (map jsort xs)"
| "jsort (JObj kvs) = JObj (sort_key fst (map (\<lambda>(n, v). (n, jsort v)) kvs))"
| "jsort v = v"

section \<open>Reading\<close>

definition json_ws :: "nat \<Rightarrow> bool" where
  "json_ws c = (c = 32 \<or> c = 9 \<or> c = 10 \<or> c = 13)"

definition skip_ws :: "pystr \<Rightarrow> pystr" where
  "skip_ws s = dropWhile json_ws s"

lemma length_skip_ws: "length (skip_ws s) \<le> length s"
  by (simp add: skip_ws_def length_dropWhile_le)

subsection \<open>Strings\<close>

definition hex4 :: "nat \<Rightarrow> nat \<Rightarrow> nat \<Rightarrow> nat \<Rightarrow> nat option" where
  "hex4 a b c d =
     (case (hexval a, hexval b, hexval c, hexval d) of
        (Some w, Some x, Some y, Some z) \<Rightarrow> Some (4096 * w + 256 * x + 16 * y + z)
      | _ \<Rightarrow> None)"

definition high_surrogate :: "nat \<Rightarrow> bool" where
  "high_surrogate c = (55296 \<le> c \<and> c < 56320)"

definition low_surrogate :: "nat \<Rightarrow> bool" where
  "low_surrogate c = (56320 \<le> c \<and> c < 57344)"

text \<open>The low half that an escape just read is to be joined with, if the next escape is one.\<close>

definition low_half :: "nat \<Rightarrow> pystr \<Rightarrow> nat option" where
  "low_half u r =
     (if high_surrogate u then
        (case r of e # f # a # b # c # d # _ \<Rightarrow>
           if e = 92 \<and> f = 117 then
             (case hex4 a b c d of Some l \<Rightarrow> if low_surrogate l then Some l else None | None \<Rightarrow> None)
           else None
         | _ \<Rightarrow> None)
      else None)"

definition simple_escape :: "nat \<Rightarrow> nat option" where
  "simple_escape e = map_of [(34, 34), (92, 92), (47, 47), (98, 8), (102, 12), (110, 10), (114, 13), (116, 9)] e"

text \<open>One character of a string: as it stands, or an escape.  Control characters are refused.\<close>

definition scan_unicode :: "pystr \<Rightarrow> (nat \<times> pystr) option" where
  "scan_unicode r =
     (case r of a # b # x # y # r1 \<Rightarrow>
        (case hex4 a b x y of None \<Rightarrow> None
         | Some u \<Rightarrow> (case low_half u r1 of None \<Rightarrow> Some (u, r1)
             | Some l \<Rightarrow> Some (join_surrogates u l, drop 6 r1)))
      | _ \<Rightarrow> None)"

definition scan_unit :: "pystr \<Rightarrow> (nat \<times> pystr) option" where
  "scan_unit s =
     (case s of [] \<Rightarrow> None
      | c # cs \<Rightarrow>
          if c = 92 then
            (case cs of [] \<Rightarrow> None
             | e # r \<Rightarrow> if e = 117 then scan_unicode r
                 else (case simple_escape e of None \<Rightarrow> None | Some x \<Rightarrow> Some (x, r)))
          else if c < 32 then None else Some (c, cs))"

lemma scan_unicode_length: "scan_unicode s = Some (x, r) \<Longrightarrow> length r < length s"
  by (auto simp: scan_unicode_def split: list.splits option.splits)

lemma scan_unit_length: "scan_unit s = Some (x, r) \<Longrightarrow> length r < length s"
  by (auto simp: scan_unit_def split: list.splits option.splits if_splits dest: scan_unicode_length)

text \<open>From after the opening quote: the text and what follows the closing quote.\<close>

function scan_str :: "pystr \<Rightarrow> (pystr \<times> pystr) option" where
  "scan_str s =
     (case s of [] \<Rightarrow> None
      | c # cs \<Rightarrow>
          if c = 34 then Some ([], cs)
          else case scan_unit s of None \<Rightarrow> None
            | Some (x, r) \<Rightarrow> (case scan_str r of None \<Rightarrow> None | Some (t, u) \<Rightarrow> Some (x # t, u)))"
  by pat_completeness auto
termination
  by (relation "measure length") (auto dest: scan_unit_length)

declare scan_str.simps [simp del]

lemma scan_str_quote [simp]: "scan_str (34 # cs) = Some ([], cs)"
  by (subst scan_str.simps) simp

lemma scan_str_unit:
  "c \<noteq> 34 \<Longrightarrow> scan_unit (c # cs) = Some (x, r) \<Longrightarrow>
     scan_str (c # cs) = (case scan_str r of None \<Rightarrow> None | Some (t, u) \<Rightarrow> Some (x # t, u))"
  by (subst scan_str.simps) simp

lemma scan_str_length: "scan_str s = Some (t, r) \<Longrightarrow> length r < length s"
proof (induction s arbitrary: t r rule: scan_str.induct)
  case (1 s)
  obtain c cs where s: "s = c # cs"
    using "1.prems" by (cases s) (simp_all add: scan_str.simps [of "[]"])
  show ?case
  proof (cases "c = 34")
    case True
    with "1.prems" s show ?thesis by simp
  next
    case False
    with "1.prems" s obtain x r' t' where u: "scan_unit s = Some (x, r')" and r: "scan_str r' = Some (t', r)"
      by (subst (asm) scan_str.simps) (auto split: option.splits)
    have "length r < length r'" using "1.IH" s False u r by blast
    with scan_unit_length [OF u] show ?thesis by simp
  qed
qed

subsection \<open>Numbers\<close>

definition scan_int :: "pystr \<Rightarrow> (pystr \<times> pystr) option" where
  "scan_int s = (case s of [] \<Rightarrow> None
     | c # r \<Rightarrow> if c = 48 then Some ([48], r)
         else if is_digit c then Some (takeWhile is_digit s, dropWhile is_digit s) else None)"

definition scan_frac :: "pystr \<Rightarrow> pystr \<times> pystr" where
  "scan_frac s = (case s of [] \<Rightarrow> ([], s)
     | c # r \<Rightarrow> if c = 46 \<and> takeWhile is_digit r \<noteq> [] then (46 # takeWhile is_digit r, dropWhile is_digit r)
         else ([], s))"

definition scan_sign :: "pystr \<Rightarrow> pystr \<times> pystr" where
  "scan_sign s = (case s of [] \<Rightarrow> ([], s) | c # r \<Rightarrow> if c = 43 \<or> c = 45 then ([c], r) else ([], s))"

definition scan_exp :: "pystr \<Rightarrow> pystr \<times> pystr" where
  "scan_exp s = (case s of [] \<Rightarrow> ([], s)
     | c # r \<Rightarrow> if (c = 101 \<or> c = 69) \<and> takeWhile is_digit (snd (scan_sign r)) \<noteq> []
         then (c # fst (scan_sign r) @ takeWhile is_digit (snd (scan_sign r)), dropWhile is_digit (snd (scan_sign r)))
         else ([], s))"

definition scan_unsigned :: "pystr \<Rightarrow> (pystr \<times> pystr \<times> pystr) option" where
  "scan_unsigned s =
     (case scan_int s of None \<Rightarrow> None
      | Some (ds, r) \<Rightarrow>
          let (fs, r1) = scan_frac r; (es, r2) = scan_exp r1 in Some (ds, fs @ es, r2))"

definition scan_number :: "pystr \<Rightarrow> (json \<times> pystr) option" where
  "scan_number s =
     (case s of [] \<Rightarrow> None
      | c # r \<Rightarrow>
          let neg = (c = 45); sg = (if neg then [45] else []) in
          (case scan_unsigned (if neg then r else s) of None \<Rightarrow> None
           | Some (ds, fs, r2) \<Rightarrow>
               Some (if fs = [] then JInt (if neg then - int (digits_val 0 ds) else int (digits_val 0 ds))
                     else JFloat (sg @ ds @ fs), r2)))"

lemma scan_int_length: "scan_int s = Some (d, r) \<Longrightarrow> length r < length s"
  by (auto simp: scan_int_def length_dropWhile_le le_imp_less_Suc split: list.splits if_splits)

lemma scan_frac_length: "length (snd (scan_frac s)) \<le> length s"
  by (auto simp: scan_frac_def length_dropWhile_le le_SucI split: list.splits)

lemma scan_sign_length: "length (snd (scan_sign s)) \<le> length s"
  by (auto simp: scan_sign_def split: list.splits)

lemma scan_exp_length: "length (snd (scan_exp s)) \<le> length s"
proof (cases s)
  case (Cons c r)
  have "length (dropWhile is_digit (snd (scan_sign r))) \<le> length r"
    using length_dropWhile_le [of is_digit "snd (scan_sign r)"] scan_sign_length [of r] by linarith
  then show ?thesis by (simp add: scan_exp_def Cons)
qed (simp add: scan_exp_def)

lemma scan_unsigned_length: "scan_unsigned s = Some (d, f, r) \<Longrightarrow> length r < length s"
proof -
  assume "scan_unsigned s = Some (d, f, r)"
  then obtain r0 where "scan_int s = Some (d, r0)" and "r = snd (scan_exp (snd (scan_frac r0)))"
    by (auto simp: scan_unsigned_def Let_def split: option.splits prod.splits)
  then show ?thesis
    using scan_int_length [of s d r0] scan_frac_length [of r0] scan_exp_length [of "snd (scan_frac r0)"]
    by simp
qed

lemma scan_number_length: "scan_number s = Some (v, r) \<Longrightarrow> length r < length s"
  by (auto simp: scan_number_def Let_def split: list.splits option.splits if_splits dest: scan_unsigned_length)

subsection \<open>Values\<close>

text \<open>The constants and numbers: everything that starts with neither a quote nor a bracket.\<close>

definition scan_atom :: "pystr \<Rightarrow> (json \<times> pystr) option" where
  "scan_atom s =
     (if startswith (py ''null'') s then Some (JNull, drop 4 s)
      else if startswith (py ''true'') s then Some (JBool True, drop 4 s)
      else if startswith (py ''false'') s then Some (JBool False, drop 5 s)
      else if startswith (py ''NaN'') s then Some (JFloat (py ''NaN''), drop 3 s)
      else if startswith (py ''Infinity'') s then Some (JFloat (py ''Infinity''), drop 8 s)
      else if startswith (py ''-Infinity'') s then Some (JFloat (py ''-Infinity''), drop 9 s)
      else scan_number s)"

lemma startswith_length: "startswith p s \<Longrightarrow> length p \<le> length s"
  unfolding startswith_def by (metis length_take min.cobounded1 min_def)

lemma scan_atom_length: "scan_atom s = Some (v, r) \<Longrightarrow> length r < length s"
  by (auto simp: scan_atom_def split: if_splits dest!: startswith_length dest: scan_number_length)

text \<open>
  The guards on lengths make the recursion terminate by construction; \<open>scan_value_length\<close> below
  shows that they hold whenever they are reached.
\<close>

function (sequential) scan_value :: "pystr \<Rightarrow> (json \<times> pystr) option"
and scan_elems :: "pystr \<Rightarrow> (json list \<times> pystr) option"
and scan_membs :: "pystr \<Rightarrow> ((pystr \<times> json) list \<times> pystr) option" where
  "scan_value [] = None"
| "scan_value (c # cs) =
     (if c = 34 then (case scan_str cs of None \<Rightarrow> None | Some (t, r) \<Rightarrow> Some (JStr t, r))
      else if c = 91 then
        (if startswith [93] (skip_ws cs) then Some (JArr [], drop 1 (skip_ws cs))
         else case scan_elems (skip_ws cs) of None \<Rightarrow> None | Some (xs, r) \<Rightarrow> Some (JArr xs, r))
      else if c = 123 then
        (if startswith [125] (skip_ws cs) then Some (JObj [], drop 1 (skip_ws cs))
         else case scan_membs (skip_ws cs) of None \<Rightarrow> None | Some (kvs, r) \<Rightarrow> Some (JObj (dict_of kvs), r))
      else scan_atom (c # cs))"
| "scan_elems s =
     (case scan_value s of None \<Rightarrow> None
      | Some (v, r) \<Rightarrow>
         (case skip_ws r of [] \<Rightarrow> None
          | c # r1 \<Rightarrow>
             if c = 93 then Some ([v], r1)
             else if c = 44 \<and> length (skip_ws r1) < length s then
               (case scan_elems (skip_ws r1) of None \<Rightarrow> None | Some (vs, r2) \<Rightarrow> Some (v # vs, r2))
             else None))"
| "scan_membs s =
     (case s of [] \<Rightarrow> None
      | q # s0 \<Rightarrow>
         if q \<noteq> 34 then None
         else case scan_str s0 of None \<Rightarrow> None
         | Some (n, r) \<Rightarrow>
            (case skip_ws r of [] \<Rightarrow> None
             | c # r1 \<Rightarrow>
                if c \<noteq> 58 then None
                else case scan_value (skip_ws r1) of None \<Rightarrow> None
                | Some (v, r2) \<Rightarrow>
                   (case skip_ws r2 of [] \<Rightarrow> None
                    | d # r3 \<Rightarrow>
                       if d = 125 then Some ([(n, v)], r3)
                       else if d = 44 \<and> length (skip_ws r3) < length s then
                         (case scan_membs (skip_ws r3) of None \<Rightarrow> None
                          | Some (kvs, r4) \<Rightarrow> Some ((n, v) # kvs, r4))
                       else None)))"
  by pat_completeness auto
termination
proof (relation "measure (case_sum (\<lambda>s. 2 * length s) (case_sum (\<lambda>s. 2 * length s + 1) (\<lambda>s. 2 * length s + 1)))",
    goal_cases)
  case 1
  show ?case by simp
next
  case (2 c cs)
  then show ?case using length_skip_ws [of cs] by simp
next
  case (3 c cs)
  then show ?case using length_skip_ws [of cs] by simp
next
  case (4 s)
  then show ?case by simp
next
  case 5
  then show ?case by simp
next
  case (6 s q s0 p n r c r1)
  then have "length r < length s0" by (auto dest: scan_str_length)
  moreover have "Suc (length r1) \<le> length r" using 6 length_skip_ws [of r] by simp
  ultimately show ?case using 6 length_skip_ws [of r1] by simp
next
  case 7
  then show ?case by simp
qed

declare scan_elems.simps [simp del] scan_membs.simps [simp del]

definition shorter :: "pystr \<Rightarrow> ('a \<times> pystr) option \<Rightarrow> bool" where
  "shorter s x = (case x of None \<Rightarrow> True | Some (_, r) \<Rightarrow> length r < length s)"

lemma shorterD: "shorter s (Some (v, r)) \<Longrightarrow> length r < length s"
  by (simp add: shorter_def)

lemma scan_shorter: "shorter s (scan_value s)" "shorter s' (scan_elems s')" "shorter s'' (scan_membs s'')"
proof (induction s and s' and s'' rule: scan_value_scan_elems_scan_membs.induct)
  case (2 c cs)
  have ws: "length (skip_ws cs) \<le> length cs" by (rule length_skip_ws)
  consider "c = 34" | "c = 91" | "c = 123" | "c \<noteq> 34" "c \<noteq> 91" "c \<noteq> 123" by blast
  then show ?case
  proof cases
    case 1
    then show ?thesis by (auto simp: shorter_def less_SucI split: option.splits dest: scan_str_length)
  next
    case c: 2
    then show ?thesis
      using 2 ws by (auto simp: shorter_def less_Suc_eq_le split: option.splits prod.splits)
  next
    case c: 3
    then show ?thesis
      using 2 ws by (auto simp: shorter_def less_Suc_eq_le split: option.splits prod.splits)
  next
    case 4
    then show ?thesis using scan_atom_length [of "c # cs"]
      by (auto simp: shorter_def split: option.splits)
  qed
next
  case (3 s)
  show ?case
  proof (cases "scan_value s")
    case None
    then show ?thesis by (simp add: shorter_def scan_elems.simps [of s])
  next
    case (Some vr)
    obtain v r where vr: "scan_value s = Some (v, r)" using Some by (cases vr) simp
    with "3.IH"(1) have r: "length r < length s" by (simp add: shorter_def)
    show ?thesis
    proof (cases "skip_ws r")
      case Nil
      then show ?thesis by (simp add: shorter_def scan_elems.simps [of s] vr)
    next
      case (Cons c r1)
      then have r1: "Suc (length r1) \<le> length r" using length_skip_ws [of r] by simp
      show ?thesis
        using "3.IH"(2) [OF vr refl Cons] r r1
        by (auto simp: shorter_def scan_elems.simps [of s] vr Cons split: option.splits)
    qed
  qed
next
  case (4 s)
  have "length r' < length s" if eq: "scan_membs s = Some (kvs, r')" for kvs r'
  proof -
    from eq obtain s0 n r r1 v r2 d r3 where s: "s = 34 # s0" and n: "scan_str s0 = Some (n, r)"
      and r1: "skip_ws r = 58 # r1" and v: "scan_value (skip_ws r1) = Some (v, r2)"
      and r3: "skip_ws r2 = d # r3"
      and last: "d = 125 \<and> r' = r3 \<or>
        (d = 44 \<and> length (skip_ws r3) < length s \<and> (\<exists>kvs'. scan_membs (skip_ws r3) = Some (kvs', r')))"
      by (subst (asm) scan_membs.simps) (auto split: list.splits option.splits if_splits)
    have "shorter (skip_ws r1) (scan_value (skip_ws r1))"
      using "4.IH"(1) [OF s _ n refl r1] by simp
    then have "length r2 < length (skip_ws r1)" by (simp add: v shorter_def)
    then have "length r3 < length s"
      using scan_str_length [OF n] length_skip_ws [of r] length_skip_ws [of r1] length_skip_ws [of r2] s r1 r3
      by simp
    moreover have "length r' < length (skip_ws r3)" if "d = 44" "scan_membs (skip_ws r3) = Some (kvs', r')"
        "length (skip_ws r3) < length s" for kvs'
      using "4.IH"(2) [OF s _ n refl r1 _ v refl r3] that by (simp add: shorter_def)
    ultimately show ?thesis using last by auto
  qed
  then show ?case by (auto simp: shorter_def split: option.splits)
qed (simp add: shorter_def)

text \<open>So the guards never refuse: the two loops satisfy the equations of the source without them.\<close>

lemma scan_elems_eq:
  "scan_elems s =
     (case scan_value s of None \<Rightarrow> None
      | Some (v, r) \<Rightarrow>
         (case skip_ws r of [] \<Rightarrow> None
          | c # r1 \<Rightarrow>
             if c = 93 then Some ([v], r1)
             else if c = 44 then
               (case scan_elems (skip_ws r1) of None \<Rightarrow> None | Some (vs, r2) \<Rightarrow> Some (v # vs, r2))
             else None))"
proof (cases "scan_value s")
  case None
  then show ?thesis by (simp add: scan_elems.simps [of s])
next
  case (Some vr)
  obtain v r where vr: "scan_value s = Some (v, r)" using Some by (cases vr) simp
  have "length (skip_ws r1) < length s" if "skip_ws r = c # r1" for c r1
    using that scan_shorter(1) [of s] length_skip_ws [of r] length_skip_ws [of r1]
    by (simp add: vr shorter_def)
  then show ?thesis
    by (simp add: scan_elems.simps [of s] vr split: list.split)
qed

lemma scan_membs_str:
  assumes n: "scan_str s0 = Some (n, r)" and r1: "skip_ws r = 58 # r1"
    and v: "scan_value (skip_ws r1) = Some (v, r2)" and r3: "skip_ws r2 = d # r3"
  shows "scan_membs (34 # s0) =
    (if d = 125 then Some ([(n, v)], r3)
     else if d = 44 then
       (case scan_membs (skip_ws r3) of None \<Rightarrow> None | Some (kvs, r4) \<Rightarrow> Some ((n, v) # kvs, r4))
     else None)"
proof -
  have "length (skip_ws r3) < length (34 # s0)"
    using scan_str_length [OF n] length_skip_ws [of r] length_skip_ws [of r1] length_skip_ws [of r2]
      length_skip_ws [of r3] scan_shorter(1) [of "skip_ws r1"] r1 r3
    by (simp add: v shorter_def)
  then show ?thesis
    by (subst scan_membs.simps) (simp add: n r1 v r3)
qed

subsection \<open>Documents\<close>

text \<open>\<open>json.loads(str)\<close>; None is the \<open>JSONDecodeError\<close>.\<close>

definition loads :: "pystr \<Rightarrow> json option" where
  "loads s =
     (if startswith [65279] s then None
      else case scan_value (skip_ws s) of None \<Rightarrow> None
        | Some (v, r) \<Rightarrow> if skip_ws r = [] then Some v else None)"

end
