(* ===== verification/JsonRT.thy ===== *)
theory JsonRT
  imports Json
begin

text \<open>
  The round trip of the JSON codec, \<open>json.loads(json.dumps(v)) == v\<close>, for every well-formed value:
  texts without surrogates, distinct keys in every object, and float literals in the form the
  scanner reads back.  Also \<open>json.loads\<close> on bytes, with its detection of the encoding.
\<close>

section \<open>Well-formed values\<close>

definition wf_float :: "pystr \<Rightarrow> bool" where
  "wf_float t = (scan_number t = Some (JFloat t, []))"

fun jwf :: "json \<Rightarrow> bool"
and jwf_elems :: "json list \<Rightarrow> bool"
and jwf_membs :: "(pystr \<times> json) list \<Rightarrow> bool" where
  "jwf (JFloat t) = wf_float t"
| "jwf (JStr s) = list_all valid_cp s"
| "jwf (JArr xs) = jwf_elems xs"
| "jwf (JObj kvs) = (distinct (keys kvs) \<and> jwf_membs kvs)"
| "jwf _ = True"
| "jwf_elems [] = True"
| "jwf_elems (x # xs) = (jwf x \<and> jwf_elems xs)"
| "jwf_membs [] = True"
| "jwf_membs ((n, v) # kvs) = (list_all valid_cp n \<and> jwf v \<and> jwf_membs kvs)"

text \<open>What may follow a value inside a document.\<close>

definition delim :: "pystr \<Rightarrow> bool" where
  "delim r = (case r of [] \<Rightarrow> True | c # _ \<Rightarrow> c = 44 \<or> c = 93 \<or> c = 125 \<or> c = 10)"

section \<open>Numbers\<close>

lemma delim_cases: "delim r \<Longrightarrow> r = [] \<or> (\<exists>c t. r = c # t \<and> (c = 44 \<or> c = 93 \<or> c = 125 \<or> c = 10))"
  by (cases r) (auto simp: delim_def)

lemma takeWhile_delim [simp]: "delim r \<Longrightarrow> takeWhile is_digit (s @ r) = takeWhile is_digit s"
  by (induction s) (auto simp: is_digit_def dest: delim_cases)

lemma dropWhile_delim [simp]: "delim r \<Longrightarrow> dropWhile is_digit (s @ r) = dropWhile is_digit s @ r"
  by (induction s) (auto simp: is_digit_def dest: delim_cases)

lemma scan_int_app:
  "delim r \<Longrightarrow> scan_int s = Some (d, t) \<Longrightarrow> scan_int (s @ r) = Some (d, t @ r)"
  using takeWhile_delim [of r s] dropWhile_delim [of r s]
  by (cases s) (auto simp: scan_int_def split: if_splits)

lemma scan_frac_app:
  "delim r \<Longrightarrow> scan_frac (s @ r) = (fst (scan_frac s), snd (scan_frac s) @ r)"
  by (cases s) (auto simp: scan_frac_def split: list.split dest: delim_cases)

lemma scan_sign_app:
  "delim r \<Longrightarrow> scan_sign (s @ r) = (fst (scan_sign s), snd (scan_sign s) @ r)"
  by (cases s) (auto simp: scan_sign_def split: list.split dest: delim_cases)

lemma scan_exp_app:
  "delim r \<Longrightarrow> scan_exp (s @ r) = (fst (scan_exp s), snd (scan_exp s) @ r)"
  by (cases s) (auto simp: scan_exp_def scan_sign_app split: list.split dest: delim_cases)

lemma scan_unsigned_app:
  assumes "delim r" "scan_unsigned s = Some (d, f, t)"
  shows "scan_unsigned (s @ r) = Some (d, f, t @ r)"
proof -
  from assms(2) obtain r0 where "scan_int s = Some (d, r0)"
    and "f = fst (scan_frac r0) @ fst (scan_exp (snd (scan_frac r0)))"
    and "t = snd (scan_exp (snd (scan_frac r0)))"
    by (auto simp: scan_unsigned_def Let_def case_prod_beta split: option.splits)
  with assms(1) show ?thesis
    by (simp add: scan_unsigned_def scan_int_app scan_frac_app scan_exp_app)
qed

lemma scan_number_app:
  assumes "delim r" "scan_number s = Some (v, t)"
  shows "scan_number (s @ r) = Some (v, t @ r)"
proof (cases s)
  case Nil
  with assms show ?thesis by (simp add: scan_number_def)
next
  case (Cons c u)
  with assms show ?thesis
    using scan_unsigned_app [OF assms(1), of u] scan_unsigned_app [OF assms(1), of s]
    by (auto simp: scan_number_def Let_def split: option.splits if_splits)
qed

lemma takeWhile_digits: "takeWhile is_digit (nat_digits n) = nat_digits n"
  by (simp add: takeWhile_eq_all_conv nat_digits_digits)

lemma scan_unsigned_nat_digits: "scan_unsigned (nat_digits n) = Some (nat_digits n, [], [])"
proof -
  obtain c r where cr: "nat_digits n = c # r" by (cases "nat_digits n") auto
  have "scan_int (nat_digits n) = Some (nat_digits n, [])"
  proof (cases "n = 0")
    case False
    with hd_nat_digits [of n] cr have "c \<noteq> 48" "is_digit c"
      using nat_digits_digits [of c n] by auto
    moreover have "dropWhile is_digit (nat_digits n) = []"
      by (simp add: nat_digits_digits)
    ultimately show ?thesis
      using takeWhile_digits [of n] cr by (simp add: scan_int_def)
  qed (simp add: scan_int_def)
  then show ?thesis by (simp add: scan_unsigned_def scan_frac_def scan_exp_def)
qed

lemma scan_number_str_int: "scan_number (str_int i) = Some (JInt i, [])"
proof -
  obtain c r where cr: "nat_digits (nat i) = c # r" by (cases "nat_digits (nat i)") auto
  then have "is_digit c" using nat_digits_digits [of c "nat i"] by simp
  then have "c \<noteq> 45" by (auto simp: is_digit_def)
  with cr show ?thesis
    using scan_unsigned_nat_digits [of "nat i"] digits_val_nat_digits [of "nat i"]
    by (auto simp: str_int_def scan_number_def scan_unsigned_nat_digits digits_val_nat_digits
        simp del: digits_val.simps)
qed

text \<open>What the number scanner keeps is ASCII, and no NUL.\<close>

abbreviation ascii :: "pystr \<Rightarrow> bool" where
  "ascii s \<equiv> list_all (\<lambda>c. 0 < c \<and> c < 128) s"

lemma ascii_takeWhile_digits [simp]: "ascii (takeWhile is_digit s)"
  by (induction s) (auto simp: is_digit_def)

lemma ascii_scan_unsigned: "scan_unsigned s = Some (d, f, r) \<Longrightarrow> ascii (d @ f)"
  by (auto simp: scan_unsigned_def scan_int_def scan_frac_def scan_exp_def scan_sign_def Let_def
      split: list.splits option.splits if_splits prod.splits simp flip: takeWhile.simps)

lemma ascii_scan_number: "scan_number s = Some (JFloat t, r) \<Longrightarrow> ascii t"
  by (auto simp: scan_number_def Let_def split: list.splits option.splits if_splits
      dest!: ascii_scan_unsigned)

section \<open>Strings\<close>

lemma hex_width_4: "hex_width 4 n =
  [hexchar (n div 16 div 16 div 16 mod 16), hexchar (n div 16 div 16 mod 16), hexchar (n div 16 mod 16),
   hexchar (n mod 16)]"
proof -
  have "4 = Suc (Suc (Suc (Suc 0)))" by simp
  then show ?thesis by (simp only: hex_width.simps append.simps)
qed

lemma split16:
  fixes n :: nat
  assumes "n < 65536"
  shows "4096 * (n div 16 div 16 div 16 mod 16) + 256 * (n div 16 div 16 mod 16) + 16 * (n div 16 mod 16)
    + n mod 16 = n"
proof -
  have "n div 16 div 16 div 16 < 16" using assms by (simp add: div_mult2_eq [symmetric])
  then have "n div 16 div 16 div 16 mod 16 = n div 16 div 16 div 16" by simp
  moreover have "n div 16 * 16 + n mod 16 = n" "n div 16 div 16 * 16 + n div 16 mod 16 = n div 16"
    "n div 16 div 16 div 16 * 16 + n div 16 div 16 mod 16 = n div 16 div 16"
    by (rule div_mult_mod_eq)+
  ultimately show ?thesis by linarith
qed

lemma hex4_hex_width:
  "n < 65536 \<Longrightarrow> hex4 (hexchar (n div 16 div 16 div 16 mod 16)) (hexchar (n div 16 div 16 mod 16))
     (hexchar (n div 16 mod 16)) (hexchar (n mod 16)) = Some n"
  using split16 [of n] by (simp add: hex4_def)

lemma scan_unicode_hex:
  "n < 65536 \<Longrightarrow> scan_unicode (hex_width 4 n @ r) =
     (case low_half n r of None \<Rightarrow> Some (n, r) | Some l \<Rightarrow> Some (join_surrogates n l, drop 6 r))"
  by (simp only: scan_unicode_def hex_width_4 append.simps list.case hex4_hex_width option.case)

lemma low_half_hex:
  "high_surrogate h \<Longrightarrow> low_surrogate l \<Longrightarrow> l < 65536 \<Longrightarrow> low_half h (92 # 117 # hex_width 4 l @ r) = Some l"
  by (simp only: low_half_def hex_width_4 append.simps list.case hex4_hex_width option.case simp_thms if_True)

lemma scan_unicode_bmp:
  "n < 65536 \<Longrightarrow> \<not> high_surrogate n \<Longrightarrow> scan_unicode (hex_width 4 n @ r) = Some (n, r)"
  by (simp add: scan_unicode_hex low_half_def)

lemma scan_unicode_pair:
  assumes "high_surrogate h" "low_surrogate l"
  shows "scan_unicode (hex_width 4 h @ 92 # 117 # hex_width 4 l @ r) = Some (join_surrogates h l, r)"
proof -
  have "h < 65536" "l < 65536" using assms by (auto simp: high_surrogate_def low_surrogate_def)
  with assms show ?thesis by (simp add: scan_unicode_hex low_half_hex)
qed

lemma scan_unit_esc:
  assumes "valid_cp c"
  shows "scan_unit (esc_char c @ r) = Some (c, r)"
proof -
  consider "c \<in> {34, 92, 10, 13, 9, 12, 8}" | "c \<notin> {34, 92, 10, 13, 9, 12, 8}" "32 \<le> c" "c \<le> 126"
    | "c \<notin> {34, 92, 10, 13, 9, 12, 8}" "\<not> (32 \<le> c \<and> c \<le> 126)" "c < 65536"
    | "65536 \<le> c" by fastforce
  then show ?thesis
  proof cases
    case 1
    then show ?thesis by (auto simp: esc_char_def scan_unit_def simple_escape_def)
  next
    case 2
    then show ?thesis by (simp add: esc_char_def scan_unit_def)
  next
    case 3
    then have "\<not> high_surrogate c"
      using assms by (auto simp: valid_cp_def surrogate_def high_surrogate_def)
    with 3 show ?thesis by (simp add: esc_char_def scan_unit_def scan_unicode_bmp)
  next
    case 4
    let ?h = "55296 + (c - 65536) div 1024 mod 1024" and ?l = "56320 + (c - 65536) mod 1024"
    have "c - 65536 < 1048576" using assms by (auto simp: valid_cp_def)
    then have q: "(c - 65536) div 1024 < 1024" by linarith
    then have h: "high_surrogate ?h" and l: "low_surrogate ?l"
      by (auto simp: high_surrogate_def low_surrogate_def)
    have "join_surrogates ?h ?l = 65536 + ((c - 65536) div 1024 * 1024 + (c - 65536) mod 1024)"
      using q by (simp add: join_surrogates_def)
    also have "\<dots> = c" using 4 by simp
    finally show ?thesis
      using scan_unicode_pair [OF h l, of r] 4 by (simp add: esc_char_def scan_unit_def)
  qed
qed

lemma esc_char_hd: "\<exists>e r. esc_char c = e # r \<and> e \<noteq> 34"
  by (auto simp: esc_char_def)

lemma scan_str_esc:
  "list_all valid_cp s \<Longrightarrow> scan_str (concat (map esc_char s) @ 34 # r) = Some (s, r)"
proof (induction s)
  case (Cons c s)
  let ?rest = "concat (map esc_char s) @ 34 # r"
  obtain e t where e: "esc_char c = e # t" "e \<noteq> 34" using esc_char_hd by blast
  have "scan_unit (e # (t @ ?rest)) = Some (c, ?rest)"
    using scan_unit_esc [of c ?rest] Cons.prems e by simp
  from scan_str_unit [OF e(2) this] Cons show ?case by (simp add: e)
qed simp


section \<open>Values\<close>

text \<open>Separators as the sources use them: a comma or a colon, then blanks.\<close>

definition sep_ok :: "nat \<Rightarrow> pystr \<Rightarrow> bool" where
  "sep_ok c s = (case s of [] \<Rightarrow> False | d # w \<Rightarrow> d = c \<and> list_all json_ws w)"

lemma skip_ws_blank [simp]: "list_all json_ws w \<Longrightarrow> skip_ws (w @ s) = skip_ws s"
  by (induction w) (auto simp: skip_ws_def)

lemma skip_ws_solid [simp]: "\<not> json_ws c \<Longrightarrow> skip_ws (c # s) = c # s"
  by (simp add: skip_ws_def)

lemma json_ws_chars [simp]: "\<not> json_ws 34" "\<not> json_ws 44" "\<not> json_ws 58" "\<not> json_ws 91" "\<not> json_ws 93"
  "\<not> json_ws 123" "\<not> json_ws 125"
  by (simp_all add: json_ws_def)

definition solid :: "nat \<Rightarrow> bool" where
  "solid c = (\<not> json_ws c \<and> c \<noteq> 93 \<and> c \<noteq> 125)"

lemma scan_unsigned_hd: "scan_unsigned s = Some x \<Longrightarrow> \<exists>c r. s = c # r \<and> is_digit c"
  by (cases s) (auto simp: scan_unsigned_def scan_int_def is_digit_def split: option.splits if_splits)

lemma scan_number_hd:
  "scan_number s = Some x \<Longrightarrow>
     (\<exists>c r. s = c # r \<and> is_digit c) \<or> (\<exists>d r. s = 45 # d # r \<and> is_digit d)"
  by (cases s) (auto simp: scan_number_def Let_def split: option.splits if_splits dest!: scan_unsigned_hd)

lemma digit_solid: "is_digit c \<Longrightarrow> solid c"
  by (auto simp: is_digit_def solid_def json_ws_def)

text \<open>A number is no constant, string or bracket, so the scanner reads it as a number.\<close>

lemma scan_value_number:
  assumes "delim r" "scan_number s = Some (v, [])"
  shows "scan_value (s @ r) = Some (v, r)"
proof -
  note n = scan_number_app [OF assms]
  from scan_number_hd [OF assms(2)] show ?thesis
  proof (elim disjE exE conjE)
    fix c t assume s: "s = c # t" "is_digit c"
    then show ?thesis using n by (auto simp: scan_atom_def startswith_def py_def is_digit_def)
  next
    fix d t assume s: "s = 45 # d # t" "is_digit d"
    then show ?thesis using n by (auto simp: scan_atom_def startswith_def py_def is_digit_def)
  qed
qed

lemma scan_value_const:
  "scan_value (py ''null'' @ r) = Some (JNull, r)"
  "scan_value (py ''true'' @ r) = Some (JBool True, r)"
  "scan_value (py ''false'' @ r) = Some (JBool False, r)"
  by (simp_all add: py_def scan_atom_def startswith_def)

lemma scan_value_str: "list_all valid_cp t \<Longrightarrow> scan_value (esc_str t @ r) = Some (JStr t, r)"
  by (simp add: esc_str_def scan_str_esc)

text \<open>What \<open>dumps\<close> writes starts with a character that closes nothing and is no blank.\<close>

lemma dumps_hd: "jwf v \<Longrightarrow> \<exists>c r. dumps i k v = c # r \<and> solid c"
proof (cases v)
  case (JInt n)
  then show ?thesis using scan_number_hd [OF scan_number_str_int [of n]]
    by (auto simp: digit_solid) (auto simp: solid_def json_ws_def)
next
  case (JFloat t)
  assume "jwf v"
  with JFloat have "scan_number t = Some (JFloat t, [])" by (simp add: wf_float_def)
  from scan_number_hd [OF this] JFloat show ?thesis
    by (auto simp: digit_solid) (auto simp: solid_def json_ws_def)
next
  case (JArr xs)
  then show ?thesis by (cases xs) (auto simp: solid_def)
next
  case (JObj kvs)
  then show ?thesis by (cases kvs) (auto simp: solid_def)
qed (auto simp: py_def esc_str_def solid_def json_ws_def)

lemma dumps_elems_delim: "sep_ok 44 i \<Longrightarrow> delim (dumps_elems i k xs @ r)"
  by (cases xs) (auto simp: delim_def sep_ok_def split: list.splits)

lemma dumps_membs_delim: "sep_ok 44 i \<Longrightarrow> delim (dumps_membs i k kvs @ r)"
  by (cases kvs) (auto simp: delim_def sep_ok_def split: list.splits)

lemma scan_elems_last:
  "scan_value s = Some (v, 93 # r) \<Longrightarrow> scan_elems s = Some ([v], r)"
  by (simp add: scan_elems_eq [of s])

lemma scan_elems_more:
  assumes "sep_ok 44 i" "scan_value s = Some (v, i @ t)" "\<exists>c u. t = c # u \<and> solid c"
    "scan_elems t = Some (vs, r)"
  shows "scan_elems s = Some (v # vs, r)"
proof -
  obtain w where "i = 44 # w" "list_all json_ws w" using assms(1) by (auto simp: sep_ok_def split: list.splits)
  then show ?thesis using assms by (auto simp: scan_elems_eq [of s] solid_def)
qed

text \<open>One member of an object, from its quote to what follows its value.\<close>

lemma scan_membs_one:
  assumes "sep_ok 58 k" "list_all valid_cp n" "\<exists>c u. s = c # u \<and> solid c" "scan_value s = Some (v, t)"
    "t = d # r" "\<not> json_ws d"
  shows "scan_membs (esc_str n @ k @ s) =
    (if d = 125 then Some ([(n, v)], r)
     else if d = 44 then
       (case scan_membs (skip_ws r) of None \<Rightarrow> None | Some (kvs, r4) \<Rightarrow> Some ((n, v) # kvs, r4))
     else None)"
proof -
  obtain w where k: "k = 58 # w" "list_all json_ws w" using assms(1) by (auto simp: sep_ok_def split: list.splits)
  have "skip_ws (w @ s) = s" using k assms(3) by (auto simp: solid_def)
  then have v: "scan_value (skip_ws (w @ s)) = Some (v, d # r)" using assms by simp
  have n: "scan_str (concat (map esc_char n) @ 34 # k @ s) = Some (n, 58 # w @ s)"
    using scan_str_esc [OF assms(2)] k by simp
  from scan_membs_str [OF n _ v, of d r] assms(6) show ?thesis by (simp add: esc_str_def)
qed


text \<open>The round trip, by the recursion of \<open>dumps\<close>, with any text that closes the value behind it.\<close>

definition reads_back :: "pystr \<Rightarrow> pystr \<Rightarrow> json \<Rightarrow> bool" where
  "reads_back i k v = (\<forall>r. delim r \<longrightarrow> scan_value (dumps i k v @ r) = Some (v, r))"

lemma reads_backD: "reads_back i k v \<Longrightarrow> delim r \<Longrightarrow> scan_value (dumps i k v @ r) = Some (v, r)"
  by (simp add: reads_back_def)

lemma reads_back_arr:
  assumes "reads_back i k x" "jwf x"
    "\<And>y r. reads_back i k y \<Longrightarrow> scan_elems (dumps i k y @ dumps_elems i k xs @ r) = Some (y # xs, r)"
  shows "reads_back i k (JArr (x # xs))"
proof -
  obtain c u where "dumps i k x = c # u" "solid c" using dumps_hd [OF assms(2)] by blast
  then show ?thesis
    using assms(3) [OF assms(1)] by (auto simp: reads_back_def solid_def startswith_def)
qed

lemma reads_back_obj:
  assumes "reads_back i k v" "distinct (keys ((n, v) # kvs))"
    "\<And>n y r. reads_back i k y \<Longrightarrow> jwf y \<Longrightarrow> list_all valid_cp n \<Longrightarrow>
      scan_membs (esc_str n @ k @ dumps i k y @ dumps_membs i k kvs @ r) = Some ((n, y) # kvs, r)"
    "jwf v" "list_all valid_cp n"
  shows "reads_back i k (JObj ((n, v) # kvs))"
proof -
  obtain u where u: "esc_str n = 34 # u" by (simp add: esc_str_def)
  have "dict_of ((n, v) # kvs) = (n, v) # kvs" using assms(2) by (rule dict_of_distinct)
  moreover have "scan_membs (34 # u @ k @ dumps i k v @ dumps_membs i k kvs @ r) = Some ((n, v) # kvs, r)" for r
    using assms(3) [OF assms(1,4,5), of r] by (simp add: u)
  ultimately show ?thesis
    by (simp add: reads_back_def u startswith_def)
qed

lemma scan_elems_step:
  assumes "sep_ok 44 i" "reads_back i k y" "reads_back i k x" "jwf x"
    "\<And>y r. reads_back i k y \<Longrightarrow> scan_elems (dumps i k y @ dumps_elems i k xs @ r) = Some (y # xs, r)"
  shows "scan_elems (dumps i k y @ dumps_elems i k (x # xs) @ r) = Some (y # x # xs, r)"
proof (rule scan_elems_more [OF assms(1)])
  let ?t = "dumps i k x @ dumps_elems i k xs @ r"
  show "scan_value (dumps i k y @ dumps_elems i k (x # xs) @ r) = Some (y, i @ ?t)"
    using reads_backD [OF assms(2) dumps_elems_delim [OF assms(1), of k "x # xs" r]] by simp
  show "\<exists>c u. ?t = c # u \<and> solid c" using dumps_hd [OF assms(4), of i k] by auto
  show "scan_elems ?t = Some (x # xs, r)" by (rule assms(5) [OF assms(3)])
qed

lemma scan_membs_step:
  assumes i: "sep_ok 44 i" and k: "sep_ok 58 k" and y: "reads_back i k y" "jwf y" "list_all valid_cp m"
    and v: "reads_back i k v" "jwf v" "list_all valid_cp n"
    and IH: "\<And>n y r. reads_back i k y \<Longrightarrow> jwf y \<Longrightarrow> list_all valid_cp n \<Longrightarrow>
      scan_membs (esc_str n @ k @ dumps i k y @ dumps_membs i k kvs @ r) = Some ((n, y) # kvs, r)"
  shows "scan_membs (esc_str m @ k @ dumps i k y @ dumps_membs i k ((n, v) # kvs) @ r) = Some ((m, y) # (n, v) # kvs, r)"
proof -
  let ?u = "esc_str n @ k @ dumps i k v @ dumps_membs i k kvs @ r"
  obtain w where w: "i = 44 # w" "list_all json_ws w" using i by (auto simp: sep_ok_def split: list.splits)
  have "scan_value (dumps i k y @ dumps_membs i k ((n, v) # kvs) @ r) = Some (y, dumps_membs i k ((n, v) # kvs) @ r)"
    by (rule reads_backD [OF y(1) dumps_membs_delim [OF i]])
  then have "scan_value (dumps i k y @ dumps_membs i k ((n, v) # kvs) @ r) = Some (y, 44 # w @ ?u)"
    by (simp add: w)
  moreover have "\<exists>c u. dumps i k y @ dumps_membs i k ((n, v) # kvs) @ r = c # u \<and> solid c"
    using dumps_hd [OF y(2), of i k] by auto
  ultimately have "scan_membs (esc_str m @ k @ dumps i k y @ dumps_membs i k ((n, v) # kvs) @ r) =
      (case scan_membs (skip_ws (w @ ?u)) of None \<Rightarrow> None | Some (kvs, r4) \<Rightarrow> Some ((m, y) # kvs, r4))"
    by (subst scan_membs_one [OF k y(3) _ _ refl]) auto
  moreover have "skip_ws (w @ ?u) = ?u" using w(2) by (simp add: esc_str_def)
  ultimately show ?thesis using IH [OF v] by simp
qed

lemma scan_membs_last:
  assumes "sep_ok 58 k" "reads_back i k y" "jwf y" "list_all valid_cp m"
  shows "scan_membs (esc_str m @ k @ dumps i k y @ 125 # r) = Some ([(m, y)], r)"
proof -
  have "scan_value (dumps i k y @ 125 # r) = Some (y, 125 # r)"
    by (rule reads_backD [OF assms(2)]) (simp add: delim_def)
  moreover have "\<exists>c u. dumps i k y @ 125 # r = c # u \<and> solid c" using dumps_hd [OF assms(3), of i k] by auto
  ultimately show ?thesis by (subst scan_membs_one [OF assms(1) assms(4) _ _ refl]) auto
qed

lemma scan_dumps:
  shows "sep_ok 44 i \<Longrightarrow> sep_ok 58 k \<Longrightarrow> jwf v \<Longrightarrow> reads_back i k v"
    and "sep_ok 44 i' \<Longrightarrow> sep_ok 58 k' \<Longrightarrow> jwf_elems xs \<Longrightarrow> reads_back i' k' y \<Longrightarrow>
          scan_elems (dumps i' k' y @ dumps_elems i' k' xs @ r) = Some (y # xs, r)"
    and "sep_ok 44 i'' \<Longrightarrow> sep_ok 58 k'' \<Longrightarrow> jwf_membs kvs \<Longrightarrow> reads_back i'' k'' z \<Longrightarrow> jwf z \<Longrightarrow> list_all valid_cp n \<Longrightarrow>
          scan_membs (esc_str n @ k'' @ dumps i'' k'' z @ dumps_membs i'' k'' kvs @ r') = Some ((n, z) # kvs, r')"
proof (induction i k v and i' k' xs and i'' k'' kvs arbitrary: and y r and n z r'
    rule: dumps_dumps_elems_dumps_membs.induct)
  case (3 i k n)
  show ?case by (simp add: reads_back_def scan_value_number scan_number_str_int del: scan_value.simps)
next
  case (4 i k t)
  then show ?case by (simp add: reads_back_def scan_value_number wf_float_def del: scan_value.simps)
next
  case (7 i k x xs)
  then show ?case by (intro reads_back_arr) auto
next
  case (9 i k n v kvs)
  then show ?case by (intro reads_back_obj) auto
next
  case (10 i k)
  then have "scan_value (dumps i k y @ 93 # r) = Some (y, 93 # r)"
    by (intro reads_backD) (simp_all add: delim_def)
  then show ?case by (simp add: scan_elems_last)
next
  case (11 i k x xs)
  then show ?case by (intro scan_elems_step) auto
next
  case (12 i k)
  then show ?case using scan_membs_last [of k i z n r'] by simp
next
  case (13 i k m v kvs)
  then show ?case by (intro scan_membs_step) auto
next
  case (6 i k)
  then show ?case by (simp add: reads_back_def startswith_def)
next
  case (8 i k)
  then show ?case by (simp add: reads_back_def startswith_def dict_of_def)
qed (auto simp: reads_back_def scan_value_const scan_value_str startswith_def simp del: scan_value.simps)

text \<open>\<open>ensure_ascii\<close>: everything \<open>dumps\<close> writes is ASCII, so any ASCII superset can carry it.\<close>

lemma ascii_hex_width [simp]: "ascii (hex_width k n)"
  using set_hex_width [of k n] by (fastforce simp: list_all_iff)

lemma ascii_esc_char [simp]: "ascii (esc_char c)"
  by (simp add: esc_char_def del: hex_width.simps)

lemma ascii_esc_str [simp]: "ascii (esc_str s)"
  by (induction s) (auto simp: esc_str_def)

lemma ascii_str_int [simp]: "ascii (str_int n)"
  using nat_digits_digits by (fastforce simp: str_int_def list_all_iff is_digit_def)

lemma ascii_dumps:
  "ascii i \<Longrightarrow> ascii k \<Longrightarrow> jwf v \<Longrightarrow> ascii (dumps i k v)"
  "ascii i' \<Longrightarrow> ascii k' \<Longrightarrow> jwf_elems xs \<Longrightarrow> ascii (dumps_elems i' k' xs)"
  "ascii i'' \<Longrightarrow> ascii k'' \<Longrightarrow> jwf_membs kvs \<Longrightarrow> ascii (dumps_membs i'' k'' kvs)"
  by (induction i k v and i' k' xs and i'' k'' kvs rule: dumps_dumps_elems_dumps_membs.induct)
    (auto simp: py_def wf_float_def dest: ascii_scan_number)

lemma loads_dumps:
  assumes "sep_ok 44 i" "sep_ok 58 k" "jwf v"
  shows "loads (dumps i k v) = Some v"
proof -
  have "scan_value (dumps i k v) = Some (v, [])"
    using reads_backD [OF scan_dumps(1) [OF assms], of "[]"] by (simp add: delim_def)
  moreover obtain c u where c: "dumps i k v = c # u" "solid c" using dumps_hd [OF assms(3)] by blast
  moreover have "ascii i" "ascii k" using assms(1,2)
    by (auto simp: sep_ok_def list_all_iff json_ws_def split: list.splits)
  from ascii_dumps(1) [OF this assms(3)] c have "c \<noteq> 65279" by auto
  ultimately show ?thesis by (simp add: loads_def startswith_def solid_def skip_ws_def)
qed

lemma loads_dumps_compact [simp]: "jwf v \<Longrightarrow> loads (dumps_compact v) = Some v"
  unfolding dumps_compact_def by (rule loads_dumps) (simp_all add: sep_ok_def json_ws_def)

lemma loads_dumps_default [simp]: "jwf v \<Longrightarrow> loads (dumps_default v) = Some v"
  unfolding dumps_default_def by (rule loads_dumps) (simp_all add: sep_ok_def json_ws_def)

lemma ascii_dumps_compact: "jwf v \<Longrightarrow> ascii (dumps_compact v)"
  unfolding dumps_compact_def by (rule ascii_dumps) simp_all

lemma ascii_dumps_default: "jwf v \<Longrightarrow> ascii (dumps_default v)"
  unfolding dumps_default_def by (rule ascii_dumps) simp_all

lemma dumps_encode: "jwf v \<Longrightarrow> utf8_encode (dumps_compact v) = Some (map byte_of (dumps_compact v))"
  using ascii_dumps_compact [of v] by (intro utf8_encode_ascii) (auto simp: list_all_iff)

text \<open>\<open>sort_keys=True\<close> keeps a value well formed and every key's value.\<close>

lemma jwf_membs_iff: "jwf_membs kvs \<longleftrightarrow> (\<forall>(n, v) \<in> set kvs. list_all valid_cp n \<and> jwf v)"
  by (induction kvs) auto

lemma jwf_elems_iff: "jwf_elems xs \<longleftrightarrow> (\<forall>v \<in> set xs. jwf v)"
  by (induction xs) auto

lemma jwf_jsort: "jwf v \<Longrightarrow> jwf (jsort v)"
proof (induction v)
  case (JArr xs)
  then show ?case by (auto simp: jwf_elems_iff)
next
  case (JObj kvs)
  let ?m = "map (\<lambda>(n, v). (n, jsort v)) kvs"
  have "keys ?m = keys kvs" by (simp add: case_prod_beta comp_def)
  then have "distinct (keys ?m)" using JObj.prems by (simp only: jwf.simps)
  then have "distinct (keys (sort_key fst ?m))"
    by (simp only: distinct_map set_sort distinct_sort)
  then show ?case using JObj by (auto simp: jwf_membs_iff)
qed auto

section \<open>Loading bytes\<close>

text \<open>
  \<open>json.loads(bytes)\<close> guesses the encoding from a byte order mark or the zero bytes of the first
  four, and decodes with \<open>surrogatepass\<close>.  A decoding failure is a \<open>UnicodeDecodeError\<close>, which is
  not a \<open>JSONDecodeError\<close> (both are \<open>ValueError\<close>s).
\<close>

datatype json_error = JSONDecodeError | UnicodeDecodeError

datatype encoding = Utf8 | Utf8_sig | Utf16 bool | Utf32 bool

definition detect_encoding :: "bytes \<Rightarrow> encoding \<times> nat" where
  "detect_encoding bs =
     (let b = map unat bs in
      if startswith [0, 0, 254, 255] b then (Utf32 True, 4)
      else if startswith [255, 254, 0, 0] b then (Utf32 False, 4)
      else if startswith [254, 255] b then (Utf16 True, 2)
      else if startswith [255, 254] b then (Utf16 False, 2)
      else if startswith [239, 187, 191] b then (Utf8_sig, 3)
      else if 4 \<le> length b then
        (if b ! 0 = 0 then (if b ! 1 \<noteq> 0 then (Utf16 True, 0) else (Utf32 True, 0))
         else if b ! 1 = 0 then (if b ! 2 \<noteq> 0 \<or> b ! 3 \<noteq> 0 then (Utf16 False, 0) else (Utf32 False, 0))
         else (Utf8, 0))
      else if length b = 2 then
        (if b ! 0 = 0 then (Utf16 True, 0) else if b ! 1 = 0 then (Utf16 False, 0) else (Utf8, 0))
      else (Utf8, 0))"

definition unit16 :: "bool \<Rightarrow> byte \<Rightarrow> byte \<Rightarrow> nat" where
  "unit16 be a b = (if be then unat a * 256 + unat b else unat b * 256 + unat a)"

fun units16 :: "bool \<Rightarrow> bytes \<Rightarrow> nat list option" where
  "units16 be [] = Some []"
| "units16 be [a] = None"
| "units16 be (a # b # r) = map_option (Cons (unit16 be a b)) (units16 be r)"

fun join_units :: "nat list \<Rightarrow> pystr" where
  "join_units [] = []"
| "join_units [u] = [u]"
| "join_units (u # l # r) =
     (if high_surrogate u \<and> low_surrogate l then join_surrogates u l # join_units r
      else u # join_units (l # r))"

fun utf32_decode :: "bool \<Rightarrow> bytes \<Rightarrow> pystr option" where
  "utf32_decode be [] = Some []"
| "utf32_decode be (a # b # c # d # r) =
     (let u = (if be then unit16 be a b * 65536 + unit16 be c d else unit16 be c d * 65536 + unit16 be a b) in
      if u < 1114112 then map_option (Cons u) (utf32_decode be r) else None)"
| "utf32_decode be _ = None"

definition decode_as :: "encoding \<Rightarrow> bytes \<Rightarrow> pystr option" where
  "decode_as e bs = (case e of Utf8 \<Rightarrow> utf8_decode True bs | Utf8_sig \<Rightarrow> utf8_decode True bs
     | Utf16 be \<Rightarrow> map_option join_units (units16 be bs) | Utf32 be \<Rightarrow> utf32_decode be bs)"

definition json_loads_bytes :: "bytes \<Rightarrow> json_error + json" where
  "json_loads_bytes bs =
     (case detect_encoding bs of (e, n) \<Rightarrow>
        (case decode_as e (drop n bs) of None \<Rightarrow> Inl UnicodeDecodeError
         | Some s \<Rightarrow> (case loads s of None \<Rightarrow> Inl JSONDecodeError | Some v \<Rightarrow> Inr v)))"

definition json_loads_str :: "pystr \<Rightarrow> json_error + json" where
  "json_loads_str s = (case loads s of None \<Rightarrow> Inl JSONDecodeError | Some v \<Rightarrow> Inr v)"

lemma detect_encoding_plain:
  assumes "list_all (\<lambda>b. 0 < unat b \<and> unat b < 128) bs"
  shows "detect_encoding bs = (Utf8, 0)"
proof -
  have nz: "unat (bs ! i) \<noteq> 0" "unat (bs ! i) < 128" if "i < length bs" for i
    using assms that by (auto simp: list_all_length)
  have "\<not> startswith (x # xs) (map unat bs)" if "x = 0 \<or> 128 \<le> x" for x xs
    using assms that by (cases bs) (auto simp: startswith_def)
  moreover have "map unat bs ! 0 \<noteq> 0 \<and> map unat bs ! 1 \<noteq> 0" if "2 \<le> length bs"
  proof -
    have "0 < length bs" "1 < length bs" using that by linarith+
    then show ?thesis using nz(1) [of 0] nz(1) [of 1] by (simp only: nth_map) simp
  qed
  ultimately show ?thesis
    unfolding detect_encoding_def Let_def by (cases "2 \<le> length bs") auto
qed

text \<open>Bytes of what \<open>dumps\<close> wrote load back, whichever the value.\<close>

lemma json_loads_bytes_dumps:
  assumes "jwf v"
  shows "json_loads_bytes (map byte_of (dumps_compact v)) = Inr v"
proof -
  have a: "ascii (dumps_compact v)" using assms by (rule ascii_dumps_compact)
  then have "list_all (\<lambda>b. 0 < unat b \<and> unat b < 128) (map byte_of (dumps_compact v))"
    by (auto simp: list_all_iff)
  then have "detect_encoding (map byte_of (dumps_compact v)) = (Utf8, 0)" by (rule detect_encoding_plain)
  moreover have "utf8_decode True (map byte_of (dumps_compact v)) = Some (dumps_compact v)"
    using dumps_encode [OF assms] by (rule utf8_decode_encode)
  ultimately show ?thesis using assms by (simp add: json_loads_bytes_def decode_as_def)
qed

end
