(* ===== verification/OpenBao.thy ===== *)
theory OpenBao
  imports Kms JsonRT Complex_Main
begin

text \<open>
  \<open>omkit/kms/openbao.py\<close>: the adapter over the HTTP API of OpenBao/Vault Transit.  The server, the
  clock and the client library are the record \<open>bao_env\<close>, whose two functions act on a world of any
  type; the adapter's own state is its configuration and the cached token.  Every request the
  adapter makes goes through \<open>do_raw\<close>.
\<close>

section \<open>The HTTP client and the clock\<close>

datatype http_method = GET | POST

text \<open>The token header carries whatever JSON value the login answered with.\<close>

record http_request =
  hr_method :: http_method
  hr_url :: pystr
  hr_token :: "json option"
  hr_body :: "json option"

text \<open>\<open>httpx.HTTPError\<close>; another exception of the client (a header it cannot encode); or a response.\<close>

datatype http_outcome =
    HttpError
  | HttpRaised nat
  | Response int bytes

record 'w bao_env =
  send :: "http_request \<Rightarrow> 'w \<Rightarrow> 'w \<times> http_outcome"
  monotonic :: "'w \<Rightarrow> rat"

section \<open>The adapter\<close>

definition DEFAULT_KEY_NAME :: pystr where "DEFAULT_KEY_NAME = py ''omur-user-content''"
definition TOKEN_REFRESH_WINDOW :: rat where "TOKEN_REFRESH_WINDOW = 30"
definition MAX_RESP_BYTES :: nat where "MAX_RESP_BYTES = 64 * 1024"

record 'w bao =
  bo_addr :: pystr
  bo_role_id :: pystr
  bo_secret_id :: pystr
  bo_key_name :: pystr
  bo_token :: "json option"
  bo_expiry :: rat
  bo_world :: 'w

datatype bao_missing = NoAddr | NoRoleId | NoSecretId

definition rstrip_slash :: "pystr \<Rightarrow> pystr" where
  "rstrip_slash s = rev (dropWhile (\<lambda>c. c = 47) (rev s))"

definition bao_init :: "pystr \<Rightarrow> pystr \<Rightarrow> pystr \<Rightarrow> pystr \<Rightarrow> 'w \<Rightarrow> bao_missing + 'w bao" where
  "bao_init addr role_id secret_id key_name w =
     (if addr = [] then Inl NoAddr
      else if role_id = [] then Inl NoRoleId
      else if secret_id = [] then Inl NoSecretId
      else Inr \<lparr>bo_addr = rstrip_slash addr, bo_role_id = role_id, bo_secret_id = secret_id,
             bo_key_name = or_str key_name DEFAULT_KEY_NAME, bo_token = None, bo_expiry = 0, bo_world = w\<rparr>)"

text \<open>The four environment variables, None where unset.\<close>

definition bao_from_env ::
    "pystr option \<Rightarrow> pystr option \<Rightarrow> pystr option \<Rightarrow> pystr option \<Rightarrow> 'w \<Rightarrow> bao_missing + 'w bao" where
  "bao_from_env addr role_id secret_id key_name w =
     (case or_none addr of None \<Rightarrow> Inl NoAddr
      | Some a \<Rightarrow> (case or_none role_id of None \<Rightarrow> Inl NoRoleId
        | Some r \<Rightarrow> (case or_none secret_id of None \<Rightarrow> Inl NoSecretId
          | Some s \<Rightarrow> bao_init a r s (case or_none key_name of None \<Rightarrow> DEFAULT_KEY_NAME | Some k \<Rightarrow> k) w)))"

section \<open>HTTP\<close>

definition do_raw ::
    "'w bao_env \<Rightarrow> 'w bao \<Rightarrow> http_method \<Rightarrow> pystr \<Rightarrow> json option \<Rightarrow> json option \<Rightarrow> 'w bao \<times> (kms_error + json)" where
  "do_raw E s meth path token body =
     (case send E \<lparr>hr_method = meth, hr_url = bo_addr s @ path, hr_token = token, hr_body = body\<rparr> (bo_world s) of
        (w, out) \<Rightarrow>
          (s\<lparr>bo_world := w\<rparr>,
           (case out of
              HttpError \<Rightarrow> Inl (KMSUnavailableError 0)
            | HttpRaised n \<Rightarrow> Inl (Escaped (EscHttp n))
            | Response status content \<Rightarrow>
                let rbody = take MAX_RESP_BYTES content in
                if 500 \<le> status then Inl (KMSUnavailableError status)
                else if 400 \<le> status then Inl (KMSAuthError status)
                else if rbody = [] then Inr (JObj [])
                else (case json_loads_bytes rbody of
                        Inl _ \<Rightarrow> Inl (KMSUnavailableError status)
                      | Inr v \<Rightarrow> Inr v))))"

text \<open>\<open>v.get(k)\<close>: an \<open>AttributeError\<close> unless \<open>v\<close> is an object, \<open>None\<close> for an absent key.\<close>

definition jget :: "json \<Rightarrow> pystr \<Rightarrow> escaped + json" where
  "jget v k = (case v of JObj kvs \<Rightarrow> Inr (case dget kvs k of None \<Rightarrow> JNull | Some x \<Rightarrow> x) | _ \<Rightarrow> Inl EscAttributeError)"

text \<open>\<open>v or d\<close>.\<close>

definition jor :: "json \<Rightarrow> json \<Rightarrow> json" where
  "jor v d = (if json_truthy v then v else d)"

text \<open>
  \<open>int(v)\<close>.  Of a float or a text it is Python's own number parsing, the argument \<open>num\<close> (None is its
  \<open>ValueError\<close> or \<open>OverflowError\<close>); a list or an object is a \<open>TypeError\<close>.
\<close>

definition py_int :: "(json \<Rightarrow> int option) \<Rightarrow> json \<Rightarrow> escaped + int" where
  "py_int num v = (case v of JInt i \<Rightarrow> Inr i | JBool b \<Rightarrow> Inr (if b then 1 else 0)
     | JFloat t \<Rightarrow> (case num v of None \<Rightarrow> Inl EscValueError | Some i \<Rightarrow> Inr i)
     | JStr t \<Rightarrow> (case num v of None \<Rightarrow> Inl EscValueError | Some i \<Rightarrow> Inr i)
     | _ \<Rightarrow> Inl EscTypeError)"

text \<open>The three reads of the login response; only \<open>AttributeError\<close> and \<open>TypeError\<close> are translated.\<close>

definition login_fields :: "(json \<Rightarrow> int option) \<Rightarrow> json \<Rightarrow> escaped + (json \<times> int)" where
  "login_fields num resp =
     res_bind (jget resp (py ''auth'')) (\<lambda>a.
     let auth = jor a (JObj []) in
     res_bind (jget auth (py ''client_token'')) (\<lambda>t.
     res_bind (jget auth (py ''lease_duration'')) (\<lambda>l.
     res_bind (py_int num (jor l (JInt 0))) (\<lambda>lease. Inr (jor t (JStr []), lease)))))"

definition login_body :: "'w bao \<Rightarrow> json" where
  "login_body s = JObj [(py ''role_id'', JStr (bo_role_id s)), (py ''secret_id'', JStr (bo_secret_id s))]"

definition login_locked ::
    "(json \<Rightarrow> int option) \<Rightarrow> 'w bao_env \<Rightarrow> 'w bao \<Rightarrow> 'w bao \<times> (kms_error + json)" where
  "login_locked num E s =
     (case do_raw E s POST (py ''/v1/auth/approle/login'') None (Some (login_body s)) of
        (s1, Inl e) \<Rightarrow> (s1, Inl e)
      | (s1, Inr resp) \<Rightarrow>
          (case login_fields num resp of
             Inl EscAttributeError \<Rightarrow> (s1, Inl (KMSUnavailableError 0))
           | Inl EscTypeError \<Rightarrow> (s1, Inl (KMSUnavailableError 0))
           | Inl x \<Rightarrow> (s1, Inl (Escaped x))
           | Inr (client_token, lease) \<Rightarrow>
               if \<not> json_truthy client_token then (s1, Inl (KMSUnavailableError 0))
               else let lease' = (if lease \<le> 0 then 3600 else lease) in
                 (s1\<lparr>bo_token := Some client_token, bo_expiry := monotonic E (bo_world s1) + of_int lease'\<rparr>,
                  Inr client_token)))"

definition token_fresh :: "'w bao_env \<Rightarrow> 'w bao \<Rightarrow> bool" where
  "token_fresh E s = (case bo_token s of None \<Rightarrow> False
     | Some t \<Rightarrow> json_truthy t \<and> bo_expiry s - monotonic E (bo_world s) > TOKEN_REFRESH_WINDOW)"

definition get_token ::
    "(json \<Rightarrow> int option) \<Rightarrow> 'w bao_env \<Rightarrow> 'w bao \<Rightarrow> 'w bao \<times> (kms_error + json)" where
  "get_token num E s = (if token_fresh E s then (s, Inr (the (bo_token s))) else login_locked num E s)"

text \<open>An authenticated call: a 403 drops the token and the call is made once more with a new one.\<close>

definition bao_do ::
    "(json \<Rightarrow> int option) \<Rightarrow> 'w bao_env \<Rightarrow> 'w bao \<Rightarrow> http_method \<Rightarrow> pystr \<Rightarrow> json option
      \<Rightarrow> 'w bao \<times> (kms_error + json)" where
  "bao_do num E s meth path body =
     (case get_token num E s of
        (s1, Inl e) \<Rightarrow> (s1, Inl e)
      | (s1, Inr tok) \<Rightarrow>
          (case do_raw E s1 meth path (Some tok) body of
             (s2, Inl e) \<Rightarrow>
               (if e = KMSAuthError 403 then
                  (case get_token num E (s2\<lparr>bo_token := None\<rparr>) of
                     (s3, Inl e') \<Rightarrow> (s3, Inl e')
                   | (s3, Inr tok2) \<Rightarrow> do_raw E s3 meth path (Some tok2) body)
                else (s2, Inl e))
           | (s2, Inr r) \<Rightarrow> (s2, Inr r)))"

section \<open>The protocol\<close>

text \<open>\<open>((resp.get("data") or {}).get(k))\<close>.\<close>

definition data_field :: "json \<Rightarrow> pystr \<Rightarrow> escaped + json" where
  "data_field resp k = res_bind (jget resp (py ''data'')) (\<lambda>d. jget (jor d (JObj [])) k)"

definition escape :: "escaped + 'a \<Rightarrow> kms_error + 'a" where
  "escape r = (case r of Inl x \<Rightarrow> Inl (Escaped x) | Inr v \<Rightarrow> Inr v)"

text \<open>\<open>ct.encode("ascii")\<close> of a non-empty value that may be no text.\<close>

definition encode_ct :: "json \<Rightarrow> kms_error + bytes" where
  "encode_ct v = (case v of JStr s \<Rightarrow> (case ascii_encode s of None \<Rightarrow> Inl (Escaped EscUnicodeEncode) | Some b \<Rightarrow> Inr b)
     | _ \<Rightarrow> Inl (Escaped EscAttributeError))"

text \<open>\<open>base64.b64decode\<close> of what the server answered: a \<open>ValueError\<close> is translated, a \<open>TypeError\<close> is not.\<close>

definition decode_pt :: "json \<Rightarrow> kms_error + bytes" where
  "decode_pt v = (case v of JStr s \<Rightarrow> (case b64_text s of None \<Rightarrow> Inl (KMSUnavailableError 0) | Some b \<Rightarrow> Inr b)
     | _ \<Rightarrow> Inl (Escaped EscTypeError))"

definition is_int :: "json \<Rightarrow> bool" where
  "is_int v = (case v of JInt _ \<Rightarrow> True | JBool _ \<Rightarrow> True | _ \<Rightarrow> False)"

text \<open>\<open>f"v{n}"\<close> of an \<open>int\<close>, of which \<open>bool\<close> is a subclass.\<close>

definition version_str :: "json \<Rightarrow> pystr" where
  "version_str v = py ''v'' @ (case v of JInt i \<Rightarrow> str_int i
     | JBool b \<Rightarrow> (if b then py ''True'' else py ''False'') | _ \<Rightarrow> [])"

definition encrypt_body :: "bytes \<Rightarrow> pystr \<Rightarrow> json" where
  "encrypt_body pt ctx = JObj [(py ''plaintext'', JStr (b64_encode False pt)), (py ''context'', JStr ctx)]"

definition decrypt_body :: "pystr \<Rightarrow> pystr \<Rightarrow> json" where
  "decrypt_body ct ctx = JObj [(py ''ciphertext'', JStr ct), (py ''context'', JStr ctx)]"

definition bao_wrap where
  "bao_wrap num E s key_id plaintext aad =
     (case bao_do num E s POST (py ''/v1/transit/encrypt/'' @ key_id)
             (Some (encrypt_body plaintext (b64_encode False aad))) of
        (s1, Inl e) \<Rightarrow> (s1, Inl e)
      | (s1, Inr resp) \<Rightarrow>
          (s1, res_bind (escape (data_field resp (py ''ciphertext''))) (\<lambda>ct.
                 if \<not> json_truthy ct then Inl (KMSUnavailableError 0) else encode_ct ct)))"

text \<open>The shared tail of \<open>unwrap\<close> and \<open>unwrap_dek\<close>, from the decoding of the blob on.\<close>

definition bao_decrypt where
  "bao_decrypt num E s key_name blob ctx =
     (case ascii_decode blob of None \<Rightarrow> (s, Inl (Escaped EscUnicodeDecode))
      | Some ct \<Rightarrow>
          (case bao_do num E s POST (py ''/v1/transit/decrypt/'' @ key_name) (Some (decrypt_body ct ctx)) of
             (s1, Inl e) \<Rightarrow> (s1, Inl e)
           | (s1, Inr resp) \<Rightarrow>
               (s1, res_bind (escape (data_field resp (py ''plaintext''))) (\<lambda>pt.
                      if \<not> json_truthy pt then Inl (KMSUnavailableError 0) else decode_pt pt))))"

definition bao_unwrap where
  "bao_unwrap num E s key_id blob aad = bao_decrypt num E s key_id blob (b64_encode False aad)"

definition bao_current_version where
  "bao_current_version num E s key_id =
     (case bao_do num E s GET (py ''/v1/transit/keys/'' @ key_id) None of
        (s1, Inl e) \<Rightarrow> (s1, Inl e)
      | (s1, Inr resp) \<Rightarrow>
          (s1, res_bind (escape (data_field resp (py ''latest_version''))) (\<lambda>v.
                 if is_int v then Inr (version_str v) else Inl (KMSUnavailableError 0))))"

text \<open>None is the \<open>UnicodeEncodeError\<close> of a name with a surrogate.\<close>

definition context_inner :: "pystr \<Rightarrow> pystr \<Rightarrow> bytes \<Rightarrow> pystr" where
  "context_inner user_id purpose aad = user_id @ [58] @ purpose @ [58] @ b64_encode False aad"

definition derived_context :: "pystr \<Rightarrow> pystr \<Rightarrow> bytes \<Rightarrow> pystr option" where
  "derived_context user_id purpose aad =
     map_option (b64_encode False) (utf8_encode (context_inner user_id purpose aad))"

definition bao_wrap_dek where
  "bao_wrap_dek num E s user_id purpose plain_dek aad =
     (case derived_context user_id purpose aad of None \<Rightarrow> (s, Inl (Escaped EscUnicodeEncode))
      | Some ctx \<Rightarrow>
          (case bao_do num E s POST (py ''/v1/transit/encrypt/'' @ bo_key_name s) (Some (encrypt_body plain_dek ctx)) of
             (s1, Inl e) \<Rightarrow> (s1, Inl e)
           | (s1, Inr resp) \<Rightarrow>
               (s1, res_bind (escape (data_field resp (py ''ciphertext''))) (\<lambda>ct.
                    res_bind (escape (data_field resp (py ''key_version''))) (\<lambda>kv.
                      if \<not> json_truthy ct \<or> \<not> is_int kv then Inl (KMSUnavailableError 0)
                      else res_bind (encode_ct ct) (\<lambda>b. Inr (b, version_str kv)))))))"

definition bao_unwrap_dek where
  "bao_unwrap_dek num E s user_id purpose wrapped aad =
     (case derived_context user_id purpose aad of None \<Rightarrow> (s, Inl (Escaped EscUnicodeEncode))
      | Some ctx \<Rightarrow> bao_decrypt num E s (bo_key_name s) wrapped ctx)"

text \<open>The tombstone; \<open>now\<close> is the formatted UTC time.\<close>

definition bao_delete_user_keys where
  "bao_delete_user_keys num E s user_id now =
     (case bao_do num E s POST (py ''/v1/secret/data/omur/shredded/'' @ user_id)
             (Some (JObj [(py ''data'', JObj [(py ''shredded_at'', JStr now),
                (py ''reason'', JStr (py ''user_erasure_request''))])])) of
        (s1, Inl e) \<Rightarrow> (s1, Inl e)
      | (s1, Inr resp) \<Rightarrow> (s1, Inr ()))"

section \<open>What a call keeps\<close>

definition same_config :: "'w bao \<Rightarrow> 'w bao \<Rightarrow> bool" where
  "same_config s s' = (bo_addr s' = bo_addr s \<and> bo_role_id s' = bo_role_id s \<and> bo_secret_id s' = bo_secret_id s
     \<and> bo_key_name s' = bo_key_name s)"

lemma same_config_refl [simp]: "same_config s s"
  by (simp add: same_config_def)

lemma same_config_trans: "same_config s s1 \<Longrightarrow> same_config s1 s2 \<Longrightarrow> same_config s s2"
  by (simp add: same_config_def)

text \<open>The cached token is never a falsy value.\<close>

definition token_inv :: "'w bao \<Rightarrow> bool" where
  "token_inv s = (\<forall>t. bo_token s = Some t \<longrightarrow> json_truthy t)"

definition keeps :: "'w bao \<Rightarrow> 'w bao \<Rightarrow> bool" where
  "keeps s s' = (token_inv s \<longrightarrow> same_config s s' \<and> token_inv s')"

lemma keeps_refl [simp]: "keeps s s"
  by (simp add: keeps_def)

lemma keeps_trans: "keeps s s1 \<Longrightarrow> keeps s1 s2 \<Longrightarrow> keeps s s2"
  using same_config_trans by (auto simp: keeps_def)

lemma same_config_upd [simp]:
  "same_config s (s1\<lparr>bo_token := t\<rparr>) = same_config s s1" "same_config s (s1\<lparr>bo_expiry := x\<rparr>) = same_config s s1"
  "same_config s (s1\<lparr>bo_world := w\<rparr>) = same_config s s1"
  by (simp_all add: same_config_def)

lemma token_inv_upd [simp]:
  "token_inv (s\<lparr>bo_token := None\<rparr>)" "token_inv (s\<lparr>bo_token := Some t\<rparr>) = json_truthy t"
  "token_inv (s\<lparr>bo_expiry := x\<rparr>) = token_inv s" "token_inv (s\<lparr>bo_world := w\<rparr>) = token_inv s"
  by (simp_all add: token_inv_def)

lemma keeps_drop: "keeps s s1 \<Longrightarrow> keeps s (s1\<lparr>bo_token := None\<rparr>)"
  by (simp add: keeps_def)

lemma keeps_world: "keeps s (s\<lparr>bo_world := w\<rparr>)"
  by (simp add: keeps_def)

lemma do_raw_state: "\<exists>w. fst (do_raw E s m p t b) = s\<lparr>bo_world := w\<rparr>"
proof -
  obtain w out where "send E \<lparr>hr_method = m, hr_url = bo_addr s @ p, hr_token = t, hr_body = b\<rparr> (bo_world s) = (w, out)"
    by fastforce
  then have "fst (do_raw E s m p t b) = s\<lparr>bo_world := w\<rparr>" by (simp only: do_raw_def prod.case fst_conv)
  then show ?thesis by blast
qed

lemma do_raw_keeps: "do_raw E s m p t b = (s', r) \<Longrightarrow> keeps s s'"
  using do_raw_state [of E s m p t b] keeps_world by auto

lemma login_cases:
  assumes "login_locked num E s = (s', r)"
  obtains (failed) e where "r = Inl e" "keeps s s'"
  | (logged_in) s1 tok lease where "r = Inr tok" "json_truthy tok" "keeps s s1" "0 < lease"
      "s' = s1\<lparr>bo_token := Some tok, bo_expiry := monotonic E (bo_world s1) + of_int lease\<rparr>"
proof -
  obtain s1 r1 where d: "do_raw E s POST (py ''/v1/auth/approle/login'') None (Some (login_body s)) = (s1, r1)"
    by fastforce
  then have k: "keeps s s1" by (rule do_raw_keeps)
  show thesis
  proof (cases r1)
    case (Inl e)
    then show thesis using failed [of e] assms d k by (simp add: login_locked_def)
  next
    case (Inr resp)
    show thesis
    proof (cases "login_fields num resp")
      case (Inl x)
      then have "s' = s1 \<and> (\<exists>e. r = Inl e)" using assms d Inr by (cases x) (auto simp: login_locked_def)
      then show thesis using failed k by blast
    next
      case (Inr f)
      obtain tok lease where f: "f = (tok, lease)" by (cases f)
      show thesis
      proof (cases "json_truthy tok")
        case False
        then show thesis using failed [of "KMSUnavailableError 0"] assms d k \<open>r1 = Inr resp\<close> Inr f by (simp add: login_locked_def)
      next
        case True
        then show thesis
          using logged_in [of tok s1 "if lease \<le> 0 then 3600 else lease"] assms d k \<open>r1 = Inr resp\<close> Inr f
          by (simp add: login_locked_def)
      qed
    qed
  qed
qed

lemma login_keeps: "login_locked num E s = (s', r) \<Longrightarrow> keeps s s'"
  by (erule login_cases) (simp_all add: keeps_def)

lemma get_token_keeps: "get_token num E s = (s', r) \<Longrightarrow> keeps s s'"
  by (auto simp: get_token_def dest: login_keeps split: if_splits)

lemma login_truthy: "login_locked num E s = (s1, Inr tok) \<Longrightarrow> json_truthy tok"
  by (erule login_cases) simp_all

lemma get_token_truthy: "get_token num E s = (s1, Inr tok) \<Longrightarrow> json_truthy tok"
  using login_truthy [of num E s s1 tok]
  by (cases "token_fresh E s") (auto simp: get_token_def token_fresh_def split: option.splits)

lemma bao_do_cases:
  assumes "bao_do num E s m p b = (s', r)"
  obtains (no_token) e where "get_token num E s = (s', Inl e)" "r = Inl e"
  | (once) s1 tok where "get_token num E s = (s1, Inr tok)" "do_raw E s1 m p (Some tok) b = (s', r)"
      "r \<noteq> Inl (KMSAuthError 403)"
  | (no_new_token) s1 tok s2 e where "get_token num E s = (s1, Inr tok)"
      "do_raw E s1 m p (Some tok) b = (s2, Inl (KMSAuthError 403))"
      "get_token num E (s2\<lparr>bo_token := None\<rparr>) = (s', Inl e)" "r = Inl e"
  | (twice) s1 tok s2 s3 tok2 where "get_token num E s = (s1, Inr tok)"
      "do_raw E s1 m p (Some tok) b = (s2, Inl (KMSAuthError 403))"
      "get_token num E (s2\<lparr>bo_token := None\<rparr>) = (s3, Inr tok2)" "do_raw E s3 m p (Some tok2) b = (s', r)"
proof -
  obtain s1 r1 where t: "get_token num E s = (s1, r1)" by fastforce
  show thesis
  proof (cases r1)
    case (Inl e)
    then show thesis using no_token assms t by (simp add: bao_do_def)
  next
    case (Inr tok)
    obtain s2 r2 where d: "do_raw E s1 m p (Some tok) b = (s2, r2)" by fastforce
    show thesis
    proof (cases "r2 = Inl (KMSAuthError 403)")
      case False
      then have "s' = s2" "r = r2" using assms t Inr d by (auto simp: bao_do_def split: sum.splits)
      with False t Inr d show thesis using once by blast
    next
      case True
      obtain s3 r3 where t3: "get_token num E (s2\<lparr>bo_token := None\<rparr>) = (s3, r3)" by fastforce
      show thesis
      proof (cases r3)
        case (Inl e)
        then have "s' = s3" "r = Inl e" using assms t Inr d True t3 by (simp_all add: bao_do_def)
        with Inl t Inr d True t3 show thesis using no_new_token by blast
      next
        case (Inr tok2)
        then have "do_raw E s3 m p (Some tok2) b = (s', r)"
          using assms t \<open>r1 = Inr tok\<close> d True t3 by (simp add: bao_do_def)
        with Inr t \<open>r1 = Inr tok\<close> d True t3 show thesis using twice by blast
      qed
    qed
  qed
qed

lemma bao_do_keeps:
  assumes "bao_do num E s m p b = (s', r)"
  shows "keeps s s'"
  using assms
proof (cases rule: bao_do_cases)
  case (no_token e)
  show ?thesis by (rule get_token_keeps [OF no_token(1)])
next
  case (once s1 tok)
  show ?thesis by (rule keeps_trans [OF get_token_keeps [OF once(1)] do_raw_keeps [OF once(2)]])
next
  case (no_new_token s1 tok s2 e)
  show ?thesis
    using get_token_keeps [OF no_new_token(1)] do_raw_keeps [OF no_new_token(2)] get_token_keeps [OF no_new_token(3)]
    by (blast intro: keeps_trans keeps_drop)
next
  case (twice s1 tok s2 s3 tok2)
  show ?thesis
    using get_token_keeps [OF twice(1)] do_raw_keeps [OF twice(2)] get_token_keeps [OF twice(3)] do_raw_keeps [OF twice(4)]
    by (blast intro: keeps_trans keeps_drop)
qed

text \<open>Where the answer of an authenticated call came from: one exchange with the server.\<close>

definition answered :: "'w bao_env \<Rightarrow> http_method \<Rightarrow> pystr \<Rightarrow> json option \<Rightarrow> json \<Rightarrow> bool" where
  "answered E m url body resp = (\<exists>tok w w' status content.
     send E \<lparr>hr_method = m, hr_url = url, hr_token = tok, hr_body = body\<rparr> w = (w', Response status content)
     \<and> status < 400 \<and> (take MAX_RESP_BYTES content = [] \<and> resp = JObj [] \<or> json_loads_bytes (take MAX_RESP_BYTES content) = Inr resp))"

lemma do_raw_answered:
  assumes "do_raw E s m p t b = (s', Inr resp)"
  shows "answered E m (bo_addr s @ p) b resp"
proof -
  obtain w' out where o: "send E \<lparr>hr_method = m, hr_url = bo_addr s @ p, hr_token = t, hr_body = b\<rparr> (bo_world s) = (w', out)"
    by fastforce
  with assms obtain status content where c: "out = Response status content" "status < 400"
    "take MAX_RESP_BYTES content = [] \<and> resp = JObj [] \<or> json_loads_bytes (take MAX_RESP_BYTES content) = Inr resp"
    by (auto simp: do_raw_def Let_def split: http_outcome.splits if_splits sum.splits)
  with o show ?thesis unfolding answered_def by blast
qed

lemma bao_do_answered:
  assumes "token_inv s" "bao_do num E s m p b = (s', Inr resp)"
  shows "answered E m (bo_addr s @ p) b resp"
  using assms(2)
proof (cases rule: bao_do_cases)
  case (once s1 tok)
  show ?thesis
    using do_raw_answered [OF once(2)] get_token_keeps [OF once(1)] assms(1) by (simp add: keeps_def same_config_def)
next
  case (twice s1 tok s2 s3 tok2)
  have "keeps s s3"
    using get_token_keeps [OF twice(1)] do_raw_keeps [OF twice(2)] get_token_keeps [OF twice(3)]
    by (blast intro: keeps_trans keeps_drop)
  then show ?thesis using do_raw_answered [OF twice(4)] assms(1) by (simp add: keeps_def same_config_def)
qed auto

section \<open>Transit as a provider of the KMS contract\<close>

text \<open>
  What the documentation of Transit promises: there is one decryption function of key name, context
  and ciphertext, an encryption answers with a ciphertext it maps to the plaintext, and a
  decryption answers with its value.  \<open>dec\<close> is that function.
\<close>

definition transit_ok :: "'w bao_env \<Rightarrow> pystr \<Rightarrow> (pystr \<Rightarrow> pystr \<Rightarrow> pystr \<Rightarrow> pystr option) \<Rightarrow> bool" where
  "transit_ok E addr dec = (\<forall>k ctx.
     (\<forall>pt ct resp. answered E POST (addr @ py ''/v1/transit/encrypt/'' @ k) (Some (encrypt_body pt ctx)) resp
        \<and> data_field resp (py ''ciphertext'') = Inr (JStr ct) \<longrightarrow> dec k ctx ct = Some (b64_encode False pt))
   \<and> (\<forall>pt ct resp. answered E POST (addr @ py ''/v1/transit/decrypt/'' @ k) (Some (decrypt_body ct ctx)) resp
        \<and> data_field resp (py ''plaintext'') = Inr (JStr pt) \<longrightarrow> dec k ctx ct = None \<or> dec k ctx ct = Some pt))"

record 'w bao_sys =
  by_num :: "json \<Rightarrow> int option"
  by_env :: "'w bao_env"
  by_dec :: "pystr \<Rightarrow> pystr \<Rightarrow> pystr \<Rightarrow> pystr option"
  by_bao :: "'w bao"

definition by_valid :: "'w bao_sys \<Rightarrow> bool" where
  "by_valid y = (token_inv (by_bao y) \<and> transit_ok (by_env y) (bo_addr (by_bao y)) (by_dec y))"

definition by_wrap_dek ::
    "'w bao_sys \<Rightarrow> pystr \<Rightarrow> pystr \<Rightarrow> bytes \<Rightarrow> bytes \<Rightarrow> 'w bao_sys \<times> (kms_error + bytes \<times> pystr)" where
  "by_wrap_dek y u p dek aad =
     (case bao_wrap_dek (by_num y) (by_env y) (by_bao y) u p dek aad of (s, r) \<Rightarrow> (y\<lparr>by_bao := s\<rparr>, r))"

definition by_unwrap_dek ::
    "'w bao_sys \<Rightarrow> pystr \<Rightarrow> pystr \<Rightarrow> bytes \<Rightarrow> bytes \<Rightarrow> 'w bao_sys \<times> (kms_error + bytes)" where
  "by_unwrap_dek y u p blob aad =
     (case bao_unwrap_dek (by_num y) (by_env y) (by_bao y) u p blob aad of (s, r) \<Rightarrow> (y\<lparr>by_bao := s\<rparr>, r))"

definition by_opens :: "'w bao_sys \<Rightarrow> pystr \<Rightarrow> pystr \<Rightarrow> bytes \<Rightarrow> bytes \<Rightarrow> bytes \<Rightarrow> bool" where
  "by_opens y u p aad blob dek = (\<exists>ctx ct. derived_context u p aad = Some ctx \<and> ascii_decode blob = Some ct
     \<and> by_dec y (bo_key_name (by_bao y)) ctx ct = Some (b64_encode False dek))"

lemma bao_wrap_dek_keeps: "bao_wrap_dek num E s u p dek aad = (s', r) \<Longrightarrow> keeps s s'"
  by (auto simp: bao_wrap_dek_def split: option.splits prod.splits sum.splits dest!: bao_do_keeps)

lemma bao_unwrap_dek_keeps: "bao_unwrap_dek num E s u p blob aad = (s', r) \<Longrightarrow> keeps s s'"
  by (auto simp: bao_unwrap_dek_def bao_decrypt_def split: option.splits prod.splits sum.splits dest!: bao_do_keeps)

lemma bao_wrap_dek_Inr:
  assumes "token_inv s" "bao_wrap_dek num E s u p dek aad = (s', Inr (blob, ver))"
  shows "\<exists>ctx ct resp. derived_context u p aad = Some ctx \<and> ascii_decode blob = Some ct
    \<and> answered E POST (bo_addr s @ py ''/v1/transit/encrypt/'' @ bo_key_name s) (Some (encrypt_body dek ctx)) resp
    \<and> data_field resp (py ''ciphertext'') = Inr (JStr ct)"
proof -
  obtain ctx resp where c: "derived_context u p aad = Some ctx"
    and d: "bao_do num E s POST (py ''/v1/transit/encrypt/'' @ bo_key_name s) (Some (encrypt_body dek ctx)) = (s', Inr resp)"
    and r: "res_bind (escape (data_field resp (py ''ciphertext''))) (\<lambda>ct.
              res_bind (escape (data_field resp (py ''key_version''))) (\<lambda>kv.
                if \<not> json_truthy ct \<or> \<not> is_int kv then Inl (KMSUnavailableError 0)
                else res_bind (encode_ct ct) (\<lambda>b. Inr (b, version_str kv)))) = Inr (blob, ver)"
    using assms(2) by (auto simp: bao_wrap_dek_def split: option.splits prod.splits sum.splits)
  from r obtain t where "data_field resp (py ''ciphertext'') = Inr (JStr t)" "ascii_encode t = Some blob"
    by (auto simp: res_bind_Inr_iff escape_def encode_ct_def split: sum.splits if_splits json.splits option.splits)
  then show ?thesis using c bao_do_answered [OF assms(1) d] ascii_decode_encode by blast
qed

lemma bao_unwrap_dek_Inr:
  assumes "token_inv s" "bao_unwrap_dek num E s u p blob aad = (s', Inr dek)"
  shows "\<exists>ctx ct pt resp. derived_context u p aad = Some ctx \<and> ascii_decode blob = Some ct \<and> b64_text pt = Some dek \<and> pt \<noteq> []
    \<and> answered E POST (bo_addr s @ py ''/v1/transit/decrypt/'' @ bo_key_name s) (Some (decrypt_body ct ctx)) resp
    \<and> data_field resp (py ''plaintext'') = Inr (JStr pt)"
proof -
  obtain ctx ct resp where c: "derived_context u p aad = Some ctx" "ascii_decode blob = Some ct"
    and d: "bao_do num E s POST (py ''/v1/transit/decrypt/'' @ bo_key_name s) (Some (decrypt_body ct ctx)) = (s', Inr resp)"
    and r: "res_bind (escape (data_field resp (py ''plaintext''))) (\<lambda>pt.
              if \<not> json_truthy pt then Inl (KMSUnavailableError 0) else decode_pt pt) = Inr dek"
    using assms(2) by (auto simp: bao_unwrap_dek_def bao_decrypt_def split: option.splits prod.splits sum.splits)
  from r obtain t where "data_field resp (py ''plaintext'') = Inr (JStr t)" "b64_text t = Some dek" "t \<noteq> []"
    by (auto simp: res_bind_Inr_iff escape_def decode_pt_def json_truthy_def split: sum.splits if_splits json.splits option.splits)
  then show ?thesis using c bao_do_answered [OF assms(1) d] by blast
qed

lemma by_unwrap_right:
  assumes "by_valid y" "by_opens y u p aad blob dek" "by_unwrap_dek y u p blob aad = (y', Inr d)"
  shows "d = dek \<and> dek \<noteq> []"
proof -
  let ?s = "by_bao y"
  have v: "token_inv ?s" "transit_ok (by_env y) (bo_addr ?s) (by_dec y)" using assms(1) by (auto simp: by_valid_def)
  obtain s' where "bao_unwrap_dek (by_num y) (by_env y) ?s u p blob aad = (s', Inr d)"
    using assms(3) by (auto simp: by_unwrap_dek_def split: prod.splits)
  from bao_unwrap_dek_Inr [OF v(1) this] obtain ctx ct pt resp where r: "derived_context u p aad = Some ctx"
    "ascii_decode blob = Some ct" "b64_text pt = Some d" "pt \<noteq> []"
    "answered (by_env y) POST (bo_addr ?s @ py ''/v1/transit/decrypt/'' @ bo_key_name ?s) (Some (decrypt_body ct ctx)) resp"
    "data_field resp (py ''plaintext'') = Inr (JStr pt)" by blast
  have "by_dec y (bo_key_name ?s) ctx ct = Some (b64_encode False dek)"
    using assms(2) r(1,2) by (auto simp: by_opens_def)
  moreover have "by_dec y (bo_key_name ?s) ctx ct = None \<or> by_dec y (bo_key_name ?s) ctx ct = Some pt"
    using v(2) r(5,6) unfolding transit_ok_def by blast
  ultimately have pt: "pt = b64_encode False dek" by simp
  with r(3,4) show ?thesis by auto
qed

text \<open>What the two operations do to the whole, from which the laws of the contract follow.\<close>

lemma by_keeps:
  "by_valid y \<Longrightarrow> keeps (by_bao y) s \<Longrightarrow> by_valid (y\<lparr>by_bao := s\<rparr>)"
  "by_valid y \<Longrightarrow> keeps (by_bao y) s \<Longrightarrow> by_opens (y\<lparr>by_bao := s\<rparr>) u p aad blob dek = by_opens y u p aad blob dek"
  by (auto simp: by_valid_def keeps_def same_config_def by_opens_def)

lemma by_wrap_dekE:
  obtains s where "fst (by_wrap_dek y u p dek aad) = y\<lparr>by_bao := s\<rparr>" "keeps (by_bao y) s"
  using bao_wrap_dek_keeps by (fastforce simp: by_wrap_dek_def split: prod.splits)

lemma by_unwrap_dekE:
  obtains s where "fst (by_unwrap_dek y u p blob aad) = y\<lparr>by_bao := s\<rparr>" "keeps (by_bao y) s"
  using bao_unwrap_dek_keeps by (fastforce simp: by_unwrap_dek_def split: prod.splits)

lemma by_wrap_opens:
  assumes "by_valid y" "by_wrap_dek y u p dek aad = (y', Inr (blob, ver))"
  shows "by_opens y' u p aad blob dek"
proof -
  let ?s = "by_bao y"
  have v: "token_inv ?s" "transit_ok (by_env y) (bo_addr ?s) (by_dec y)" using assms(1) by (auto simp: by_valid_def)
  obtain s' where w: "bao_wrap_dek (by_num y) (by_env y) ?s u p dek aad = (s', Inr (blob, ver))" "y' = y\<lparr>by_bao := s'\<rparr>"
    using assms(2) by (auto simp: by_wrap_dek_def split: prod.splits)
  obtain ctx ct resp where r: "derived_context u p aad = Some ctx" "ascii_decode blob = Some ct"
    "answered (by_env y) POST (bo_addr ?s @ py ''/v1/transit/encrypt/'' @ bo_key_name ?s) (Some (encrypt_body dek ctx)) resp"
    "data_field resp (py ''ciphertext'') = Inr (JStr ct)"
    using bao_wrap_dek_Inr [OF v(1) w(1)] by blast
  have "by_dec y (bo_key_name ?s) ctx ct = Some (b64_encode False dek)"
    using v(2) r(3,4) unfolding transit_ok_def by blast
  with r have "by_opens y u p aad blob dek" unfolding by_opens_def by blast
  then show ?thesis using by_keeps(2) [OF assms(1) bao_wrap_dek_keeps [OF w(1)]] w(2) by simp
qed

interpretation bao: kms by_valid by_wrap_dek by_unwrap_dek by_opens
proof (unfold_locales, goal_cases)
  case (1 s u p dek aad)
  then show ?case using by_wrap_dekE [of s u p dek aad] by_keeps(1) by metis
next
  case (2 s u p blob aad)
  then show ?case using by_unwrap_dekE [of s u p blob aad] by_keeps(1) by metis
next
  case (3 y u p dek aad y' blob ver)
  then show ?case by (rule by_wrap_opens)
next
  case (4 y u p aad blob dek u' p' dek' aad')
  then show ?case using by_wrap_dekE [of y u' p' dek' aad'] by_keeps(2) by metis
next
  case (5 y u p aad blob dek u' p' blob' aad')
  then show ?case using by_unwrap_dekE [of y u' p' blob' aad'] by_keeps(2) by metis
next
  case 6
  then show ?case using by_unwrap_right by blast
qed

section \<open>The requests a call makes\<close>

text \<open>The same surroundings with a log of the requests.\<close>

definition traced :: "'w bao_env \<Rightarrow> (http_request list \<times> 'w) bao_env" where
  "traced E = \<lparr>send = (\<lambda>r (tr, w). case send E r w of (w', out) \<Rightarrow> ((tr @ [r], w'), out)),
     monotonic = (\<lambda>(tr, w). monotonic E w)\<rparr>"

abbreviation log :: "(http_request list \<times> 'w) bao \<Rightarrow> http_request list" where
  "log s \<equiv> fst (bo_world s)"

definition login_req :: "'w bao \<Rightarrow> http_request" where
  "login_req s = \<lparr>hr_method = POST, hr_url = bo_addr s @ py ''/v1/auth/approle/login'', hr_token = None,
     hr_body = Some (login_body s)\<rparr>"

definition call_req :: "'w bao \<Rightarrow> http_method \<Rightarrow> pystr \<Rightarrow> json option \<Rightarrow> json \<Rightarrow> http_request" where
  "call_req s m p b tok = \<lparr>hr_method = m, hr_url = bo_addr s @ p, hr_token = Some tok, hr_body = b\<rparr>"

lemma do_raw_log:
  assumes "do_raw (traced E) s m p t b = (s', r)"
  shows "log s' = log s @ [\<lparr>hr_method = m, hr_url = bo_addr s @ p, hr_token = t, hr_body = b\<rparr>]"
proof -
  obtain tr w where w: "bo_world s = (tr, w)" by (cases "bo_world s")
  obtain w' out where "send E \<lparr>hr_method = m, hr_url = bo_addr s @ p, hr_token = t, hr_body = b\<rparr> w = (w', out)"
    by fastforce
  with assms w show ?thesis by (auto simp: do_raw_def traced_def)
qed

lemma login_log:
  assumes "login_locked num (traced E) s = (s', r)"
  shows "log s' = log s @ [login_req s]"
proof -
  obtain s1 r1 where d: "do_raw (traced E) s POST (py ''/v1/auth/approle/login'') None (Some (login_body s)) = (s1, r1)"
    by fastforce
  have "log s' = log s1" using assms d
    by (auto simp: login_locked_def Let_def split: sum.splits escaped.splits if_splits)
  then show ?thesis using do_raw_log [OF d] by (simp add: login_req_def)
qed

lemma get_token_log:
  "get_token num (traced E) s = (s', r) \<Longrightarrow> log s' = log s @ (if token_fresh (traced E) s then [] else [login_req s])"
  by (auto simp: get_token_def login_log split: if_splits)

lemma get_token_fresh: "get_token num E s = (s', Inl e) \<Longrightarrow> \<not> token_fresh E s"
  by (auto simp: get_token_def)

lemma not_fresh_dropped [simp]: "\<not> token_fresh E (s\<lparr>bo_token := None\<rparr>)"
  by (simp add: token_fresh_def)

lemma req_same_config:
  "same_config s s' \<Longrightarrow> login_req s' = login_req s" "same_config s s' \<Longrightarrow> call_req s' m p b tok = call_req s m p b tok"
  by (simp_all add: same_config_def login_req_def login_body_def call_req_def)

section \<open>Splitting a context\<close>

lemma split_at_first:
  "x @ [c] @ r = y @ [c] @ t \<Longrightarrow> c \<notin> set x \<Longrightarrow> c \<notin> set y \<Longrightarrow> x = y \<and> r = t"
proof (induction x arbitrary: y)
  case Nil
  then show ?case by (cases y) auto
next
  case (Cons a x)
  then show ?case by (cases y) auto
qed

lemma split_at_last:
  assumes "x @ c # r = y @ c # t" "c \<notin> set r" "c \<notin> set t"
  shows "x = y \<and> r = t"
proof -
  have "rev r @ [c] @ rev x = rev t @ [c] @ rev y" using arg_cong [OF assms(1), of rev] by simp
  then show ?thesis using split_at_first [of "rev r" c "rev x" "rev t" "rev y"] assms(2,3) by simp
qed

section \<open>Properties\<close>


text \<open>A server that logs in and refuses every other call.\<close>

definition refusing_env :: "unit bao_env" where
  "refusing_env = \<lparr>send = (\<lambda>r w. (w, if hr_token r = None
       then Response 200 (map byte_of (dumps_compact (JObj [(py ''auth'', JObj [(py ''client_token'', JStr (py ''t''))])])))
       else Response 403 [])), monotonic = (\<lambda>w. 0)\<rparr>"

definition example_bao :: "'w \<Rightarrow> 'w bao" where
  "example_bao w = \<lparr>bo_addr = py ''http://bao'', bo_role_id = py ''r'', bo_secret_id = py ''s'',
     bo_key_name = DEFAULT_KEY_NAME, bo_token = None, bo_expiry = 0, bo_world = w\<rparr>"


text \<open>
  A DEK wrapped through Transit never unwraps to another one, whatever calls, logins and failures
  come between, as long as the server keeps its promise; and an empty DEK, which wraps without an
  error, never unwraps: every unwrap of it raises.
\<close>

theorem openbao_dek_roundtrip:
  assumes "by_valid y" "by_wrap_dek y u p dek aad = (y1, Inr (blob, ver))"
  shows "by_unwrap_dek (bao.run y1 ops) u p blob aad = (y2, r) \<Longrightarrow> (\<exists>e. r = Inl e) \<or> (r = Inr dek \<and> dek \<noteq> [])"
proof -
  assume un: "by_unwrap_dek (bao.run y1 ops) u p blob aad = (y2, r)"
  have "by_valid y1" using bao.wrap_keeps [OF assms(1), of u p dek aad] assms(2) by simp
  moreover have "by_opens y1 u p aad blob dek" using assms by (rule bao.wrap_opens)
  ultimately have "by_valid (bao.run y1 ops)" "by_opens (bao.run y1 ops) u p aad blob dek"
    using bao.run_opens by blast+
  with un show ?thesis using by_unwrap_right by (cases r) blast+
qed

text \<open>A server that keeps the promise, with the base64 plaintext as its own ciphertext.\<close>

definition echo_answer :: "json \<Rightarrow> http_outcome" where
  "echo_answer v = (if jwf v \<and> length (dumps_compact v) \<le> MAX_RESP_BYTES
     then Response 200 (map byte_of (dumps_compact v)) else Response 500 [])"

definition echo_data :: "pystr \<Rightarrow> pystr \<Rightarrow> json" where
  "echo_data k a = JObj [(py ''data'', JObj [(if k = py ''plaintext'' then py ''ciphertext'' else py ''plaintext'', JStr a),
     (py ''key_version'', JInt 1)])]"

definition echo_login :: json where
  "echo_login = JObj [(py ''auth'', JObj [(py ''client_token'', JStr (py ''t'')), (py ''lease_duration'', JInt 60)])]"

definition echo_env :: "unit bao_env" where
  "echo_env = \<lparr>send = (\<lambda>r w. (w, case hr_token r of None \<Rightarrow> echo_answer echo_login
     | Some _ \<Rightarrow> (case hr_body r of Some (JObj ((k, JStr a) # _)) \<Rightarrow> echo_answer (echo_data k a) | _ \<Rightarrow> Response 500 []))),
     monotonic = (\<lambda>w. 0)\<rparr>"

lemma echo_answer_loads:
  "echo_answer v = Response status content \<Longrightarrow> status < 400 \<Longrightarrow>
     take MAX_RESP_BYTES content = [] \<and> resp = JObj [] \<or> json_loads_bytes (take MAX_RESP_BYTES content) = Inr resp \<Longrightarrow>
     resp = v \<or> resp = JObj []"
  by (auto simp: echo_answer_def json_loads_bytes_dumps split: if_splits)

lemma echo_transit_ok: "transit_ok echo_env addr (\<lambda>k ctx ct. Some ct)"
proof -
  have resp: "resp = echo_login \<or> resp = JObj [] \<or> resp = echo_data k a"
    if "answered echo_env m url (Some (JObj [(k, JStr a), x])) resp" for m url k a x resp
    using that echo_answer_loads by (auto simp: answered_def echo_env_def split: option.splits)
  have no: "data_field echo_login f \<noteq> Inr (JStr t)" "data_field (JObj []) f \<noteq> Inr (JStr t)" for f t
    by (simp_all add: data_field_def echo_login_def jget_def jor_def json_truthy_def)
  have yes: "data_field (echo_data k a) f = Inr (JStr t) \<Longrightarrow> t = a" for k a f t
    by (auto simp: data_field_def echo_data_def jget_def jor_def json_truthy_def split: if_splits option.splits)
  show ?thesis
    using resp no yes unfolding transit_ok_def encrypt_body_def decrypt_body_def by (metis option.inject)
qed

lemma echo_raw:
  assumes "send echo_env \<lparr>hr_method = m, hr_url = bo_addr s @ p, hr_token = t, hr_body = b\<rparr> (bo_world s) = ((), echo_answer v)"
    "jwf v" "length (dumps_compact v) \<le> MAX_RESP_BYTES" "dumps_compact v \<noteq> []"
  shows "do_raw echo_env s m p t b = (s, Inr v)"
  using assms by (simp add: do_raw_def echo_answer_def json_loads_bytes_dumps MAX_RESP_BYTES_def)

lemma echo_token: "\<exists>s' tok. get_token num echo_env s = (s', Inr tok)"
proof (cases "token_fresh echo_env s")
  case False
  have "do_raw echo_env s POST (py ''/v1/auth/approle/login'') None (Some (login_body s)) = (s, Inr echo_login)"
    by (rule echo_raw) (simp_all add: echo_env_def echo_login_def dumps_compact_def py_def esc_str_def MAX_RESP_BYTES_def
        valid_cp_def surrogate_def esc_char_def str_int_def nat_digits.simps)
  with False show ?thesis
    by (auto simp: get_token_def login_locked_def echo_login_def login_fields_def jget_def jor_def json_truthy_def py_int_def
        Let_def)
qed (simp add: get_token_def)

lemma echo_do:
  assumes "jwf (echo_data k a)" "length (dumps_compact (echo_data k a)) \<le> MAX_RESP_BYTES"
  shows "\<exists>s'. bao_do num echo_env s m p (Some (JObj ((k, JStr a) # r))) = (s', Inr (echo_data k a))"
proof -
  obtain s1 tok where t: "get_token num echo_env s = (s1, Inr tok)" using echo_token by blast
  have "do_raw echo_env s1 m p (Some tok) (Some (JObj ((k, JStr a) # r))) = (s1, Inr (echo_data k a))"
    using assms by (intro echo_raw) (simp_all add: echo_env_def echo_data_def dumps_compact_def)
  with t show ?thesis by (simp add: bao_do_def)
qed

definition example_sys :: "unit bao_sys" where
  "example_sys = \<lparr>by_num = (\<lambda>_. None), by_env = echo_env, by_dec = (\<lambda>k ctx ct. Some ct), by_bao = example_bao ()\<rparr>"

lemma example_data: "jwf (echo_data k (py ''aw==''))" "length (dumps_compact (echo_data k (py ''aw==''))) \<le> MAX_RESP_BYTES"
  by (auto simp: echo_data_def dumps_compact_def py_def esc_str_def MAX_RESP_BYTES_def valid_cp_def surrogate_def esc_char_def
      str_int_def nat_digits.simps)

lemma openbao_dek_roundtrip_witness:
  "\<exists>y1 blob ver. by_wrap_dek example_sys (py ''u'') (py ''p'') (bstr ''k'') [] = (y1, Inr (blob, ver))
     \<and> (\<forall>y2 d. by_unwrap_dek (bao.run y1 []) (py ''u'') (py ''p'') blob [] = (y2, Inr d) \<longrightarrow> d = bstr ''k'')"
proof -
  have b: "b64_encode False (bstr ''k'') = py ''aw==''"
    by (simp add: bstr_def py_def b64char_def sx1_def sx2_def)
  have v: "list_all valid_cp (context_inner (py ''u'') (py ''p'') [])"
    by (simp add: context_inner_def py_def valid_cp_def surrogate_def)
  obtain ctx where ctx: "derived_context (py ''u'') (py ''p'') [] = Some ctx"
    using utf8_encode_Some [OF v] by (auto simp: derived_context_def)
  obtain s1 where "bao_do (\<lambda>_. None) echo_env (example_bao ()) POST (py ''/v1/transit/encrypt/'' @ DEFAULT_KEY_NAME)
      (Some (encrypt_body (bstr ''k'') ctx)) = (s1, Inr (echo_data (py ''plaintext'') (py ''aw==''))) "
    unfolding encrypt_body_def b using echo_do [OF example_data] by blast
  then have "by_wrap_dek example_sys (py ''u'') (py ''p'') (bstr ''k'') [] =
      (example_sys\<lparr>by_bao := s1\<rparr>, Inr (map byte_of (py ''aw==''), py ''v1''))"
    using ctx by (simp add: by_wrap_dek_def example_sys_def bao_wrap_dek_def example_bao_def echo_data_def data_field_def
        escape_def jget_def jor_def json_truthy_def is_int_def encode_ct_def ascii_encode_def version_str_def py_def
        str_int_def nat_digits.simps)
  moreover have "by_valid example_sys"
    by (simp add: by_valid_def example_sys_def example_bao_def token_inv_def echo_transit_ok)
  ultimately show ?thesis using openbao_dek_roundtrip by blast
qed

text \<open>
  The Transit context of a triple determines the caller's AAD and the text \<open>user:purpose\<close>, and
  nothing finer: two triples share a context exactly when these agree, so users (or purposes)
  without a colon are kept apart, and users \<open>a\<close> with purpose \<open>b:c\<close> and \<open>a:b\<close> with purpose \<open>c\<close> are not.
\<close>

theorem openbao_context_exact:
  assumes "derived_context u p aad = Some ctx"
  shows "(derived_context u' p' aad' = Some ctx \<longleftrightarrow> aad = aad' \<and> u @ [58] @ p = u' @ [58] @ p')
    \<and> (58 \<notin> set u \<and> 58 \<notin> set u' \<or> 58 \<notin> set p \<and> 58 \<notin> set p' \<longrightarrow>
        (derived_context u' p' aad' = Some ctx \<longleftrightarrow> aad = aad' \<and> u = u' \<and> p = p'))"
proof -
  have b: "58 \<notin> set (b64_encode False a)" for a using set_b64_encode by blast
  obtain e where e: "utf8_encode (context_inner u p aad) = Some e" "ctx = b64_encode False e"
    using assms by (auto simp: derived_context_def)
  have "derived_context u' p' aad' = Some ctx \<longleftrightarrow> utf8_encode (context_inner u' p' aad') = Some e"
    using e b64_encode_inj by (auto simp: derived_context_def)
  also have "\<dots> \<longleftrightarrow> context_inner u' p' aad' = context_inner u p aad"
    using e utf8_encode_inj by auto
  also have "\<dots> \<longleftrightarrow> aad = aad' \<and> u @ [58] @ p = u' @ [58] @ p'"
  proof
    assume "context_inner u' p' aad' = context_inner u p aad"
    then have "(u' @ [58] @ p') @ 58 # b64_encode False aad' = (u @ [58] @ p) @ 58 # b64_encode False aad"
      by (simp add: context_inner_def)
    from split_at_last [OF this b b] show "aad = aad' \<and> u @ [58] @ p = u' @ [58] @ p'"
      using b64_encode_inj by auto
  qed (auto simp: context_inner_def)
  finally have main: "derived_context u' p' aad' = Some ctx \<longleftrightarrow> aad = aad' \<and> u @ [58] @ p = u' @ [58] @ p'" .
  moreover have "u @ [58] @ p = u' @ [58] @ p' \<longleftrightarrow> u = u' \<and> p = p'"
    if "58 \<notin> set u \<and> 58 \<notin> set u' \<or> 58 \<notin> set p \<and> 58 \<notin> set p'"
    using that split_at_first [of u 58 p u' p'] split_at_last [of u 58 p u' p'] by auto
  ultimately show ?thesis by blast
qed

lemma openbao_context_exact_witness:
  "derived_context (py ''a:b'') (py ''c'') [] = derived_context (py ''a'') (py ''b:c'') []
   \<and> derived_context (py ''a'') (py ''b'') [] \<noteq> derived_context (py ''b'') (py ''a'') []"
proof -
  have a: "list_all valid_cp (context_inner (py ''a'') (py ''b:c'') [])" "list_all valid_cp (context_inner (py ''a'') (py ''b'') [])"
    by (simp_all add: context_inner_def py_def valid_cp_def surrogate_def)
  obtain c1 where c1: "derived_context (py ''a'') (py ''b:c'') [] = Some c1"
    using utf8_encode_Some [OF a(1)] by (auto simp: derived_context_def)
  obtain c2 where c2: "derived_context (py ''a'') (py ''b'') [] = Some c2"
    using utf8_encode_Some [OF a(2)] by (auto simp: derived_context_def)
  show ?thesis
    using openbao_context_exact [OF c1, of "py ''a:b''" "py ''c''" "[]"]
      openbao_context_exact [OF c2, of "py ''b''" "py ''a''" "[]"] c1 c2 by (auto simp: py_def)
qed

end
