(* ===== verification/Tenant.thy ===== *)
theory Tenant
  imports Json Sha256
begin

text \<open>
  \<open>omkit/tenant.py\<close>: the tenant and request ids of the current context, the ASGI middleware that
  binds them for a request, the guards that put the tenant into a database transaction, and the
  hash of a tenant id for logs.  An ASGI application is a program over \<open>send\<close> and the context; it
  may catch a failing send, and may change the context variables itself.
\<close>

section \<open>The context\<close>

record tenant_ctx =
  ctx_tenant :: "pystr option"
  ctx_request :: "pystr option"

definition no_ctx :: tenant_ctx where
  "no_ctx = \<lparr>ctx_tenant = None, ctx_request = None\<rparr>"

datatype tenant_error =
    NoTenantContext
  | NotInTransaction

definition require :: "tenant_ctx \<Rightarrow> tenant_error + pystr" where
  "require ctx = (case ctx_tenant ctx of None \<Rightarrow> Inl NoTenantContext | Some tid \<Rightarrow> Inr tid)"

definition current_or_none :: "tenant_ctx \<Rightarrow> pystr option" where
  "current_or_none ctx = ctx_tenant ctx"

definition request_id :: "tenant_ctx \<Rightarrow> pystr option" where
  "request_id ctx = ctx_request ctx"

text \<open>
  \<open>with bind(tenant_id, request_id): body\<close>.  The body is any computation on the context; what it
  returns or raises is its second result, which the \<open>finally\<close> clause passes on.
\<close>

definition bind :: "pystr \<Rightarrow> pystr option \<Rightarrow> (tenant_ctx \<Rightarrow> tenant_ctx \<times> 'r) \<Rightarrow> tenant_ctx \<Rightarrow> tenant_ctx \<times> 'r" where
  "bind tenant_id rid body ctx =
     (let (tid, tid_token) = cv_set (ctx_tenant ctx) (Some tenant_id);
          (rq, rid_token) = cv_set (ctx_request ctx) rid
      in case body \<lparr>ctx_tenant = tid, ctx_request = rq\<rparr> of
           (ctx', r) \<Rightarrow> (\<lparr>ctx_tenant = cv_reset (ctx_tenant ctx') tid_token,
                          ctx_request = cv_reset (ctx_request ctx') rid_token\<rparr>, r))"

definition async_bind :: "pystr \<Rightarrow> pystr option \<Rightarrow> (tenant_ctx \<Rightarrow> tenant_ctx \<times> 'r) \<Rightarrow> tenant_ctx \<Rightarrow> tenant_ctx \<times> 'r" where
  "async_bind tenant_id rid body ctx =
     (let (tid, tid_token) = cv_set (ctx_tenant ctx) (Some tenant_id);
          (rq, rid_token) = cv_set (ctx_request ctx) rid
      in case body \<lparr>ctx_tenant = tid, ctx_request = rq\<rparr> of
           (ctx', r) \<Rightarrow> (\<lparr>ctx_tenant = cv_reset (ctx_tenant ctx') tid_token,
                          ctx_request = cv_reset (ctx_request ctx') rid_token\<rparr>, r))"

lemma bind_eq:
  "bind t r body ctx = (ctx, snd (body \<lparr>ctx_tenant = Some t, ctx_request = r\<rparr>))"
  "async_bind t r body ctx = (ctx, snd (body \<lparr>ctx_tenant = Some t, ctx_request = r\<rparr>))"
  by (simp_all add: bind_def async_bind_def om_simps split: prod.split)

section \<open>ASGI\<close>

type_synonym header = "bytes \<times> bytes"

datatype asgi_message =
    ResponseStart nat "header list option"
  | ResponseBody bytes
  | OtherMessage nat

record asgi_scope =
  sc_type :: pystr
  sc_path :: "pystr option"
  sc_headers :: "header list option"

datatype outcome = Returned | Raised nat

datatype app_prog =
    Finish
  | Throw nat
  | Emit asgi_message "bool \<Rightarrow> app_prog"
  | AskCtx "tenant_ctx \<Rightarrow> app_prog"
  | SetCtx tenant_ctx app_prog

text \<open>A \<open>send\<close> returns the server's new state and whether it returned (True) or raised.\<close>

type_synonym 's send_fn = "asgi_message \<Rightarrow> 's \<Rightarrow> 's \<times> bool"

primrec run_prog :: "'s send_fn \<Rightarrow> app_prog \<Rightarrow> tenant_ctx \<Rightarrow> 's \<Rightarrow> tenant_ctx \<times> 's \<times> outcome" where
  "run_prog snd_fn Finish ctx s = (ctx, s, Returned)"
| "run_prog snd_fn (Throw e) ctx s = (ctx, s, Raised e)"
| "run_prog snd_fn (Emit m k) ctx s = (case snd_fn m s of (s', ok) \<Rightarrow> run_prog snd_fn (k ok) ctx s')"
| "run_prog snd_fn (AskCtx k) ctx s = run_prog snd_fn (k ctx) ctx s"
| "run_prog snd_fn (SetCtx c p) ctx s = run_prog snd_fn p c s"

section \<open>The middleware\<close>

definition DEFAULT_EXCLUDE :: "pystr list" where
  "DEFAULT_EXCLUDE = [py ''/health'', py ''/healthz'', py ''/ready'', py ''/readyz'', py ''/metrics'']"

text \<open>\<open>bytes.lower()\<close>.\<close>

definition bytes_lower :: "bytes \<Rightarrow> bytes" where
  "bytes_lower bs = map (\<lambda>b. if 65 \<le> unat b \<and> unat b \<le> 90 then byte_of (unat b + 32) else b) bs"

fun get_header :: "header list \<Rightarrow> bytes \<Rightarrow> pystr option" where
  "get_header [] name = None"
| "get_header ((key, v) # hs) name = (if bytes_lower key = name then Some (latin1_decode v) else get_header hs name)"

definition validate_uuid :: "pystr \<Rightarrow> bool" where
  "validate_uuid v = valid_uuid v"

definition X_TENANT_ID :: bytes where "X_TENANT_ID = bstr ''x-tenant-id''"
definition X_REQUEST_ID :: bytes where "X_REQUEST_ID = bstr ''x-request-id''"

definition error_body :: bytes where
  "error_body = map byte_of (dumps_default (JObj [(py ''error'', JStr (py ''X-Tenant-ID header required''))]))"

definition reject_start :: asgi_message where
  "reject_start = ResponseStart 401 (Some [(bstr ''content-type'', bstr ''application/json''),
     (bstr ''content-length'', map byte_of (nat_digits (length error_body)))])"

definition reject_prog :: app_prog where
  "reject_prog = Emit reject_start (\<lambda>ok. if \<not> ok then Throw 0
     else Emit (ResponseBody error_body) (\<lambda>ok. if \<not> ok then Throw 0 else Finish))"

definition add_request_id :: "bytes \<Rightarrow> asgi_message \<Rightarrow> asgi_message" where
  "add_request_id rid m = (case m of
       ResponseStart st hs \<Rightarrow> ResponseStart st (Some ((case hs of None \<Rightarrow> [] | Some l \<Rightarrow> l) @ [(X_REQUEST_ID, rid)]))
     | _ \<Rightarrow> m)"

definition is_start :: "asgi_message \<Rightarrow> bool" where
  "is_start m = (case m of ResponseStart _ _ \<Rightarrow> True | _ \<Rightarrow> False)"

text \<open>\<open>raw_rid.encode()\<close> runs on start messages only; its failure would be the send's.\<close>

definition send_with_request_id :: "pystr \<Rightarrow> 's send_fn \<Rightarrow> 's send_fn" where
  "send_with_request_id raw_rid snd_fn m s =
     (if is_start m then (case utf8_encode raw_rid of None \<Rightarrow> (s, False) | Some rid \<Rightarrow> snd_fn (add_request_id rid m) s)
      else snd_fn m s)"

definition excluded_paths :: "pystr list option \<Rightarrow> pystr list" where
  "excluded_paths exclude_paths = (case exclude_paths of None \<Rightarrow> DEFAULT_EXCLUDE | Some ps \<Rightarrow> ps)"

definition scope_path :: "asgi_scope \<Rightarrow> pystr" where
  "scope_path sc = (case sc_path sc of None \<Rightarrow> [] | Some p \<Rightarrow> p)"

definition scope_headers :: "asgi_scope \<Rightarrow> header list" where
  "scope_headers sc = (case sc_headers sc of None \<Rightarrow> [] | Some h \<Rightarrow> h)"

text \<open>The tenant id a request carries, None when it is missing, empty or no UUID.\<close>

definition raw_tenant :: "asgi_scope \<Rightarrow> pystr option" where
  "raw_tenant sc =
     (case get_header (scope_headers sc) X_TENANT_ID of None \<Rightarrow> None
      | Some v \<Rightarrow> if v = [] \<or> \<not> validate_uuid v then None else Some v)"

definition raw_request_id :: "asgi_scope \<Rightarrow> pystr \<Rightarrow> pystr" where
  "raw_request_id sc uuid4 = (case or_none (get_header (scope_headers sc) X_REQUEST_ID) of None \<Rightarrow> uuid4 | Some r \<Rightarrow> r)"

definition tenant_call ::
    "pystr list option \<Rightarrow> (asgi_scope \<Rightarrow> app_prog) \<Rightarrow> asgi_scope \<Rightarrow> pystr \<Rightarrow> 's send_fn \<Rightarrow> tenant_ctx \<Rightarrow> 's
      \<Rightarrow> tenant_ctx \<times> 's \<times> outcome" where
  "tenant_call exclude_paths app sc uuid4 snd_fn ctx s =
     (if sc_type sc \<noteq> py ''http'' then run_prog snd_fn (app sc) ctx s
      else if scope_path sc \<in> set (excluded_paths exclude_paths) then run_prog snd_fn (app sc) ctx s
      else (case raw_tenant sc of
          None \<Rightarrow> run_prog snd_fn reject_prog ctx s
        | Some raw_tid \<Rightarrow>
            let raw_rid = raw_request_id sc uuid4;
                (tid, tid_token) = cv_set (ctx_tenant ctx) (Some raw_tid);
                (rq, rid_token) = cv_set (ctx_request ctx) (Some raw_rid)
            in (case run_prog (send_with_request_id raw_rid snd_fn) (app sc) \<lparr>ctx_tenant = tid, ctx_request = rq\<rparr> s of
                  (ctx', s', out) \<Rightarrow>
                    (\<lparr>ctx_tenant = cv_reset (ctx_tenant ctx') tid_token, ctx_request = cv_reset (ctx_request ctx') rid_token\<rparr>,
                     s', out))))"

text \<open>The factory form: the middleware around an application.\<close>

definition middleware ::
    "pystr list option \<Rightarrow> (asgi_scope \<Rightarrow> app_prog) \<Rightarrow> asgi_scope \<Rightarrow> pystr \<Rightarrow> 's send_fn \<Rightarrow> tenant_ctx \<Rightarrow> 's
      \<Rightarrow> tenant_ctx \<times> 's \<times> outcome" where
  "middleware exclude_paths = (\<lambda>app. tenant_call exclude_paths app)"

section \<open>Row-level security\<close>

text \<open>
  A database connection: whether it is in a transaction, and the value of the \<open>app.tenant_id\<close> setting
  its statements run under.  \<open>set_config(..., true)\<close> is local to the transaction.
\<close>

record db_conn =
  in_transaction :: bool
  app_tenant_id :: "pystr option"

definition set_rls :: "tenant_ctx \<Rightarrow> db_conn \<Rightarrow> tenant_error + db_conn" where
  "set_rls ctx session =
     (if \<not> in_transaction session then Inl NotInTransaction
      else res_bind (require ctx) (\<lambda>tid. Inr (session\<lparr>app_tenant_id := Some tid\<rparr>)))"

definition set_rls_conn :: "tenant_ctx \<Rightarrow> db_conn \<Rightarrow> tenant_error + db_conn" where
  "set_rls_conn ctx conn =
     (if \<not> in_transaction conn then Inl NotInTransaction
      else res_bind (require ctx) (\<lambda>tid. Inr (conn\<lparr>app_tenant_id := Some tid\<rparr>)))"

text \<open>The life of a pooled connection: transactions begin and end, and the two guards are called.\<close>

inductive conn_step :: "db_conn \<Rightarrow> db_conn \<Rightarrow> bool" where
  begin_tx: "\<not> in_transaction c \<Longrightarrow> conn_step c (c\<lparr>in_transaction := True\<rparr>)"
| end_tx: "in_transaction c \<Longrightarrow> conn_step c \<lparr>in_transaction = False, app_tenant_id = None\<rparr>"
| rls_session: "set_rls ctx c = Inr c' \<Longrightarrow> conn_step c c'"
| rls_conn: "set_rls_conn ctx c = Inr c' \<Longrightarrow> conn_step c c'"

inductive_cases conn_stepE: "conn_step c c'"

definition pooled_conn :: db_conn where
  "pooled_conn = \<lparr>in_transaction = False, app_tenant_id = None\<rparr>"

section \<open>Tenant ids in logs\<close>

datatype log_hash_error =
    LogKeyMissing
  | LogKeyNotHex
  | LogKeyTooShort nat
  | TenantNotEncodable

definition log_hmac_key :: "pystr option \<Rightarrow> log_hash_error + bytes" where
  "log_hmac_key env =
     (case or_none env of None \<Rightarrow> Inl LogKeyMissing
      | Some e \<Rightarrow> (case fromhex e of None \<Rightarrow> Inl LogKeyNotHex
          | Some key \<Rightarrow> if length key < 16 then Inl (LogKeyTooShort (length key)) else Inr key))"

definition hashed_for_log :: "pystr option \<Rightarrow> pystr \<Rightarrow> bytes option \<Rightarrow> log_hash_error + pystr" where
  "hashed_for_log env tenant_id key =
     res_bind (case key of Some k \<Rightarrow> Inr k | None \<Rightarrow> log_hmac_key env) (\<lambda>k.
       (case utf8_encode tenant_id of None \<Rightarrow> Inl TenantNotEncodable
        | Some t \<Rightarrow> Inr (take 16 (bytes_hex (hmac_sha256 k t)))))"

section \<open>Lemmas\<close>

lemma run_prog_excl: "run_prog snd_fn reject_prog ctx s =
  (case snd_fn reject_start s of (s1, ok1) \<Rightarrow>
     if ok1 then (case snd_fn (ResponseBody error_body) s1 of (s2, ok2) \<Rightarrow> (ctx, s2, if ok2 then Returned else Raised 0))
     else (ctx, s1, Raised 0))"
  by (auto simp: reject_prog_def split: prod.split)

lemma tenant_call_bound:
  assumes "sc_type sc = py ''http''" "scope_path sc \<notin> set (excluded_paths ex)" "raw_tenant sc = Some t"
  shows "tenant_call ex app sc u snd_fn ctx s =
    (case run_prog (send_with_request_id (raw_request_id sc u) snd_fn) (app sc)
        \<lparr>ctx_tenant = Some t, ctx_request = Some (raw_request_id sc u)\<rparr> s of (_, s', out) \<Rightarrow> (ctx, s', out))"
  using assms by (simp add: tenant_call_def om_simps split: prod.split)

text \<open>The server that records what it is sent.\<close>

definition recorder :: "asgi_message list send_fn" where
  "recorder m s = (s @ [m], True)"

lemma run_prog_rid:
  assumes "utf8_encode rid = Some b"
  shows "run_prog (send_with_request_id rid recorder) p ctx (map (add_request_id b) s) =
    (case run_prog recorder p ctx s of (c, s', r) \<Rightarrow> (c, map (add_request_id b) s', r))"
proof (induction p arbitrary: ctx s)
  case (Emit m k)
  have "send_with_request_id rid recorder m (map (add_request_id b) s) = (map (add_request_id b) (s @ [m]), True)"
    using assms by (cases m) (simp_all add: send_with_request_id_def recorder_def is_start_def add_request_id_def)
  moreover have "recorder m s = (s @ [m], True)" by (simp add: recorder_def)
  ultimately show ?case using Emit.IH [of "k True" ctx "s @ [m]"] by simp
qed simp_all

lemma run_prog_rid_append:
  assumes "utf8_encode rid = Some b"
  shows "run_prog (send_with_request_id rid recorder) p ctx (pre @ s) =
    (case run_prog (send_with_request_id rid recorder) p ctx s of (c, s', r) \<Rightarrow> (c, pre @ s', r))"
proof (induction p arbitrary: ctx s)
  case (Emit m k)
  have "send_with_request_id rid recorder m q = (q @ [add_request_id b m], True)" for q
    using assms by (cases m) (simp_all add: send_with_request_id_def recorder_def is_start_def add_request_id_def)
  then show ?case using Emit.IH [of "k True" ctx "s @ [add_request_id b m]"] by simp
qed simp_all

lemma latin1_encodable: "\<exists>b. utf8_encode (latin1_decode v) = Some b"
proof (rule utf8_encode_Some)
  have "n < 256 \<Longrightarrow> valid_cp n" for n by (simp add: valid_cp_def surrogate_def)
  then have "valid_cp (unat b)" for b :: byte by simp
  then show "list_all valid_cp (latin1_decode v)" by (simp add: latin1_decode_def list_all_iff)
qed

lemma get_header_latin1: "get_header hs n = Some v \<Longrightarrow> \<exists>w. v = latin1_decode w"
  by (induction hs n rule: get_header.induct) (auto split: if_splits)

lemma request_id_encodable:
  assumes "list_all valid_cp u"
  shows "\<exists>b. utf8_encode (raw_request_id sc u) = Some b"
proof (cases "get_header (scope_headers sc) X_REQUEST_ID")
  case None
  then show ?thesis using utf8_encode_Some [OF assms] by (simp add: raw_request_id_def or_none_def)
next
  case (Some v)
  then show ?thesis
    using utf8_encode_Some [OF assms] get_header_latin1 [OF Some] latin1_encodable
    by (auto simp: raw_request_id_def or_none_def)
qed

lemma conn_step_tenant:
  assumes "conn_step c c'" "app_tenant_id c \<noteq> None \<longrightarrow> in_transaction c"
  shows "app_tenant_id c' \<noteq> None \<longrightarrow> in_transaction c'"
  using assms by cases (auto simp: set_rls_def set_rls_conn_def res_bind_Inr_iff split: if_splits)

section \<open>Properties\<close>

text \<open>
  C1. The gate: for an HTTP request to a path that is not excluded, the application runs only when
  the first \<open>X-Tenant-ID\<close> header is a UUID; otherwise the client gets the 401 and its body, and
  nothing of the application runs, whatever the application is.
\<close>

theorem tenant_gate_rejects:
  assumes "sc_type sc = py ''http''" "scope_path sc \<notin> set (excluded_paths ex)"
    and "\<forall>v. get_header (scope_headers sc) X_TENANT_ID = Some v \<longrightarrow> uuid_parse v = None"
  shows "tenant_call ex app sc u recorder ctx s = (ctx, s @ [reject_start, ResponseBody error_body], Returned)"
proof -
  have "raw_tenant sc = None"
    using assms(3) by (auto simp: raw_tenant_def validate_uuid_def valid_uuid_def split: option.splits)
  then show ?thesis
    using assms(1,2) by (simp add: tenant_call_def run_prog_excl recorder_def)
qed

definition example_scope :: "header list \<Rightarrow> asgi_scope" where
  "example_scope hs = \<lparr>sc_type = py ''http'', sc_path = Some (py ''/v1/docs''), sc_headers = Some hs\<rparr>"

lemma tenant_gate_rejects_witness:
  "tenant_call None (\<lambda>_. Emit (ResponseStart 200 None) (\<lambda>_. Finish)) (example_scope [(bstr ''X-Tenant-ID'', bstr ''nope'')])
     (uuid_text 0) recorder no_ctx [] = (no_ctx, [] @ [reject_start, ResponseBody error_body], Returned)"
proof (rule tenant_gate_rejects)
  show "\<forall>v. get_header (scope_headers (example_scope [(bstr ''X-Tenant-ID'', bstr ''nope'')])) X_TENANT_ID = Some v
      \<longrightarrow> uuid_parse v = None"
    by (simp add: example_scope_def scope_headers_def X_TENANT_ID_def bstr_def bytes_lower_def byte_of_def
        latin1_decode_def uuid_parse_def uuid_hex_def py_def replace_all_Cons startswith_def strip_while_def)
qed (simp_all add: example_scope_def scope_path_def excluded_paths_def DEFAULT_EXCLUDE_def)

text \<open>
  C2. Inside the gate: the application runs with exactly the tenant and request id of the request's
  headers (a fresh UUID when there is no request id) bound in the context, however the middleware
  was entered, and its result is passed on; the client sees the application's messages in order,
  each response start with the request id appended as its last header and every other message
  untouched; and both context variables have their old values afterwards, also when the
  application raised or changed them.
\<close>

theorem tenant_gate_binds:
  assumes "sc_type sc = py ''http''" "scope_path sc \<notin> set (excluded_paths ex)"
    and "get_header (scope_headers sc) X_TENANT_ID = Some t" "validate_uuid t" "t \<noteq> []"
    and "list_all valid_cp u"
  shows "\<exists>rid. utf8_encode (raw_request_id sc u) = Some rid \<and>
    (case run_prog recorder (app sc) \<lparr>ctx_tenant = Some t, ctx_request = Some (raw_request_id sc u)\<rparr> [] of (_, msgs, out) \<Rightarrow>
       tenant_call ex app sc u recorder ctx s = (ctx, s @ map (add_request_id rid) msgs, out))"
proof -
  obtain rid where r: "utf8_encode (raw_request_id sc u) = Some rid" using request_id_encodable [OF assms(6)] by blast
  have t: "raw_tenant sc = Some t" using assms(3-5) by (simp add: raw_tenant_def)
  let ?c = "\<lparr>ctx_tenant = Some t, ctx_request = Some (raw_request_id sc u)\<rparr>"
  obtain c msgs out where run: "run_prog recorder (app sc) ?c [] = (c, msgs, out)" by (metis prod_cases3)
  have "run_prog (send_with_request_id (raw_request_id sc u) recorder) (app sc) ?c [] = (c, map (add_request_id rid) msgs, out)"
    using run_prog_rid [OF r, of "app sc" ?c "[]"] run by simp
  then have "run_prog (send_with_request_id (raw_request_id sc u) recorder) (app sc) ?c s = (c, s @ map (add_request_id rid) msgs, out)"
    using run_prog_rid_append [OF r, of "app sc" ?c s "[]"] by simp
  then show ?thesis using r run tenant_call_bound [OF assms(1,2) t, of app u recorder ctx s] by simp
qed

lemma tenant_gate_binds_witness:
  "\<exists>rid. utf8_encode (raw_request_id (example_scope [(bstr ''X-Tenant-ID'', map byte_of (uuid_text 7))]) (uuid_text 0)) = Some rid \<and>
    tenant_call None (\<lambda>_. AskCtx (\<lambda>c. Emit (ResponseStart 204 None) (\<lambda>_. Throw 3)))
      (example_scope [(bstr ''X-Tenant-ID'', map byte_of (uuid_text 7))]) (uuid_text 0) recorder no_ctx []
    = (no_ctx, [ResponseStart 204 (Some [(X_REQUEST_ID, rid)])], Raised 3)"
proof -
  let ?sc = "example_scope [(bstr ''X-Tenant-ID'', map byte_of (uuid_text 7))]"
  have lt: "list_all (\<lambda>c. c < 128) (uuid_text n)" for n using set_uuid_text [of n] by (force simp: list_all_iff)
  have "list_all (\<lambda>c. c < 256) (uuid_text n)" for n using lt [of n] by (auto simp: list_all_iff)
  then have l: "latin1_decode (map byte_of (uuid_text n)) = uuid_text n" for n
    using map_unat_byte_of [of "uuid_text n"] by (simp add: latin1_decode_def)
  have h: "get_header (scope_headers ?sc) X_TENANT_ID = Some (uuid_text 7)"
    by (simp add: example_scope_def scope_headers_def X_TENANT_ID_def bstr_def bytes_lower_def byte_of_def l)
  have v: "validate_uuid (uuid_text 7)" by (simp add: validate_uuid_def valid_uuid_def uuid_parse_text)
  have ne: "uuid_text 7 \<noteq> []" by (simp add: uuid_text_def Let_def)
  have u: "list_all valid_cp (uuid_text 0)" using lt [of 0] by (auto simp: list_all_iff valid_cp_def surrogate_def)
  have p: "sc_type ?sc = py ''http''" "scope_path ?sc \<notin> set (excluded_paths None)"
    by (simp_all add: example_scope_def scope_path_def excluded_paths_def DEFAULT_EXCLUDE_def)
  show ?thesis
    using tenant_gate_binds [OF p h v ne u, of "\<lambda>_. AskCtx (\<lambda>c. Emit (ResponseStart 204 None) (\<lambda>_. Throw 3))" no_ctx "[]"]
    by (auto simp: recorder_def add_request_id_def)
qed

text \<open>
  \<open>bind\<close> and \<open>async_bind\<close> give the body the bound tenant and restore both variables whatever the
  body did to them and however it ended, so nested bindings never leak into each other.
\<close>

theorem bind_restores:
  "bind t r body ctx = (ctx, snd (body \<lparr>ctx_tenant = Some t, ctx_request = r\<rparr>))
   \<and> async_bind t r body ctx = bind t r body ctx
   \<and> bind t r (\<lambda>c. let (c', x) = bind t' r' inner c in (c', (x, require c'))) ctx =
       (ctx, (snd (inner \<lparr>ctx_tenant = Some t', ctx_request = r'\<rparr>), Inr t))"
  by (simp add: bind_eq require_def)



text \<open>
  A tenant's log token is sixteen lower-case hexadecimal digits, the first eight bytes of the HMAC
  of its UTF-8 under the deployment's key, and without an explicit key it is computed only under a
  key of at least sixteen bytes that the environment gives in hexadecimal.
\<close>

theorem hashed_for_log_token:
  assumes "hashed_for_log env t key = Inr h"
  shows "length h = 16 \<and> set h \<subseteq> {48..57} \<union> {97..102}
    \<and> (\<exists>k tb. utf8_encode t = Some tb \<and> h = bytes_hex (take 8 (hmac_sha256 k tb))
        \<and> (key = Some k \<or> key = None \<and> 16 \<le> length k \<and> (\<exists>e. env = Some e \<and> fromhex e = Some k)))"
proof -
  obtain k tb where k: "(case key of Some k \<Rightarrow> Inr k | None \<Rightarrow> log_hmac_key env) = Inr k"
    and tb: "utf8_encode t = Some tb" and h: "h = take 16 (bytes_hex (hmac_sha256 k tb))"
    using assms by (auto simp: hashed_for_log_def res_bind_Inr_iff split: option.splits)
  have "h = bytes_hex (take 8 (hmac_sha256 k tb))" using h take_bytes_hex [of 8 "hmac_sha256 k tb"] by simp
  moreover have "key = Some k \<or> key = None \<and> 16 \<le> length k \<and> (\<exists>e. env = Some e \<and> fromhex e = Some k)"
    using k by (auto simp: log_hmac_key_def or_none_def split: option.splits if_splits)
  ultimately show ?thesis using tb set_bytes_hex by auto
qed

lemma hashed_for_log_token_witness:
  "\<exists>h. hashed_for_log (Some (bytes_hex (replicate 16 3))) (py ''t'') None = Inr h \<and> length h = 16"
proof -
  have f: "fromhex (bytes_hex (replicate 16 3)) = Some (replicate 16 3)" by (rule fromhex_hex)
  have ne: "bytes_hex (replicate 16 3) \<noteq> []" using length_bytes_hex [of "replicate 16 3"] by force
  have "\<exists>h. hashed_for_log (Some (bytes_hex (replicate 16 3))) (py ''t'') None = Inr h"
    using f ne by (simp add: hashed_for_log_def log_hmac_key_def or_none_def py_def utf8_enc1_def)
  then show ?thesis using hashed_for_log_token by blast
qed

end
