(* ===== verification/Envelope.thy ===== *)
theory Envelope
  imports JsonRT Tenant
begin

text \<open>
  \<open>omkit/jobqueue\<close>: the envelope every task travels in (\<open>envelope.py\<close>) and the worker side of it
  (\<open>streaq.py\<close>): the serializer, the middleware that unwraps the envelope and binds its tenant, the
  enqueue helper and the metrics collector.  The coercions of the third-party \<open>pydantic\<close> are the
  record \<open>pydantic\<close>, with \<open>pydantic_ok\<close> naming what its documentation promises of them.
\<close>

section \<open>Field coercions\<close>

record pydantic =
  to_int :: "json \<Rightarrow> int option"
  to_str :: "json \<Rightarrow> pystr option"
  to_dict :: "json \<Rightarrow> (pystr \<times> json) list option"

text \<open>
  In lax mode an \<open>int\<close> field takes an integer as it is (and may take a whole float, a boolean or a
  numeric text); a \<open>str\<close> field takes texts that can be encoded, as they are, and nothing else a JSON
  document can hold; a \<open>dict[str, Any]\<close> field takes objects whose keys can be encoded, as they are.
\<close>

definition pydantic_ok :: "pydantic \<Rightarrow> bool" where
  "pydantic_ok P = ((\<forall>i. to_int P (JInt i) = Some i)
     \<and> (\<forall>s. list_all valid_cp s \<longrightarrow> to_str P (JStr s) = Some s)
     \<and> (\<forall>v s. to_str P v = Some s \<longrightarrow> v = JStr s)
     \<and> (\<forall>kvs. list_all (\<lambda>(k, _). list_all valid_cp k) kvs \<longrightarrow> to_dict P (JObj kvs) = Some kvs)
     \<and> (\<forall>v kvs. to_dict P v = Some kvs \<longrightarrow> v = JObj kvs))"

section \<open>The envelope\<close>

definition ENVELOPE_VERSION :: int where "ENVELOPE_VERSION = 1"

record envelope =
  env_version :: int
  env_tenant_id :: pystr
  env_request_id :: pystr
  env_payload :: "(pystr \<times> json) list"

datatype envelope_error =
    InvalidEnvelope
  | EnvelopeUnicodeDecode

definition validate_tenant :: "pystr \<Rightarrow> bool" where
  "validate_tenant v = valid_uuid v"

definition validate_version :: "int \<Rightarrow> bool" where
  "validate_version v = (if v < 1 then False else if v > ENVELOPE_VERSION then False else True)"

definition validate_payload :: "(pystr \<times> json) list \<Rightarrow> bool" where
  "validate_payload v = (v \<noteq> [])"

definition envelope_fields :: "pystr list" where
  "envelope_fields = [py ''version'', py ''tenant_id'', py ''request_id'', py ''payload'']"

text \<open>\<open>Envelope.model_validate(obj)\<close>, None for \<open>ValidationError\<close>: unknown keys are forbidden, three fields are required, each value is coerced and then validated.\<close>

definition model_validate :: "pydantic \<Rightarrow> (pystr \<times> json) list \<Rightarrow> envelope option" where
  "model_validate P obj =
     (if \<not> set (keys obj) \<subseteq> set envelope_fields then None
      else case (dget obj (py ''version''), dget obj (py ''tenant_id''), dget obj (py ''payload'')) of
        (Some v, Some t, Some p) \<Rightarrow>
          (case (to_int P v, to_str P t, to_dict P p,
                 case dget obj (py ''request_id'') of None \<Rightarrow> Some [] | Some r \<Rightarrow> to_str P r) of
             (Some version, Some tenant_id, Some payload, Some rid) \<Rightarrow>
               if validate_tenant tenant_id \<and> validate_version version \<and> validate_payload payload then
                 Some \<lparr>env_version = version, env_tenant_id = tenant_id, env_request_id = rid, env_payload = payload\<rparr>
               else None
           | _ \<Rightarrow> None)
      | _ \<Rightarrow> None)"

definition wrap :: "pydantic \<Rightarrow> pystr \<Rightarrow> (pystr \<times> json) list \<Rightarrow> pystr \<Rightarrow> envelope_error + bytes" where
  "wrap P tenant_id payload rid =
     (case model_validate P [(py ''version'', JInt ENVELOPE_VERSION), (py ''tenant_id'', JStr tenant_id),
             (py ''request_id'', JStr rid), (py ''payload'', JObj payload)] of
        None \<Rightarrow> Inl InvalidEnvelope
      | Some _ \<Rightarrow>
          let obj = [(py ''version'', JInt ENVELOPE_VERSION), (py ''tenant_id'', JStr tenant_id)] @
                (if rid \<noteq> [] then [(py ''request_id'', JStr rid)] else []) @ [(py ''payload'', JObj payload)]
          in Inr (map byte_of (dumps_compact (JObj obj))))"

text \<open>What \<open>unwrap\<close> accepts: raw bytes, a text, or a value that was parsed before.\<close>

datatype wire_data =
    WireBytes bytes
  | WireStr pystr
  | WireParsed json

text \<open>A parsed value that is itself a text is a \<open>str\<close> argument.\<close>

definition parse_wire :: "wire_data \<Rightarrow> envelope_error + json" where
  "parse_wire data =
     (case data of
        WireBytes bs \<Rightarrow> (case json_loads_bytes bs of Inr v \<Rightarrow> Inr v | Inl JSONDecodeError \<Rightarrow> Inl InvalidEnvelope
            | Inl UnicodeDecodeError \<Rightarrow> Inl EnvelopeUnicodeDecode)
      | WireStr s \<Rightarrow> (case loads s of Some v \<Rightarrow> Inr v | None \<Rightarrow> Inl InvalidEnvelope)
      | WireParsed (JStr s) \<Rightarrow> (case loads s of Some v \<Rightarrow> Inr v | None \<Rightarrow> Inl InvalidEnvelope)
      | WireParsed v \<Rightarrow> Inr v)"

definition unwrap :: "pydantic \<Rightarrow> wire_data \<Rightarrow> envelope_error + envelope" where
  "unwrap P data =
     res_bind (parse_wire data) (\<lambda>obj.
       (case obj of
          JObj kvs \<Rightarrow> (case model_validate P kvs of None \<Rightarrow> Inl InvalidEnvelope | Some e \<Rightarrow> Inr e)
        | _ \<Rightarrow> Inl InvalidEnvelope))"

section \<open>The worker: streaq.py\<close>

definition json_serializer :: "json \<Rightarrow> bytes" where
  "json_serializer v = map byte_of (dumps_compact v)"

definition json_deserializer :: "bytes \<Rightarrow> json_error + json" where
  "json_deserializer data = json_loads_bytes data"

definition DEFAULT_CONCURRENCY :: int where "DEFAULT_CONCURRENCY = 4"
definition DEFAULT_MAX_TRIES :: int where "DEFAULT_MAX_TRIES = 3"
definition DEFAULT_TIMEOUT_SECONDS :: int where "DEFAULT_TIMEOUT_SECONDS = 300"
definition DEFAULT_TTL :: int where "DEFAULT_TTL = 48 * 60 * 60"

text \<open>
  What \<open>make_worker\<close> hands to \<open>streaq.Worker\<close>; the extra keyword arguments may not repeat the two it
  passes itself (None is the \<open>TypeError\<close>).  A time-to-live is in seconds.
\<close>

record worker_call =
  wk_redis_url :: pystr
  wk_queue_name :: pystr
  wk_concurrency :: int
  wk_handle_signals :: bool
  wk_kwargs :: "(pystr, json) dict"

definition make_worker ::
    "pystr \<Rightarrow> pystr \<Rightarrow> int option \<Rightarrow> int option \<Rightarrow> int option \<Rightarrow> int option \<Rightarrow> bool \<Rightarrow> (pystr, json) dict \<Rightarrow> worker_call option" where
  "make_worker redis_url queue_name concurrency max_tries task_timeout_seconds ttl handle_signals worker_kwargs =
     (let n = (case concurrency of None \<Rightarrow> DEFAULT_CONCURRENCY | Some n \<Rightarrow> n);
          tries = (case max_tries of None \<Rightarrow> DEFAULT_MAX_TRIES | Some t \<Rightarrow> t);
          timeout = (case task_timeout_seconds of None \<Rightarrow> DEFAULT_TIMEOUT_SECONDS | Some t \<Rightarrow> t);
          keep = (case ttl of None \<Rightarrow> DEFAULT_TTL | Some t \<Rightarrow> t)
      in if py ''serializer'' \<in> set (keys worker_kwargs) \<or> py ''deserializer'' \<in> set (keys worker_kwargs) then None
      else Some \<lparr>wk_redis_url = redis_url, wk_queue_name = queue_name,
        wk_concurrency = n, wk_handle_signals = handle_signals, wk_kwargs = worker_kwargs\<rparr>)"

lemma make_worker_ignores_retries:
  "make_worker url q c max_tries timeout ttl h kw = make_worker url q c max_tries' timeout' ttl' h kw"
  by (simp add: make_worker_def Let_def)

text \<open>
  A task handler gets the payload and the remaining arguments and computes on the context.  The
  middleware's own failures are \<open>Inl\<close>; the handler's result, an exception included, is \<open>Inr\<close>.
\<close>

definition tenant_middleware ::
    "pydantic \<Rightarrow> ((pystr \<times> json) list \<Rightarrow> wire_data list \<Rightarrow> tenant_ctx \<Rightarrow> tenant_ctx \<times> 'r)
      \<Rightarrow> wire_data list \<Rightarrow> tenant_ctx \<Rightarrow> tenant_ctx \<times> (envelope_error + 'r)" where
  "tenant_middleware P next_handler args ctx =
     (case args of
        [] \<Rightarrow> (ctx, Inl InvalidEnvelope)
      | a # rest \<Rightarrow>
          (case unwrap P a of
             Inl e \<Rightarrow> (ctx, Inl e)
           | Inr env \<Rightarrow>
               (case bind (env_tenant_id env) None (next_handler (env_payload env) rest) ctx of
                  (ctx', r) \<Rightarrow> (ctx', Inr r))))"

text \<open>The first argument \<open>enqueue\<close> hands to \<open>task.enqueue\<close>.\<close>

definition enqueue :: "pydantic \<Rightarrow> pystr \<Rightarrow> (pystr \<times> json) list \<Rightarrow> envelope_error + json" where
  "enqueue P tenant_id payload =
     res_bind (wrap P tenant_id payload []) (\<lambda>envelope_bytes.
       (case json_loads_bytes envelope_bytes of Inr v \<Rightarrow> Inr v
        | Inl UnicodeDecodeError \<Rightarrow> Inl EnvelopeUnicodeDecode | Inl JSONDecodeError \<Rightarrow> Inl InvalidEnvelope))"

text \<open>
  Mounting the queue's admin UI on an application, which is its dependency overrides and its routers
  with their prefixes; None is the \<open>RuntimeError\<close> of a streaq without its web extra.
\<close>

record ui_app =
  ua_overrides :: "(pystr, nat) dict"
  ua_routers :: "(pystr \<times> pystr) list"

definition mount_streaq_ui :: "bool \<Rightarrow> nat \<Rightarrow> pystr option \<Rightarrow> ui_app \<Rightarrow> ui_app option" where
  "mount_streaq_ui installed worker prefix app =
     (let path = (case prefix of None \<Rightarrow> py ''/queue/ui'' | Some p \<Rightarrow> p)
      in if \<not> installed then None
         else Some (app\<lparr>ua_overrides := dset (py ''get_worker'') worker (ua_overrides app),
                ua_routers := ua_routers app @ [(py ''tasks_router'', path)]\<rparr>))"

definition STREAQ_COUNTER_KEYS :: "pystr list" where
  "STREAQ_COUNTER_KEYS = [py ''aborted'', py ''completed'', py ''failed'', py ''relinquished'', py ''retried'', py ''running'']"

text \<open>The gauges of one scrape: metric name, queue label, value (0 where the worker has no such counter).\<close>

definition streaq_collect :: "pystr option \<Rightarrow> (pystr, nat) dict option \<Rightarrow> (pystr \<times> pystr \<times> nat) list" where
  "streaq_collect queue_name counters =
     (let queue = (case queue_name of None \<Rightarrow> py ''default'' | Some q \<Rightarrow> q);
          cs = (case counters of None \<Rightarrow> [] | Some c \<Rightarrow> c)
      in map (\<lambda>k. (py ''streaq_worker_'' @ k, queue, case dget cs k of None \<Rightarrow> 0 | Some n \<Rightarrow> n)) STREAQ_COUNTER_KEYS)"

section \<open>Lemmas\<close>

lemma pydantic_okD:
  assumes "pydantic_ok P"
  shows "to_int P (JInt i) = Some i" "list_all valid_cp s \<Longrightarrow> to_str P (JStr s) = Some s"
    "to_str P v = Some s \<Longrightarrow> v = JStr s"
    "list_all (\<lambda>(k, _). list_all valid_cp k) kvs \<Longrightarrow> to_dict P (JObj kvs) = Some kvs"
    "to_dict P v = Some kvs \<Longrightarrow> v = JObj kvs"
  using assms unfolding pydantic_ok_def by blast+

lemma validate_version_iff [simp]: "validate_version v \<longleftrightarrow> v = 1"
  by (auto simp: validate_version_def ENVELOPE_VERSION_def)

lemma jwf_keys: "jwf_membs kvs \<Longrightarrow> list_all (\<lambda>(k, _). list_all valid_cp k) kvs"
  by (auto simp: jwf_membs_iff list_all_iff)

text \<open>What an accepted envelope is: exactly the fields it was read from.\<close>

lemma model_validate_Some:
  assumes "model_validate P obj = Some e"
  shows "set (keys obj) \<subseteq> set envelope_fields \<and> env_version e = 1 \<and> valid_uuid (env_tenant_id e) \<and> env_payload e \<noteq> []
    \<and> (\<exists>v t p. dget obj (py ''version'') = Some v \<and> to_int P v = Some 1
        \<and> dget obj (py ''tenant_id'') = Some t \<and> to_str P t = Some (env_tenant_id e)
        \<and> dget obj (py ''payload'') = Some p \<and> to_dict P p = Some (env_payload e))
    \<and> (case dget obj (py ''request_id'') of None \<Rightarrow> Some [] | Some r \<Rightarrow> to_str P r) = Some (env_request_id e)"
  using assms
  by (auto simp: model_validate_def validate_tenant_def validate_payload_def split: if_splits option.splits)

text \<open>The object \<open>wrap\<close> writes is accepted, with the fields it was made of.\<close>

definition wrap_obj :: "pystr \<Rightarrow> (pystr \<times> json) list \<Rightarrow> pystr \<Rightarrow> (pystr \<times> json) list" where
  "wrap_obj t payload rid = [(py ''version'', JInt ENVELOPE_VERSION), (py ''tenant_id'', JStr t)] @
     (if rid \<noteq> [] then [(py ''request_id'', JStr rid)] else []) @ [(py ''payload'', JObj payload)]"

lemma wrap_obj_valid:
  assumes "pydantic_ok P" "valid_uuid t" "list_all valid_cp t" "list_all valid_cp rid" "payload \<noteq> []" "jwf (JObj payload)"
  shows "model_validate P (wrap_obj t payload rid) =
    Some \<lparr>env_version = 1, env_tenant_id = t, env_request_id = rid, env_payload = payload\<rparr>"
  using pydantic_okD [OF assms(1)] assms(2-) jwf_keys [of payload]
  by (simp add: model_validate_def wrap_obj_def envelope_fields_def validate_tenant_def validate_payload_def ENVELOPE_VERSION_def)

lemma wrap_args_valid:
  assumes "pydantic_ok P" "valid_uuid t" "list_all valid_cp t" "list_all valid_cp rid" "payload \<noteq> []" "jwf (JObj payload)"
  shows "wrap P t payload rid = Inr (map byte_of (dumps_compact (JObj (wrap_obj t payload rid))))"
  using pydantic_okD [OF assms(1)] assms(2-) jwf_keys [of payload]
  by (simp add: wrap_def model_validate_def envelope_fields_def validate_tenant_def validate_payload_def
      ENVELOPE_VERSION_def wrap_obj_def Let_def)

lemma wrap_obj_jwf:
  "list_all valid_cp t \<Longrightarrow> list_all valid_cp rid \<Longrightarrow> jwf (JObj payload) \<Longrightarrow> jwf (JObj (wrap_obj t payload rid))"
  by (auto simp: wrap_obj_def py_def valid_cp_def surrogate_def)

lemma unwrap_Inr:
  assumes "unwrap P data = Inr e"
  shows "\<exists>kvs. parse_wire data = Inr (JObj kvs) \<and> model_validate P kvs = Some e"
proof -
  obtain obj where o: "parse_wire data = Inr obj" using assms by (auto simp: unwrap_def res_bind_Inr_iff)
  with assms show ?thesis by (cases obj) (auto simp: unwrap_def split: option.splits)
qed

lemma unwrap_Inl:
  assumes "unwrap P data = Inl err"
  shows "parse_wire data = Inl err \<or> err = InvalidEnvelope"
proof (cases "parse_wire data")
  case (Inr obj)
  with assms show ?thesis by (cases obj) (auto simp: unwrap_def split: option.splits)
qed (use assms in \<open>simp add: unwrap_def\<close>)

lemma parse_wire_Inl:
  assumes "parse_wire data = Inl err"
  shows "err = InvalidEnvelope
    \<or> err = EnvelopeUnicodeDecode \<and> (\<exists>bs. data = WireBytes bs \<and> json_loads_bytes bs = Inl UnicodeDecodeError)"
proof (cases data)
  case (WireBytes bs)
  with assms show ?thesis by (auto simp: parse_wire_def split: sum.splits json_error.splits)
next
  case (WireStr s)
  with assms show ?thesis by (auto simp: parse_wire_def split: option.splits)
next
  case (WireParsed v)
  with assms show ?thesis by (cases v) (auto simp: parse_wire_def split: option.splits)
qed

lemma wrapped_unwraps:
  assumes "pydantic_ok P" "valid_uuid t" "list_all valid_cp t" "list_all valid_cp rid" "payload \<noteq> []" "jwf (JObj payload)"
    and "wrap P t payload rid = Inr bs"
  shows "unwrap P (WireBytes bs) = Inr \<lparr>env_version = 1, env_tenant_id = t, env_request_id = rid, env_payload = payload\<rparr>"
proof -
  have "jwf (JObj (wrap_obj t payload rid))" using wrap_obj_jwf assms(3,4,6) by blast
  then show ?thesis
    using wrap_args_valid [OF assms(1-6)] wrap_obj_valid [OF assms(1-6)] assms(7) json_loads_bytes_dumps
    by (simp add: unwrap_def parse_wire_def)
qed

text \<open>The value that is enqueued, and what the worker reads from it.\<close>

lemma enqueue_value:
  assumes "pydantic_ok P" "valid_uuid t" "list_all valid_cp t" "payload \<noteq> []" "jwf (JObj payload)"
  shows "enqueue P t payload = Inr (JObj (wrap_obj t payload []))"
proof -
  let ?v = "JObj (wrap_obj t payload [])"
  have v: "jwf ?v" using wrap_obj_jwf [of t "[]" payload] assms by simp
  have w: "wrap P t payload [] = Inr (map byte_of (dumps_compact ?v))"
    using wrap_args_valid [OF assms(1-3) _ assms(4,5), of "[]"] by simp
  show ?thesis by (simp add: enqueue_def w json_loads_bytes_dumps [OF v])
qed

lemma enqueued_unwraps:
  assumes "pydantic_ok P" "valid_uuid t" "list_all valid_cp t" "payload \<noteq> []" "jwf (JObj payload)"
  shows "unwrap P (WireParsed (JObj (wrap_obj t payload []))) =
    Inr \<lparr>env_version = 1, env_tenant_id = t, env_request_id = [], env_payload = payload\<rparr>"
  using wrap_obj_valid [OF assms(1-3) _ assms(4,5), of "[]"] by (simp add: unwrap_def parse_wire_def)

section \<open>Properties\<close>

text \<open>
  C3. What \<open>wrap\<close> writes, \<open>unwrap\<close> reads back with the same tenant, request id and payload, for every
  UUID, request id and non-empty JSON payload, as bytes, as the text of the bytes, or parsed before.
\<close>

theorem envelope_roundtrip:
  assumes "pydantic_ok P" "valid_uuid t" "list_all valid_cp t" "list_all valid_cp rid" "payload \<noteq> []" "jwf (JObj payload)"
  shows "\<exists>bs. wrap P t payload rid = Inr bs
    \<and> (\<forall>data \<in> {WireBytes bs, WireStr (map unat bs), WireParsed (JObj (wrap_obj t payload rid))}. unwrap P data =
        Inr \<lparr>env_version = ENVELOPE_VERSION, env_tenant_id = t, env_request_id = rid, env_payload = payload\<rparr>)"
proof -
  let ?v = "JObj (wrap_obj t payload rid)"
  have v: "jwf ?v" using wrap_obj_jwf assms by blast
  have "list_all (\<lambda>c. c < 256) (dumps_compact ?v)" using ascii_dumps_compact [OF v] by (auto simp: list_all_iff)
  then have "map unat (map byte_of (dumps_compact ?v)) = dumps_compact ?v" using map_unat_byte_of by simp
  then show ?thesis
    using wrap_args_valid [OF assms] wrap_obj_valid [OF assms] json_loads_bytes_dumps [OF v] loads_dumps_compact [OF v]
    by (simp add: unwrap_def parse_wire_def ENVELOPE_VERSION_def)
qed

definition strict_pydantic :: pydantic where
  "strict_pydantic = \<lparr>to_int = (\<lambda>v. case v of JInt i \<Rightarrow> Some i | _ \<Rightarrow> None),
     to_str = (\<lambda>v. case v of JStr s \<Rightarrow> if list_all valid_cp s then Some s else None | _ \<Rightarrow> None),
     to_dict = (\<lambda>v. case v of JObj kvs \<Rightarrow> Some kvs | _ \<Rightarrow> None)\<rparr>"

lemma strict_pydantic_ok: "pydantic_ok strict_pydantic"
  by (auto simp: pydantic_ok_def strict_pydantic_def split: json.splits if_splits)

lemma uuid_text_valid [simp]: "n < 2 ^ 128 \<Longrightarrow> valid_uuid (uuid_text n)"
  by (simp add: valid_uuid_def uuid_parse_text)

lemma uuid_text_valid_cp [simp]: "list_all valid_cp (uuid_text n)"
  using set_uuid_text [of n] by (force simp: list_all_iff valid_cp_def surrogate_def)

lemma envelope_roundtrip_witness:
  "\<exists>bs. wrap strict_pydantic (uuid_text 17) [(py ''doc_id'', JStr (py ''abc''))] (py ''r'') = Inr bs
    \<and> (\<forall>data \<in> {WireBytes bs, WireStr (map unat bs),
          WireParsed (JObj (wrap_obj (uuid_text 17) [(py ''doc_id'', JStr (py ''abc''))] (py ''r'')))}.
        unwrap strict_pydantic data = Inr \<lparr>env_version = ENVELOPE_VERSION, env_tenant_id = uuid_text 17,
          env_request_id = py ''r'', env_payload = [(py ''doc_id'', JStr (py ''abc''))]\<rparr>)"
  by (rule envelope_roundtrip [OF strict_pydantic_ok]) (simp_all add: py_def valid_cp_def surrogate_def)

lemma concat_esc_plain: "\<forall>c \<in> set xs. esc_char c = [c] \<Longrightarrow> concat (map esc_char xs) = xs"
  by (induction xs) auto

text \<open>
  The bytes on the wire, field for field: compact separators, the version first, the tenant, the
  request id only when it is not empty, the payload last; for a canonical tenant id nothing in it is
  escaped.  This is the layout the Go workers parse.
\<close>

theorem envelope_wire_format:
  assumes "pydantic_ok P" "n < 2 ^ 128" "list_all valid_cp rid" "payload \<noteq> []" "jwf (JObj payload)"
  shows "wrap P (uuid_text n) payload rid = Inr (map byte_of
    (py ''{\"version\":1,\"tenant_id\":\"'' @ uuid_text n @ py ''\",''
     @ (if rid = [] then [] else py ''\"request_id\":'' @ esc_str rid @ py '','')
     @ py ''\"payload\":'' @ dumps_compact (JObj payload) @ py ''}''))"
proof -
  have "esc_char c = [c]" if "c \<in> {48..57} \<union> {97..102} \<union> {45}" for c using that by (auto simp: esc_char_def)
  then have "\<forall>c \<in> set (uuid_text n). esc_char c = [c]" using set_uuid_text [of n] by blast
  then have "concat (map esc_char (uuid_text n)) = uuid_text n" by (rule concat_esc_plain)
  then have e: "esc_str (uuid_text n) = 34 # uuid_text n @ [34]" by (simp add: esc_str_def)
  have k: "esc_str (py ''version'') = py ''\"version\"''" "esc_str (py ''tenant_id'') = py ''\"tenant_id\"''"
    "esc_str (py ''request_id'') = py ''\"request_id\"''" "esc_str (py ''payload'') = py ''\"payload\"''"
    by (simp_all add: esc_str_def esc_char_def py_def)
  have "dumps_compact (JObj (wrap_obj (uuid_text n) payload rid)) =
      py ''{\"version\":1,\"tenant_id\":\"'' @ uuid_text n @ py ''\",''
     @ (if rid = [] then [] else py ''\"request_id\":'' @ esc_str rid @ py '','')
     @ py ''\"payload\":'' @ dumps_compact (JObj payload) @ py ''}''"
    by (simp add: dumps_compact_def wrap_obj_def k e ENVELOPE_VERSION_def str_int_def nat_digits.simps) (simp add: py_def)
  then show ?thesis
    using wrap_args_valid [OF assms(1) uuid_text_valid [OF assms(2)] uuid_text_valid_cp assms(3-5)] by simp
qed

text \<open>A number by its hexadecimal digits.\<close>

definition of_hex :: "nat list \<Rightarrow> nat" where
  "of_hex ds = foldl (\<lambda>n d. 16 * n + d) 0 ds"

lemma of_hex_snoc: "of_hex (ds @ [d]) = 16 * of_hex ds + d"
  by (simp add: of_hex_def)

lemma hex_width_of_hex: "list_all (\<lambda>d. d < 16) ds \<Longrightarrow> hex_width (length ds) (of_hex ds) = map hexchar ds"
  by (induction ds rule: rev_induct) (simp_all add: of_hex_snoc)

lemma of_hex_less: "list_all (\<lambda>d. d < 16) ds \<Longrightarrow> of_hex ds < 16 ^ length ds"
  by (induction ds rule: rev_induct) (simp add: of_hex_def, simp add: of_hex_snoc)

lemma replicate_numeral: "replicate (numeral k) x = x # replicate (pred_numeral k) x"
  by (simp add: numeral_eq_Suc)

lemma envelope_wire_format_witness:
  "wrap strict_pydantic (py ''11111111-1111-1111-1111-111111111111'') [(py ''doc_id'', JStr (py ''abc''))] [] = Inr (map byte_of
     (py ''{\"version\":1,\"tenant_id\":\"11111111-1111-1111-1111-111111111111\",\"payload\":{\"doc_id\":\"abc\"}}''))"
proof -
  let ?n = "of_hex (replicate 32 1)"
  have d: "list_all (\<lambda>d. d < 16) (replicate 32 (1 :: nat))" by (simp add: list_all_iff)
  have "hex_width 32 ?n = replicate 32 49" using hex_width_of_hex [OF d] by (simp add: hexchar_def)
  then have u: "uuid_text ?n = py ''11111111-1111-1111-1111-111111111111''"
    by (simp add: uuid_text_def py_def replicate_numeral)
  have "?n < 2 ^ 128" using of_hex_less [OF d] by simp
  then have "wrap strict_pydantic (uuid_text ?n) [(py ''doc_id'', JStr (py ''abc''))] [] = Inr (map byte_of
    (py ''{\"version\":1,\"tenant_id\":\"'' @ uuid_text ?n @ py ''\",''
     @ (if ([] :: pystr) = [] then [] else py ''\"request_id\":'' @ esc_str [] @ py '','')
     @ py ''\"payload\":'' @ dumps_compact (JObj [(py ''doc_id'', JStr (py ''abc''))]) @ py ''}''))"
    by (intro envelope_wire_format [OF strict_pydantic_ok]) (simp_all add: py_def valid_cp_def surrogate_def)
  moreover have "dumps_compact (JObj [(py ''doc_id'', JStr (py ''abc''))]) = py ''{\"doc_id\":\"abc\"}''"
    by (simp add: dumps_compact_def py_def esc_str_def esc_char_def)
  ultimately show ?thesis unfolding u by (simp add: py_def)
qed

text \<open>
  C12. What \<open>unwrap\<close> accepts satisfies the contract: version 1, a tenant that is a UUID, a payload that
  is not empty, no field but the four; what it refuses, it refuses with \<open>InvalidEnvelopeError\<close>,
  which the worker dead-letters, except bytes that are not decodable text, whose \<open>UnicodeDecodeError\<close>
  escapes.
\<close>

theorem unwrap_contract:
  assumes "pydantic_ok P"
  shows "(unwrap P data = Inr e \<longrightarrow> env_version e = ENVELOPE_VERSION \<and> valid_uuid (env_tenant_id e) \<and> env_payload e \<noteq> []
      \<and> (\<exists>kvs. parse_wire data = Inr (JObj kvs) \<and> set (keys kvs) \<subseteq> set envelope_fields
           \<and> dget kvs (py ''tenant_id'') = Some (JStr (env_tenant_id e))
           \<and> dget kvs (py ''payload'') = Some (JObj (env_payload e))
           \<and> (dget kvs (py ''request_id'') = Some (JStr (env_request_id e))
              \<or> dget kvs (py ''request_id'') = None \<and> env_request_id e = [])))
    \<and> (unwrap P data = Inl err \<longrightarrow> err = InvalidEnvelope
      \<or> err = EnvelopeUnicodeDecode \<and> (\<exists>bs. data = WireBytes bs \<and> json_loads_bytes bs = Inl UnicodeDecodeError))"
proof (intro conjI impI)
  assume "unwrap P data = Inr e"
  then obtain kvs where kvs: "parse_wire data = Inr (JObj kvs)" "model_validate P kvs = Some e"
    using unwrap_Inr by blast
  note m = model_validate_Some [OF kvs(2)]
  show "env_version e = ENVELOPE_VERSION" using m by (simp add: ENVELOPE_VERSION_def)
  show "valid_uuid (env_tenant_id e)" "env_payload e \<noteq> []" using m by simp_all
  have "dget kvs (py ''tenant_id'') = Some (JStr (env_tenant_id e))" "dget kvs (py ''payload'') = Some (JObj (env_payload e))"
    using m pydantic_okD(3,5) [OF assms] by auto
  moreover have "dget kvs (py ''request_id'') = Some (JStr (env_request_id e))
      \<or> dget kvs (py ''request_id'') = None \<and> env_request_id e = []"
    using m pydantic_okD(3) [OF assms] by (auto split: option.splits)
  ultimately show "\<exists>kvs. parse_wire data = Inr (JObj kvs) \<and> set (keys kvs) \<subseteq> set envelope_fields
      \<and> dget kvs (py ''tenant_id'') = Some (JStr (env_tenant_id e)) \<and> dget kvs (py ''payload'') = Some (JObj (env_payload e))
      \<and> (dget kvs (py ''request_id'') = Some (JStr (env_request_id e))
         \<or> dget kvs (py ''request_id'') = None \<and> env_request_id e = [])"
    using kvs m by blast
next
  assume "unwrap P data = Inl err"
  then show "err = InvalidEnvelope \<or> err = EnvelopeUnicodeDecode \<and> (\<exists>bs. data = WireBytes bs \<and> json_loads_bytes bs = Inl UnicodeDecodeError)"
    using unwrap_Inl parse_wire_Inl by blast
qed

lemma unwrap_contract_witness:
  "unwrap strict_pydantic (WireBytes [255]) = Inl EnvelopeUnicodeDecode
   \<and> (EnvelopeUnicodeDecode = InvalidEnvelope \<or> EnvelopeUnicodeDecode = EnvelopeUnicodeDecode \<and>
        (\<exists>bs. WireBytes [255] = WireBytes bs \<and> json_loads_bytes bs = Inl UnicodeDecodeError))"
proof -
  have "unwrap strict_pydantic (WireBytes [255]) = Inl EnvelopeUnicodeDecode"
    by (simp add: unwrap_def parse_wire_def json_loads_bytes_def detect_encoding_def Let_def startswith_def decode_as_def)
  with unwrap_contract [OF strict_pydantic_ok, of "WireBytes [255]" _ EnvelopeUnicodeDecode] show ?thesis by blast
qed

text \<open>
  C4. From the enqueuing service to the handler: the value \<open>enqueue\<close> hands to the queue makes the
  worker's middleware run the handler with exactly the payload, under exactly the tenant it was
  enqueued for; the worker's own context is what it was afterwards, whatever the handler did; and a
  task without a valid envelope never runs its handler.
\<close>

theorem enqueue_reaches_tenant:
  assumes "pydantic_ok P" "valid_uuid t" "list_all valid_cp t" "payload \<noteq> []" "jwf (JObj payload)"
  shows "\<exists>v. enqueue P t payload = Inr v
    \<and> (\<forall>handler rest ctx. tenant_middleware P handler (WireParsed v # rest) ctx =
        (ctx, Inr (snd (handler payload rest \<lparr>ctx_tenant = Some t, ctx_request = None\<rparr>))))
    \<and> (\<forall>handler a rest ctx e. unwrap P a = Inl e \<longrightarrow> tenant_middleware P handler (a # rest) ctx = (ctx, Inl e))"
  using enqueue_value [OF assms] enqueued_unwraps [OF assms] by (simp add: tenant_middleware_def bind_eq)

lemma enqueue_reaches_tenant_witness:
  "\<exists>v. enqueue strict_pydantic (uuid_text 5) [(py ''n'', JInt 1)] = Inr v
    \<and> (\<forall>rest ctx. tenant_middleware strict_pydantic (\<lambda>p r c. (no_ctx, (p, current_or_none c))) (WireParsed v # rest) ctx =
        (ctx, Inr ([(py ''n'', JInt 1)], Some (uuid_text 5))))"
proof -
  have "jwf (JObj [(py ''n'', JInt 1)])" by (simp add: py_def valid_cp_def surrogate_def)
  then have "\<exists>v. enqueue strict_pydantic (uuid_text 5) [(py ''n'', JInt 1)] = Inr v
    \<and> (\<forall>(handler :: _ \<Rightarrow> _ \<Rightarrow> _ \<Rightarrow> tenant_ctx \<times> (pystr \<times> json) list \<times> pystr option) rest ctx.
        tenant_middleware strict_pydantic handler (WireParsed v # rest) ctx =
          (ctx, Inr (snd (handler [(py ''n'', JInt 1)] rest \<lparr>ctx_tenant = Some (uuid_text 5), ctx_request = None\<rparr>))))
    \<and> (\<forall>(handler :: _ \<Rightarrow> _ \<Rightarrow> _ \<Rightarrow> tenant_ctx \<times> (pystr \<times> json) list \<times> pystr option) a rest ctx e.
        unwrap strict_pydantic a = Inl e \<longrightarrow> tenant_middleware strict_pydantic handler (a # rest) ctx = (ctx, Inl e))"
    by (intro enqueue_reaches_tenant [OF strict_pydantic_ok]) simp_all
  then show ?thesis by (auto simp: current_or_none_def)
qed

end
