(* ===== verification/Roles.thy ===== *)
theory Roles
  imports JsonRT
begin

text \<open>
  \<open>omkit/auth\<close>: the roles, their context and checks (\<open>roles.py\<close>), and the writer of the admin audit
  log (\<open>audit.py\<close>) over the table the module documents.
\<close>

section \<open>Roles: roles.py\<close>

datatype role = ADMIN | SUPPORT | USER

definition role_value :: "role \<Rightarrow> pystr" where
  "role_value r = (case r of ADMIN \<Rightarrow> py ''admin'' | SUPPORT \<Rightarrow> py ''support'' | USER \<Rightarrow> py ''user'')"

text \<open>\<open>Role(s)\<close>, None for its \<open>ValueError\<close>.\<close>

definition role_of :: "pystr \<Rightarrow> role option" where
  "role_of s = (if s = py ''admin'' then Some ADMIN else if s = py ''support'' then Some SUPPORT
     else if s = py ''user'' then Some USER else None)"

lemma role_of_value [simp]: "role_of (role_value r) = Some r"
  by (cases r) (simp_all add: role_of_def role_value_def)

lemma role_of_iff: "role_of s = Some r \<longleftrightarrow> s = role_value r"
  by (cases r) (auto simp: role_of_def role_value_def split: if_splits)

text \<open>The order of their declaration, which makes a set of roles comparable as a sorted list.\<close>

primrec role_rank :: "role \<Rightarrow> nat" where
  "role_rank ADMIN = 0"
| "role_rank SUPPORT = 1"
| "role_rank USER = 2"

lemma role_rank_inj: "role_rank r = role_rank r' \<Longrightarrow> r = r'"
  by (cases r; cases r') simp_all

instantiation role :: linorder
begin

definition less_eq_role :: "role \<Rightarrow> role \<Rightarrow> bool" where
  "less_eq_role r r' = (role_rank r \<le> role_rank r')"

definition less_role :: "role \<Rightarrow> role \<Rightarrow> bool" where
  "less_role r r' = (role_rank r < role_rank r')"

instance
  by standard (auto simp: less_eq_role_def less_role_def dest: role_rank_inj)

end

definition GROUP_TO_ROLES :: "(pystr, role list) dict" where
  "GROUP_TO_ROLES = [(py ''omur-admin'', [ADMIN]), (py ''omur-support'', [SUPPORT]), (py ''omur-user'', [USER])]"

definition group_roles :: "pystr \<Rightarrow> role list" where
  "group_roles g = (case dget GROUP_TO_ROLES g of None \<Rightarrow> [] | Some rs \<Rightarrow> rs)"

text \<open>The two nested loops: \<open>seen\<close> and \<open>out\<close> grow together.\<close>

definition add_role :: "role \<Rightarrow> role set \<times> role list \<Rightarrow> role set \<times> role list" where
  "add_role r st = (case st of (seen, out) \<Rightarrow> if r \<in> seen then (seen, out) else (insert r seen, out @ [r]))"

definition roles_from_groups :: "pystr list option \<Rightarrow> role list" where
  "roles_from_groups groups =
     (case groups of None \<Rightarrow> []
      | Some gs \<Rightarrow> if gs = [] then [] else snd (fold (\<lambda>g st. fold add_role (group_roles g) st) gs ({}, [])))"

text \<open>\<open>with_roles\<close> as a context manager around any computation on the role context.\<close>

definition with_roles :: "role list \<Rightarrow> (role list \<Rightarrow> role list \<times> 'r) \<Rightarrow> role list \<Rightarrow> role list \<times> 'r" where
  "with_roles roles body ctx =
     (let (cur, token) = cv_set ctx roles in (case body cur of (ctx', r) \<Rightarrow> (cv_reset ctx' token, r)))"

definition roles_from_context :: "role list \<Rightarrow> role list" where
  "roles_from_context ctx = ctx"

definition has_role :: "role list \<Rightarrow> role \<Rightarrow> bool" where
  "has_role ctx want = (want \<in> set ctx)"

text \<open>\<open>Inl want\<close> is \<open>RoleRequiredError(want)\<close>.\<close>

definition require_role :: "role list \<Rightarrow> role \<Rightarrow> role + unit" where
  "require_role ctx want = (if \<not> has_role ctx want then Inl want else Inr ())"

section \<open>The audit log: audit.py\<close>

record audit_entry =
  ae_role :: role
  ae_action :: pystr
  ae_target_kind :: pystr
  ae_target_id :: pystr
  ae_diff :: "json option"

record audit_row =
  ar_actor_uid :: pystr
  ar_actor_email :: "pystr option"
  ar_actor_groups :: "pystr option"
  ar_role :: pystr
  ar_action :: pystr
  ar_target_kind :: "pystr option"
  ar_target_id :: "pystr option"
  ar_diff :: "pystr option"
  ar_request_id :: "pystr option"
  ar_ip :: "pystr option"
  ar_user_agent :: "pystr option"

text \<open>The request metadata the caller extracted.\<close>

record audit_actor =
  aa_uid :: pystr
  aa_email :: "pystr option"
  aa_groups :: "pystr option"
  aa_request_id :: "pystr option"
  aa_client_ip :: "pystr option"
  aa_user_agent :: "pystr option"

datatype audit_error = AuditNilPool | AuditActionRequired | AuditRoleRequired | AuditDbError nat

definition audit_row_of :: "audit_entry \<Rightarrow> audit_actor \<Rightarrow> audit_row" where
  "audit_row_of entry a =
     \<lparr>ar_actor_uid = or_str (aa_uid a) (py ''service''), ar_actor_email = or_none (aa_email a),
      ar_actor_groups = or_none (aa_groups a), ar_role = role_value (ae_role entry), ar_action = ae_action entry,
      ar_target_kind = or_none (Some (ae_target_kind entry)), ar_target_id = or_none (Some (ae_target_id entry)),
      ar_diff = (case ae_diff entry of None \<Rightarrow> None | Some d \<Rightarrow> Some (dumps_default d)),
      ar_request_id = or_none (aa_request_id a), ar_ip = or_none (aa_client_ip a), ar_user_agent = or_none (aa_user_agent a)\<rparr>"

text \<open>
  The pool is None or the table behind it; \<open>db_error\<close> is the failure the database raises for this
  statement, if any, in which case it inserts nothing.
\<close>

definition write_audit_entry ::
    "nat option \<Rightarrow> audit_row list option \<Rightarrow> audit_entry \<Rightarrow> audit_actor \<Rightarrow> audit_error + audit_row list" where
  "write_audit_entry db_error pool entry a =
     (case pool of None \<Rightarrow> Inl AuditNilPool
      | Some table \<Rightarrow>
          if ae_action entry = [] then Inl AuditActionRequired
          else if role_value (ae_role entry) = [] then Inl AuditRoleRequired
          else (case db_error of Some n \<Rightarrow> Inl (AuditDbError n)
              | None \<Rightarrow> Inr (table @ [audit_row_of entry a])))"

text \<open>The table's own constraints: NOT NULL columns are there, and the role is one of the three.\<close>

definition audit_row_ok :: "audit_row \<Rightarrow> bool" where
  "audit_row_ok row = (ar_actor_uid row \<noteq> [] \<and> ar_action row \<noteq> [] \<and> role_of (ar_role row) \<noteq> None
     \<and> (\<forall>c \<in> {ar_actor_email row, ar_actor_groups row, ar_target_kind row, ar_target_id row, ar_request_id row,
          ar_ip row, ar_user_agent row}. c \<noteq> Some []))"

section \<open>Lemmas\<close>

lemma add_role_inv:
  "(case st of (seen, out) \<Rightarrow> seen = set out \<and> distinct out) \<Longrightarrow>
     (case add_role r st of (seen, out) \<Rightarrow> seen = set out \<and> distinct out \<and> set out = insert r (set (snd st)))"
  by (auto simp: add_role_def split: prod.splits if_splits)

lemma add_roles_inv:
  "(case st of (seen, out) \<Rightarrow> seen = set out \<and> distinct out) \<Longrightarrow>
     (case fold add_role rs st of (seen, out) \<Rightarrow> seen = set out \<and> distinct out \<and> set out = set rs \<union> set (snd st))"
proof (induction rs arbitrary: st)
  case (Cons r rs)
  obtain seen out where a: "add_role r st = (seen, out)" by fastforce
  then have i: "seen = set out" "distinct out" "set out = insert r (set (snd st))"
    using add_role_inv [OF Cons.prems, of r] by simp_all
  then show ?case using Cons.IH [of "(seen, out)"] by (auto simp: a split: prod.splits)
qed (auto split: prod.splits)

lemma groups_inv:
  "(case st of (seen, out) \<Rightarrow> seen = set out \<and> distinct out) \<Longrightarrow>
     (case fold (\<lambda>g st. fold add_role (group_roles g) st) gs st of (seen, out) \<Rightarrow>
        seen = set out \<and> distinct out \<and> set out = (\<Union>g \<in> set gs. set (group_roles g)) \<union> set (snd st))"
proof (induction gs arbitrary: st)
  case (Cons g gs)
  obtain seen out where a: "fold add_role (group_roles g) st = (seen, out)" by fastforce
  then have i: "seen = set out" "distinct out" "set out = set (group_roles g) \<union> set (snd st)"
    using add_roles_inv [OF Cons.prems, of "group_roles g"] by simp_all
  then show ?case using Cons.IH [of "(seen, out)"] by (auto simp: a split: prod.splits)
qed (auto split: prod.splits)

lemma roles_from_groups_set:
  "distinct (roles_from_groups gs) \<and>
   set (roles_from_groups gs) = (case gs of None \<Rightarrow> {} | Some l \<Rightarrow> (\<Union>g \<in> set l. set (group_roles g)))"
proof (cases gs)
  case (Some l)
  then show ?thesis
    using groups_inv [of "({}, [])" l] by (cases "l = []") (auto simp: roles_from_groups_def split: prod.splits)
qed (simp add: roles_from_groups_def)

section \<open>Properties\<close>

text \<open>
  The roles of a caller are exactly those some of its groups grants, without repetition, and
  depend only on which groups they are: the order and repetition of the group keys change nothing
  but the order of the result, and unknown keys grant nothing.
\<close>

theorem roles_from_groups_exact:
  "distinct (roles_from_groups (Some gs))
   \<and> (r \<in> set (roles_from_groups (Some gs)) \<longleftrightarrow>
       (case r of ADMIN \<Rightarrow> py ''omur-admin'' | SUPPORT \<Rightarrow> py ''omur-support'' | USER \<Rightarrow> py ''omur-user'') \<in> set gs)
   \<and> (set gs = set gs' \<longrightarrow> sort (roles_from_groups (Some gs)) = sort (roles_from_groups (Some gs')))"
proof -
  have s: "set (roles_from_groups (Some gs)) = (\<Union>g \<in> set gs. set (group_roles g))" for gs
    using roles_from_groups_set [of "Some gs"] by simp
  have g: "r \<in> set (group_roles g) \<longleftrightarrow>
      g = (case r of ADMIN \<Rightarrow> py ''omur-admin'' | SUPPORT \<Rightarrow> py ''omur-support'' | USER \<Rightarrow> py ''omur-user'')" for g
    by (cases r) (auto simp: group_roles_def GROUP_TO_ROLES_def split: if_splits)
  have "sort (roles_from_groups (Some gs)) = sort (roles_from_groups (Some gs'))" if "set gs = set gs'"
    using that roles_from_groups_set [of "Some gs"] roles_from_groups_set [of "Some gs'"]
    by (metis s sorted_list_of_set_sort_remdups distinct_remdups_id)
  then show ?thesis using roles_from_groups_set [of "Some gs"] g by (auto simp: s)
qed

lemma roles_from_groups_exact_witness:
  "sort (roles_from_groups (Some [py ''omur-user'', py ''x'', py ''omur-admin''])) =
   sort (roles_from_groups (Some [py ''omur-admin'', py ''omur-user'', py ''x'', py ''omur-user'']))"
  using roles_from_groups_exact [of "[py ''omur-user'', py ''x'', py ''omur-admin'']" USER
      "[py ''omur-admin'', py ''omur-user'', py ''x'', py ''omur-user'']"] by auto

text \<open>
  A check passes exactly for the roles \<open>with_roles\<close> attached, the failure names the missing role,
  and the roles of the surrounding context are back afterwards, whatever the body did.
\<close>

theorem with_roles_scoped:
  "with_roles rs body ctx = (ctx, snd (body rs))
   \<and> (require_role rs want = Inr () \<longleftrightarrow> want \<in> set rs)
   \<and> (require_role rs want = Inl w \<longleftrightarrow> w = want \<and> want \<notin> set rs)
   \<and> with_roles rs (\<lambda>c. (c, (has_role c want, snd (with_roles [] (\<lambda>c'. ([], has_role c' want)) c)))) ctx
       = (ctx, (want \<in> set rs, False))"
  by (auto simp: with_roles_def om_simps require_role_def has_role_def split: prod.split)

text \<open>
  An audit write either raises and leaves the table as it was, or appends exactly one row that
  meets the table's constraints, records the entry's role and action, carries NULL for every
  empty field and \<open>service\<close> for a missing actor, and whose diff loads back as the JSON it was.
\<close>

theorem audit_write_spec:
  assumes "\<forall>d. ae_diff entry = Some d \<longrightarrow> jwf d"
  shows "case write_audit_entry db_error (Some table) entry a of
      Inl e \<Rightarrow> ae_action entry = [] \<and> e = AuditActionRequired \<or> ae_action entry \<noteq> [] \<and> (\<exists>n. db_error = Some n \<and> e = AuditDbError n)
    | Inr table' \<Rightarrow> \<exists>row. table' = table @ [row] \<and> audit_row_ok row \<and> db_error = None
        \<and> role_of (ar_role row) = Some (ae_role entry) \<and> ar_action row = ae_action entry
        \<and> (aa_uid a = [] \<longrightarrow> ar_actor_uid row = py ''service'')
        \<and> map_option loads (ar_diff row) = map_option Some (ae_diff entry)"
proof -
  have ne: "role_value r \<noteq> []" for r by (cases r) (simp_all add: role_value_def)
  have nn: "or_none s \<noteq> Some []" for s by (simp add: or_none_def split: option.splits)
  have u: "or_str s (py ''service'') \<noteq> []" for s by (simp add: or_str_def)
  have d: "map_option loads (ar_diff (audit_row_of entry a)) = map_option Some (ae_diff entry)"
    using assms by (simp add: audit_row_of_def split: option.split)
  have ok: "ae_action entry \<noteq> [] \<Longrightarrow> audit_row_ok (audit_row_of entry a)"
    using nn u by (simp add: audit_row_ok_def audit_row_of_def)
  show ?thesis
  proof (cases "ae_action entry = [] \<or> db_error \<noteq> None")
    case True
    then show ?thesis using ne [of "ae_role entry"] by (auto simp: write_audit_entry_def)
  next
    case False
    then have "write_audit_entry db_error (Some table) entry a = Inr (table @ [audit_row_of entry a])"
      using ne [of "ae_role entry"] by (simp add: write_audit_entry_def)
    then show ?thesis using False ok d by (simp add: audit_row_of_def or_str_def)
  qed
qed

definition example_entry :: audit_entry where
  "example_entry = \<lparr>ae_role = ADMIN, ae_action = py ''flag.update'', ae_target_kind = py ''flag'', ae_target_id = [],
     ae_diff = Some (JObj [(py ''after'', JBool True)])\<rparr>"

definition example_actor :: audit_actor where
  "example_actor = \<lparr>aa_uid = [], aa_email = Some [], aa_groups = None, aa_request_id = None, aa_client_ip = Some (py ''::1''),
     aa_user_agent = None\<rparr>"

lemma audit_write_spec_witness:
  "\<exists>row. write_audit_entry None (Some []) example_entry example_actor = Inr [row] \<and> ar_actor_uid row = py ''service''"
proof -
  have "\<forall>d. ae_diff example_entry = Some d \<longrightarrow> jwf d"
    by (simp add: example_entry_def py_def valid_cp_def surrogate_def)
  from audit_write_spec [OF this, of None "[]" example_actor] show ?thesis
    by (auto simp: example_entry_def example_actor_def split: sum.splits)
qed

end
