(* ===== verification/Flags.thy ===== *)
theory Flags
  imports Roles Complex_Main
begin

text \<open>
  \<open>omkit/featureflags\<close>: a flag and its parser (\<open>flag.py\<close>), the two stores (\<open>store.py\<close>, \<open>postgres.py\<close>)
  and the check against the caller's roles (\<open>allowed.py\<close>).  The \<open>Store\<close> protocol is the locale
  \<open>flag_store\<close>, interpreted on both stores; the cache is also shown to refine its abstract contract,
  the last snapshot less the keys invalidated since.
\<close>

section \<open>Flags: flag.py\<close>

record flag =
  flag_enabled :: bool
  flag_roles :: "role list"

definition no_flag :: flag where
  "no_flag = \<lparr>flag_enabled = False, flag_roles = []\<rparr>"

definition KNOWN_ROLE_VALUES :: "pystr list" where
  "KNOWN_ROLE_VALUES = map role_value [ADMIN, SUPPORT, USER]"

fun validate_roles :: "pystr list \<Rightarrow> pystr" where
  "validate_roles [] = py ''''"
| "validate_roles (r # rs) = (if r \<notin> set KNOWN_ROLE_VALUES then r else validate_roles rs)"

text \<open>What a row's \<open>value_json\<close> may be: bytes, a text, a value parsed before, or something \<open>json.loads\<close> refuses.\<close>

datatype raw_flag =
    RawBytes bytes
  | RawStr pystr
  | RawDict "(pystr \<times> json) list"
  | RawOther

definition load_raw :: "raw_flag \<Rightarrow> json option" where
  "load_raw raw = (case raw of
       RawDict kvs \<Rightarrow> Some (JObj kvs)
     | RawBytes bs \<Rightarrow> (case json_loads_bytes bs of Inl _ \<Rightarrow> None | Inr v \<Rightarrow> Some v)
     | RawStr s \<Rightarrow> loads s
     | RawOther \<Rightarrow> None)"

definition parse_roles :: "json list \<Rightarrow> role list" where
  "parse_roles xs = concat (map (\<lambda>v. case v of JStr s \<Rightarrow> (case role_of s of None \<Rightarrow> [] | Some r \<Rightarrow> [r]) | _ \<Rightarrow> []) xs)"

definition parse_from_json :: "raw_flag \<Rightarrow> flag" where
  "parse_from_json raw =
     (case load_raw raw of
        Some (JObj obj) \<Rightarrow>
          (let enabled = json_truthy (case dget obj (py ''enabled'') of None \<Rightarrow> JBool False | Some v \<Rightarrow> v);
               role_strs = (case dget obj (py ''roles'') of None \<Rightarrow> JArr [] | Some v \<Rightarrow> if json_truthy v then v else JArr [])
           in case role_strs of JArr xs \<Rightarrow> \<lparr>flag_enabled = enabled, flag_roles = parse_roles xs\<rparr> | _ \<Rightarrow> no_flag)
      | _ \<Rightarrow> no_flag)"

lemma in_KNOWN_ROLE_VALUES: "s \<in> set KNOWN_ROLE_VALUES \<longleftrightarrow> role_of s \<noteq> None"
  by (auto simp: KNOWN_ROLE_VALUES_def role_of_def role_value_def)

lemma in_parse_roles: "r \<in> set (parse_roles xs) \<longleftrightarrow> JStr (role_value r) \<in> set xs"
proof -
  have "r \<in> set (parse_roles xs) \<longleftrightarrow> (\<exists>s. JStr s \<in> set xs \<and> role_of s = Some r)"
    by (force simp: parse_roles_def split: json.splits option.splits)
  then show ?thesis by (simp add: role_of_iff)
qed

section \<open>The check: allowed.py\<close>

text \<open>\<open>store.get(key)\<close> may change the store (a background refresh), so the store is threaded.\<close>

definition allowed :: "('s \<Rightarrow> pystr \<Rightarrow> 's \<times> flag option) \<Rightarrow> 's \<Rightarrow> pystr \<Rightarrow> role list \<Rightarrow> 's \<times> bool" where
  "allowed get store key ctx =
     (case get store key of
        (store', None) \<Rightarrow> (store', False)
      | (store', Some flag) \<Rightarrow>
          if \<not> flag_enabled flag then (store', False)
          else let caller_roles = roles_from_context ctx in
            if caller_roles = [] \<or> flag_roles flag = [] then (store', False)
            else (store', list_ex (\<lambda>cr. cr \<in> set (flag_roles flag)) caller_roles))"

section \<open>The Store protocol\<close>

locale flag_store =
  fixes get :: "'s \<Rightarrow> pystr \<Rightarrow> 's \<times> flag option"
    and all_flags :: "'s \<Rightarrow> 's \<times> (pystr, flag) dict"
    and flags_of :: "'s \<Rightarrow> pystr \<Rightarrow> flag option"
  assumes get_flag: "snd (get s k) = flags_of s k"
    and get_keeps: "flags_of (fst (get s k)) = flags_of s"
    and all_flags_are: "dget (snd (all_flags s)) = flags_of s"
    and all_flags_keep: "flags_of (fst (all_flags s)) = flags_of s"
begin

lemma allowed_iff:
  "snd (allowed get s k ctx) \<longleftrightarrow> (\<exists>f. flags_of s k = Some f \<and> flag_enabled f \<and> set ctx \<inter> set (flag_roles f) \<noteq> {})"
proof -
  obtain s' r where g: "get s k = (s', r)" by fastforce
  then have "r = flags_of s k" using get_flag [of s k] by simp
  with g have a: "snd (allowed get s k ctx) = (case flags_of s k of None \<Rightarrow> False
     | Some f \<Rightarrow> flag_enabled f \<and> ctx \<noteq> [] \<and> flag_roles f \<noteq> [] \<and> list_ex (\<lambda>cr. cr \<in> set (flag_roles f)) ctx)"
    by (simp add: allowed_def roles_from_context_def Let_def split: option.split)
  show ?thesis by (cases "flags_of s k") (auto simp: a list_ex_iff)
qed

lemma allowed_keeps: "flags_of (fst (allowed get s k ctx)) = flags_of s"
  using get_keeps [of s k] by (auto simp: allowed_def Let_def split: prod.splits option.splits)

lemma get_agrees: "snd (get (fst (all_flags s)) k) = dget (snd (all_flags s)) k"
  by (simp add: get_flag all_flags_keep all_flags_are)

end

section \<open>The static store: store.py\<close>

record static_store =
  ss_flags :: "(pystr, flag) dict"

definition static_init :: "(pystr, flag) dict option \<Rightarrow> static_store" where
  "static_init flags = \<lparr>ss_flags = (case flags of None \<Rightarrow> [] | Some m \<Rightarrow> m)\<rparr>"

definition static_get :: "static_store \<Rightarrow> pystr \<Rightarrow> static_store \<times> flag option" where
  "static_get s key = (s, dget (ss_flags s) key)"

definition static_refresh :: "static_store \<Rightarrow> static_store" where
  "static_refresh s = s"

definition static_all_flags :: "static_store \<Rightarrow> static_store \<times> (pystr, flag) dict" where
  "static_all_flags s = (s, ss_flags s)"

interpretation static: flag_store static_get static_all_flags "\<lambda>s. dget (ss_flags s)"
  by unfold_locales (simp_all add: static_get_def static_all_flags_def)

section \<open>The cached store: postgres.py\<close>

text \<open>
  The rows of \<open>app_settings\<close> are (key, value) pairs; the query keeps the keys that start with \<open>flag.\<close>,
  and \<open>refresh_outcome\<close> is what the awaited refresher gave: a map, or an exception.
\<close>

definition load_from_pool :: "(pystr \<times> raw_flag) list \<Rightarrow> (pystr, flag) dict" where
  "load_from_pool table =
     foldl (\<lambda>out (k, v). dset k (parse_from_json v) out) [] (filter (\<lambda>(k, v). startswith (py ''flag.'') k) table)"

definition load_for_service :: "(pystr \<times> raw_flag) list \<Rightarrow> (pystr, flag) dict" where
  "load_for_service table = load_from_pool table"

datatype refresh_outcome = RefreshRaised nat | Fetched "(pystr, flag) dict"

text \<open>\<open>pf_pending\<close> counts the refresh tasks created and not yet run.\<close>

record pg_store =
  pf_flags :: "(pystr, flag) dict"
  pf_last :: rat
  pf_ttl :: rat
  pf_pending :: nat

definition pg_init :: "rat \<Rightarrow> pg_store" where
  "pg_init ttl = \<lparr>pf_flags = [], pf_last = 0, pf_ttl = ttl, pf_pending = 0\<rparr>"

definition pg_stale :: "rat \<Rightarrow> pg_store \<Rightarrow> bool" where
  "pg_stale now s = (if pf_last s = 0 then True else now - pf_last s > pf_ttl s)"

text \<open>Without a running event loop the kick is skipped.\<close>

definition kick_refresh :: "bool \<Rightarrow> pg_store \<Rightarrow> pg_store" where
  "kick_refresh loop s = (if \<not> loop then s else s\<lparr>pf_pending := Suc (pf_pending s)\<rparr>)"

definition pg_get :: "rat \<Rightarrow> bool \<Rightarrow> pg_store \<Rightarrow> pystr \<Rightarrow> pg_store \<times> flag option" where
  "pg_get now loop s key =
     (let s' = (if pg_stale now s then kick_refresh loop s else s) in (s', dget (pf_flags s') key))"

definition pg_all_flags :: "rat \<Rightarrow> bool \<Rightarrow> pg_store \<Rightarrow> pg_store \<times> (pystr, flag) dict" where
  "pg_all_flags now loop s =
     (let s' = (if pg_stale now s then kick_refresh loop s else s) in (s', pf_flags s'))"

definition pg_refresh :: "rat \<Rightarrow> refresh_outcome \<Rightarrow> pg_store \<Rightarrow> pg_store" where
  "pg_refresh now out s = (case out of RefreshRaised _ \<Rightarrow> s | Fetched fresh \<Rightarrow> s\<lparr>pf_flags := fresh, pf_last := now\<rparr>)"

text \<open>The refresher of a store made by \<open>from_pool\<close>: the rows of the pool's table, or the exception of the query.\<close>

definition pool_refresh :: "rat \<Rightarrow> nat + (pystr \<times> raw_flag) list \<Rightarrow> pg_store \<Rightarrow> pg_store" where
  "pool_refresh now answer s =
     pg_refresh now (case answer of Inl n \<Rightarrow> RefreshRaised n | Inr table \<Rightarrow> Fetched (load_from_pool table)) s"

definition pg_invalidate :: "pystr \<Rightarrow> pg_store \<Rightarrow> pg_store" where
  "pg_invalidate key s = s\<lparr>pf_flags := dpop key (pf_flags s)\<rparr>"

interpretation pg: flag_store "pg_get now loop" "pg_all_flags now loop" "\<lambda>s. dget (pf_flags s)" for now loop
  by unfold_locales (auto simp: pg_get_def pg_all_flags_def kick_refresh_def Let_def)

section \<open>The cache as a refinement of the last snapshot\<close>

datatype flag_event =
    EvGet rat bool pystr
  | EvAll rat bool
  | EvRefresh rat refresh_outcome
  | EvInvalidate pystr

primrec flag_step :: "pg_store \<Rightarrow> flag_event \<Rightarrow> pg_store" where
  "flag_step s (EvGet now loop k) = fst (pg_get now loop s k)"
| "flag_step s (EvAll now loop) = fst (pg_all_flags now loop s)"
| "flag_step s (EvRefresh now out) = pg_refresh now out s"
| "flag_step s (EvInvalidate k) = pg_invalidate k s"

text \<open>The contract: reads and failed refreshes change nothing, a refresh installs the new snapshot,
  an invalidation removes one key until the next refresh.\<close>

primrec snapshot_step :: "(pystr \<Rightarrow> flag option) \<Rightarrow> flag_event \<Rightarrow> pystr \<Rightarrow> flag option" where
  "snapshot_step m (EvGet now loop k) = m"
| "snapshot_step m (EvAll now loop) = m"
| "snapshot_step m (EvRefresh now out) = (case out of RefreshRaised _ \<Rightarrow> m | Fetched fresh \<Rightarrow> dget fresh)"
| "snapshot_step m (EvInvalidate k) = m(k := None)"

lemma flag_step_refines: "dget (pf_flags (flag_step s e)) = snapshot_step (dget (pf_flags s)) e"
proof (cases e)
  case (EvGet now loop k)
  then show ?thesis using pg.get_keeps [of now loop s k] by simp
next
  case (EvAll now loop)
  then show ?thesis using pg.all_flags_keep [of now loop s] by simp
next
  case (EvRefresh now out)
  then show ?thesis by (simp add: pg_refresh_def split: refresh_outcome.split)
next
  case (EvInvalidate k)
  then show ?thesis by (auto simp: pg_invalidate_def)
qed

lemma run_refines: "dget (pf_flags (foldl flag_step s evs)) = foldl snapshot_step (dget (pf_flags s)) evs"
  by (induction evs arbitrary: s) (simp_all add: flag_step_refines)

lemma dict_fold_filter:
  "dget (foldl (\<lambda>out (k, v). dset k (f v) out) d (filter (\<lambda>(k, v). P k) t)) k =
     (if P k then (case dget (rev t) k of None \<Rightarrow> dget d k | Some v \<Rightarrow> Some (f v)) else dget d k)"
  by (induction t arbitrary: d) (auto simp: map_add_def split: option.splits)

text \<open>What a row grants.\<close>

lemma flag_grants_iff:
  "flag_enabled (parse_from_json raw) \<and> r \<in> set (flag_roles (parse_from_json raw)) \<longleftrightarrow>
    (\<exists>obj v xs. load_raw raw = Some (JObj obj) \<and> dget obj (py ''enabled'') = Some v \<and> json_truthy v
       \<and> dget obj (py ''roles'') = Some (JArr xs) \<and> JStr (role_value r) \<in> set xs)"
proof (cases "load_raw raw")
  case None
  then show ?thesis by (simp add: parse_from_json_def no_flag_def)
next
  case (Some v)
  show ?thesis
  proof (cases v)
    case (JObj obj)
    have f: "json_truthy (JBool False) = False" by (simp add: json_truthy_def)
    show ?thesis
    proof (cases "dget obj (py ''roles'')")
      case None
      then show ?thesis using Some JObj by (simp add: parse_from_json_def Let_def in_parse_roles)
    next
      case roles: (Some w)
      then show ?thesis
        using Some JObj f
        by (cases w) (auto simp: parse_from_json_def Let_def in_parse_roles no_flag_def json_truthy_def split: option.splits)
    qed
  qed (use Some in \<open>simp_all add: parse_from_json_def no_flag_def\<close>)
qed

lemma load_from_pool_get:
  "dget (load_from_pool table) k = (if startswith (py ''flag.'') k then map_option parse_from_json (dget (rev table) k) else None)"
  using dict_fold_filter [of parse_from_json "[]" "startswith (py ''flag.'')" table k]
  by (simp add: load_from_pool_def split: option.split)

section \<open>Properties\<close>

text \<open>
  Parsing never raises and fails safe: a flag grants a role exactly when the row is a JSON object
  whose \<open>enabled\<close> is truthy and whose \<open>roles\<close> is a list with that role's name in it; everything else,
  malformed JSON included, gives a flag that grants nothing.  Truthiness is Python's, so the text
  \<open>"false"\<close> enables the flag.
\<close>

theorem parse_grants_exactly:
  "(flag_enabled (parse_from_json raw) \<and> r \<in> set (flag_roles (parse_from_json raw)) \<longleftrightarrow>
      (\<exists>obj v xs. load_raw raw = Some (JObj obj) \<and> dget obj (py ''enabled'') = Some v \<and> json_truthy v
         \<and> dget obj (py ''roles'') = Some (JArr xs) \<and> JStr (role_value r) \<in> set xs))
   \<and> (load_raw raw = None \<longrightarrow> parse_from_json raw = no_flag)
   \<and> flag_enabled (parse_from_json (RawDict [(py ''enabled'', JStr (py ''false'')), (py ''roles'', JArr [JStr (py ''admin'')])]))"
proof -
  have "load_raw raw = None \<longrightarrow> parse_from_json raw = no_flag" by (simp add: parse_from_json_def)
  moreover have "flag_enabled (parse_from_json (RawDict [(py ''enabled'', JStr (py ''false'')), (py ''roles'', JArr [JStr (py ''admin'')])]))"
    by (simp add: parse_from_json_def load_raw_def json_truthy_def)
  ultimately show ?thesis using flag_grants_iff by blast
qed

lemma parse_grants_exactly_witness: "parse_from_json (RawStr (py ''{'')) = no_flag"
proof -
  have "load_raw (RawStr (py ''{'')) = None"
    by (simp add: load_raw_def loads_def py_def startswith_def skip_ws_def json_ws_def scan_membs.simps)
  then show ?thesis using parse_grants_exactly [of "RawStr (py ''{'')" ADMIN] by blast
qed

text \<open>
  Deny by default: over either store a check passes exactly when the flag is known, enabled and
  names one of the caller's roles, so an unknown key, a disabled flag, a caller without roles and an
  empty role list all deny; a check never changes what later checks see.
\<close>

theorem allowed_deny_by_default:
  "(snd (allowed static_get s k ctx) \<longleftrightarrow>
      (\<exists>f. dget (ss_flags s) k = Some f \<and> flag_enabled f \<and> set ctx \<inter> set (flag_roles f) \<noteq> {}))
   \<and> (snd (allowed (pg_get now loop) p k ctx) \<longleftrightarrow>
      (\<exists>f. dget (pf_flags p) k = Some f \<and> flag_enabled f \<and> set ctx \<inter> set (flag_roles f) \<noteq> {}))
   \<and> snd (allowed (pg_get now' loop') (fst (allowed (pg_get now loop) p k ctx)) k' ctx') = snd (allowed (pg_get now' loop') p k' ctx')"
  using static.allowed_iff [of s k ctx] pg.allowed_iff [of now loop p k ctx] pg.allowed_iff [of now' loop' p k' ctx']
    pg.allowed_iff [of now' loop' "fst (allowed (pg_get now loop) p k ctx)" k' ctx'] pg.allowed_keeps [of now loop p k ctx]
  by simp

text \<open>
  C13. The cached store refines its contract over every sequence of reads, refreshes, failures and
  invalidations: what \<open>get\<close> and \<open>all_flags\<close> return is the last fetched snapshot less the keys
  invalidated since, and a failed refresh never empties it.
\<close>

theorem cache_refines_snapshot:
  "snd (pg_get now loop (foldl flag_step (pg_init ttl) evs) k) = foldl snapshot_step (\<lambda>_. None) evs k
   \<and> dget (snd (pg_all_flags now loop (foldl flag_step (pg_init ttl) evs))) = foldl snapshot_step (\<lambda>_. None) evs
   \<and> snd (pg_get now loop (pg_refresh t (RefreshRaised n) p) k) = snd (pg_get now loop p k)"
proof -
  have "dget (pf_flags (pg_init ttl)) = (\<lambda>_. None)" by (auto simp: pg_init_def)
  then show ?thesis
    using run_refines [of "pg_init ttl" evs] pg.get_flag pg.all_flags_are by (simp add: pg_refresh_def)
qed

text \<open>
  Staleness: a refresh at a positive clock reading keeps the store fresh for the whole ttl and no
  longer, a failed one leaves it as stale as it was, and every read of a stale store with an event
  loop starts one more refresh task: reads in a burst do not share one.
\<close>

theorem stale_reads_each_refresh:
  assumes "0 < t" "pg_stale now p"
  shows "(pg_stale t' (pg_refresh t (Fetched m) p) \<longleftrightarrow> t' > t + pf_ttl p)
    \<and> pg_stale now (pg_refresh t (RefreshRaised n) p)
    \<and> pf_pending (foldl (\<lambda>s k. fst (pg_get now True s k)) p ks) = pf_pending p + length ks"
proof -
  have step: "pg_stale now (fst (pg_get now True s k)) \<and> pf_pending (fst (pg_get now True s k)) = Suc (pf_pending s)"
    if "pg_stale now s" for s k
    using that by (simp add: pg_get_def kick_refresh_def pg_stale_def Let_def split: if_splits)
  have "pg_stale now s \<Longrightarrow> pf_pending (foldl (\<lambda>s k. fst (pg_get now True s k)) s ks) = pf_pending s + length ks" for s
    by (induction ks arbitrary: s) (simp_all add: step)
  then show ?thesis using assms by (auto simp: pg_stale_def pg_refresh_def)
qed

lemma stale_reads_each_refresh_witness:
  "pf_pending (foldl (\<lambda>s k. fst (pg_get 100 True s k)) (pg_init 30) [py ''a'', py ''b'', py ''a'']) = 3"
  using stale_reads_each_refresh [of 1 100 "pg_init 30" 0 "[]" 0 "[py ''a'', py ''b'', py ''a'']"]
  by (simp add: pg_stale_def pg_init_def)

text \<open>
  Loading reads exactly the flags: a key has a flag when it starts with \<open>flag.\<close> and some row has
  it, and then the flag is the parse of its last row; no other setting is ever taken for a flag.
\<close>

theorem load_only_flags:
  "dget (load_from_pool table) k =
     (if startswith (py ''flag.'') k then map_option parse_from_json (dget (rev table) k) else None)
   \<and> load_for_service table = load_from_pool table"
  by (simp add: load_from_pool_get load_for_service_def)

text \<open>
  The table decides: after a refresh of a store made from a pool, a check passes exactly when the key
  starts with \<open>flag.\<close>, the last row of it is a JSON object with a truthy \<open>enabled\<close>, and its list of \<open>roles\<close>
  names a role of the caller; after one that fails, every check answers as before.
\<close>

theorem table_decides_flags:
  "(snd (allowed (pg_get now loop) (pool_refresh t (Inr table) p) k ctx) \<longleftrightarrow>
      startswith (py ''flag.'') k
      \<and> (\<exists>raw obj v xs r. dget (rev table) k = Some raw \<and> load_raw raw = Some (JObj obj)
           \<and> dget obj (py ''enabled'') = Some v \<and> json_truthy v \<and> dget obj (py ''roles'') = Some (JArr xs)
           \<and> r \<in> set ctx \<and> JStr (role_value r) \<in> set xs))
   \<and> snd (allowed (pg_get now loop) (pool_refresh t (Inl n) p) k ctx) = snd (allowed (pg_get now loop) p k ctx)"
proof
  have "snd (allowed (pg_get now loop) (pool_refresh t (Inr table) p) k ctx) \<longleftrightarrow>
      (\<exists>raw r. startswith (py ''flag.'') k \<and> dget (rev table) k = Some raw \<and> r \<in> set ctx
         \<and> flag_enabled (parse_from_json raw) \<and> r \<in> set (flag_roles (parse_from_json raw)))"
    by (auto simp: pg.allowed_iff pool_refresh_def pg_refresh_def load_from_pool_get)
  then show "snd (allowed (pg_get now loop) (pool_refresh t (Inr table) p) k ctx) \<longleftrightarrow>
      startswith (py ''flag.'') k
      \<and> (\<exists>raw obj v xs r. dget (rev table) k = Some raw \<and> load_raw raw = Some (JObj obj)
           \<and> dget obj (py ''enabled'') = Some v \<and> json_truthy v \<and> dget obj (py ''roles'') = Some (JArr xs)
           \<and> r \<in> set ctx \<and> JStr (role_value r) \<in> set xs)"
    unfolding flag_grants_iff by blast
qed (simp add: pool_refresh_def pg_refresh_def)

end
