(* ===== verification/Resilience.thy ===== *)
theory Resilience
  imports OmPrelude Complex_Main
begin

text \<open>
  \<open>omkit/resilience.py\<close>: the circuit breaker as a state machine, a call guarded by it, and the retry
  decorator.  \<open>time.monotonic\<close> is an argument of the operations that read it.  Calls on one breaker
  interleave at their awaits: the step relation \<open>breaker_step\<close> starts a call and finishes it in
  separate steps, with any number in flight.  The retry loop of the third-party \<open>tenacity\<close> is a
  parameter with its documented equation.
\<close>

section \<open>The breaker\<close>

datatype bstate = CLOSED | OPEN | HALF_OPEN

record breaker =
  fail_max :: int
  reset_timeout :: int
  failures :: int
  br_state :: bstate
  opened_at :: rat
  open_observed :: bool

definition breaker_init :: "int \<Rightarrow> int \<Rightarrow> breaker" where
  "breaker_init fm rt = \<lparr>fail_max = fm, reset_timeout = rt, failures = 0, br_state = CLOSED, opened_at = 0, open_observed = False\<rparr>"

text \<open>Reading the \<open>state\<close> property, which may move the machine.\<close>

definition read_state :: "rat \<Rightarrow> breaker \<Rightarrow> breaker \<times> bstate" where
  "read_state now b =
     (let b' = (if br_state b = OPEN then
           (if open_observed b \<and> now - opened_at b \<ge> of_int (reset_timeout b) then b\<lparr>br_state := HALF_OPEN\<rparr>
            else b\<lparr>open_observed := True\<rparr>)
         else b)
      in (b', br_state b'))"

definition record_success :: "breaker \<Rightarrow> breaker" where
  "record_success b = b\<lparr>failures := 0, br_state := CLOSED, open_observed := False\<rparr>"

definition record_failure :: "rat \<Rightarrow> breaker \<Rightarrow> breaker" where
  "record_failure now b =
     (let b1 = b\<lparr>failures := failures b + 1\<rparr> in
      if failures b1 \<ge> fail_max b1 then b1\<lparr>br_state := OPEN, opened_at := now, open_observed := False\<rparr> else b1)"

text \<open>
  What awaiting a coroutine can end in: the errors \<open>_is_transient\<close> tells apart, any other
  \<open>Exception\<close>, and a \<open>BaseException\<close> such as a cancellation, which \<open>except Exception\<close> does not catch.
\<close>

datatype exc =
    ConnectError
  | TimeoutExc
  | HTTPStatusError "int option"
  | OtherException nat
  | CircuitOpen
  | BaseExc nat

definition is_exception :: "exc \<Rightarrow> bool" where
  "is_exception e = (case e of BaseExc _ \<Rightarrow> False | _ \<Rightarrow> True)"

text \<open>
  A coroutine runs in a world that holds the breaker and a clock, both of which other tasks may
  change while it is suspended.
\<close>

record 'w bworld =
  bw_breaker :: breaker
  bw_clock :: rat
  bw_rest :: 'w

definition guarded_call :: "('w bworld \<Rightarrow> 'w bworld \<times> (exc + 'a)) \<Rightarrow> 'w bworld \<Rightarrow> 'w bworld \<times> (exc + 'a)" where
  "guarded_call coro w =
     (case read_state (bw_clock w) (bw_breaker w) of
        (b, st) \<Rightarrow>
          if st = OPEN then (w\<lparr>bw_breaker := b\<rparr>, Inl CircuitOpen)
          else (case coro (w\<lparr>bw_breaker := b\<rparr>) of
              (w', Inr x) \<Rightarrow> (w'\<lparr>bw_breaker := record_success (bw_breaker w')\<rparr>, Inr x)
            | (w', Inl e) \<Rightarrow>
                (if is_exception e then w'\<lparr>bw_breaker := record_failure (bw_clock w') (bw_breaker w')\<rparr> else w', Inl e)))"

section \<open>Retries\<close>

definition is_transient :: "exc \<Rightarrow> bool" where
  "is_transient e = (case e of ConnectError \<Rightarrow> True | TimeoutExc \<Rightarrow> True
     | HTTPStatusError (Some code) \<Rightarrow> code \<in> {502, 503, 504} | _ \<Rightarrow> False)"

definition MAX_ATTEMPTS :: nat where "MAX_ATTEMPTS = 3"

text \<open>
  \<open>retry n retryable f\<close> is tenacity's \<open>retry(stop=stop_after_attempt(n), retry=retry_if_exception(p),
  reraise=True)\<close>: run, and on an error it may retry and has attempts left for, sleep and run again.
\<close>

type_synonym ('s, 'a) action = "'s \<Rightarrow> 's \<times> (exc + 'a)"

definition tenacity_ok :: "(nat \<Rightarrow> (exc \<Rightarrow> bool) \<Rightarrow> ('s, 'a) action \<Rightarrow> ('s, 'a) action) \<Rightarrow> ('s \<Rightarrow> 's) \<Rightarrow> bool" where
  "tenacity_ok retry sleep = (\<forall>n p f s. retry (Suc n) p f s =
     (case f s of (s', Inr x) \<Rightarrow> (s', Inr x)
      | (s', Inl e) \<Rightarrow> if 0 < n \<and> p e then retry n p f (sleep s') else (s', Inl e)))"

definition resilient ::
    "(nat \<Rightarrow> (exc \<Rightarrow> bool) \<Rightarrow> ('w bworld, 'a) action \<Rightarrow> ('w bworld, 'a) action) \<Rightarrow> ('w bworld, 'a) action \<Rightarrow> ('w bworld, 'a) action" where
  "resilient retry fn = retry MAX_ATTEMPTS is_transient (guarded_call fn)"

section \<open>Interleaved calls\<close>

text \<open>The breaker, the clock and the number of calls that were let through and have not ended.\<close>

record bsys =
  sy_breaker :: breaker
  sy_clock :: rat
  sy_flight :: nat

inductive breaker_step :: "bsys \<Rightarrow> bsys \<Rightarrow> bool" where
  tick: "sy_clock s \<le> t \<Longrightarrow> breaker_step s (s\<lparr>sy_clock := t\<rparr>)"
| look: "read_state (sy_clock s) (sy_breaker s) = (b, st) \<Longrightarrow> breaker_step s (s\<lparr>sy_breaker := b\<rparr>)"
| admit: "read_state (sy_clock s) (sy_breaker s) = (b, st) \<Longrightarrow> st \<noteq> OPEN \<Longrightarrow>
    breaker_step s (s\<lparr>sy_breaker := b, sy_flight := Suc (sy_flight s)\<rparr>)"
| succeed: "0 < sy_flight s \<Longrightarrow>
    breaker_step s (s\<lparr>sy_breaker := record_success (sy_breaker s), sy_flight := sy_flight s - 1\<rparr>)"
| fail: "0 < sy_flight s \<Longrightarrow>
    breaker_step s (s\<lparr>sy_breaker := record_failure (sy_clock s) (sy_breaker s), sy_flight := sy_flight s - 1\<rparr>)"
| cancel: "0 < sy_flight s \<Longrightarrow> breaker_step s (s\<lparr>sy_flight := sy_flight s - 1\<rparr>)"

inductive_cases breaker_stepE: "breaker_step s s'"

definition bsys_init :: "int \<Rightarrow> int \<Rightarrow> rat \<Rightarrow> bsys" where
  "bsys_init fm rt t = \<lparr>sy_breaker = breaker_init fm rt, sy_clock = t, sy_flight = 0\<rparr>"

text \<open>
  What holds of every breaker with a positive threshold: closed means fewer failures in a row than
  the threshold, open or half open means it was reached; a half-open breaker was seen open, at
  least the reset timeout after it opened; and it opened in the past.
\<close>

definition breaker_inv :: "rat \<Rightarrow> breaker \<Rightarrow> bool" where
  "breaker_inv now b = (0 \<le> failures b
     \<and> (br_state b = CLOSED \<longrightarrow> failures b < fail_max b \<and> \<not> open_observed b)
     \<and> (br_state b \<noteq> CLOSED \<longrightarrow> fail_max b \<le> failures b \<and> opened_at b \<le> now)
     \<and> (br_state b = HALF_OPEN \<longrightarrow> open_observed b \<and> of_int (reset_timeout b) \<le> now - opened_at b))"

lemma read_state_inv: "breaker_inv now b \<Longrightarrow> breaker_inv now (fst (read_state now b))"
  by (auto simp: breaker_inv_def read_state_def Let_def)

lemma record_success_inv: "breaker_inv now b \<Longrightarrow> 0 < fail_max b \<Longrightarrow> breaker_inv now (record_success b)"
  by (auto simp: breaker_inv_def record_success_def)

lemma record_failure_inv: "breaker_inv now b \<Longrightarrow> breaker_inv now (record_failure now b)"
  by (auto simp: breaker_inv_def record_failure_def Let_def)

lemma tick_inv: "breaker_inv now b \<Longrightarrow> now \<le> now' \<Longrightarrow> breaker_inv now' b"
  by (auto simp: breaker_inv_def)

lemma same_thresholds [simp]:
  "fail_max (fst (read_state t b)) = fail_max b" "reset_timeout (fst (read_state t b)) = reset_timeout b"
  "fail_max (record_success b) = fail_max b" "reset_timeout (record_success b) = reset_timeout b"
  "fail_max (record_failure t b) = fail_max b" "reset_timeout (record_failure t b) = reset_timeout b"
  by (auto simp: read_state_def record_success_def record_failure_def Let_def)

lemma breaker_step_inv:
  assumes "breaker_step s s'" "breaker_inv (sy_clock s) (sy_breaker s)" "0 < fail_max (sy_breaker s)"
  shows "breaker_inv (sy_clock s') (sy_breaker s') \<and> fail_max (sy_breaker s') = fail_max (sy_breaker s)
    \<and> reset_timeout (sy_breaker s') = reset_timeout (sy_breaker s) \<and> sy_clock s \<le> sy_clock s'"
  using assms(1)
proof cases
  case (look b st)
  then show ?thesis using read_state_inv [OF assms(2)] same_thresholds(1,2) [of "sy_clock s" "sy_breaker s"] by simp
next
  case (admit b st)
  then show ?thesis using read_state_inv [OF assms(2)] same_thresholds(1,2) [of "sy_clock s" "sy_breaker s"] by simp
qed (use assms(2,3) tick_inv record_success_inv record_failure_inv in auto)

lemma reachable_inv:
  assumes "breaker_step\<^sup>*\<^sup>* (bsys_init fm rt t) s" "0 < fm"
  shows "breaker_inv (sy_clock s) (sy_breaker s) \<and> fail_max (sy_breaker s) = fm \<and> reset_timeout (sy_breaker s) = rt"
  using assms(1)
proof (induction rule: rtranclp_induct)
  case base
  then show ?case using assms(2) by (simp add: bsys_init_def breaker_init_def breaker_inv_def)
next
  case (step s s')
  then show ?case using breaker_step_inv [OF step.hyps(2)] assms(2) by auto
qed

section \<open>Properties\<close>

text \<open>
  C5. Fail fast, over every interleaving of calls, outcomes and readings: whenever a breaker that has
  tripped lets a call through, at least the reset timeout has passed since it opened and it had
  been seen open before; while closed it has had fewer failures in a row than the threshold.
\<close>

theorem breaker_fails_fast:
  assumes "breaker_step\<^sup>*\<^sup>* (bsys_init fm rt t) s" "0 < fm"
  shows "(case read_state (sy_clock s) (sy_breaker s) of (b, st) \<Rightarrow>
      (br_state (sy_breaker s) \<noteq> CLOSED \<and> st \<noteq> OPEN \<longrightarrow>
         of_int rt \<le> sy_clock s - opened_at (sy_breaker s) \<and> open_observed (sy_breaker s) \<and> st = HALF_OPEN)
      \<and> (br_state (sy_breaker s) = CLOSED \<longleftrightarrow> failures (sy_breaker s) < fm))"
  using reachable_inv [OF assms]
  by (cases "br_state (sy_breaker s)") (auto simp: breaker_inv_def read_state_def Let_def)

lemma breaker_fails_fast_witness:
  "snd (read_state 5 (sy_breaker (bsys_init 1 60 5))) = CLOSED \<and>
   (case read_state 5 (record_failure 5 (breaker_init 1 60)) of (b, st) \<Rightarrow> st = OPEN)"
proof -
  let ?s0 = "bsys_init 1 60 5"
  let ?s1 = "?s0\<lparr>sy_flight := 1\<rparr>"
  let ?s2 = "?s1\<lparr>sy_breaker := record_failure 5 (breaker_init 1 60), sy_flight := 0\<rparr>"
  have "breaker_step ?s0 ?s1"
    using breaker_step.admit [of ?s0 "breaker_init 1 60" CLOSED]
    by (simp add: bsys_init_def breaker_init_def read_state_def)
  moreover have "breaker_step ?s1 ?s2"
    using breaker_step.fail [of ?s1] by (simp add: bsys_init_def)
  ultimately have r: "breaker_step\<^sup>*\<^sup>* ?s0 ?s2" by (meson converse_rtranclp_into_rtranclp rtranclp.rtrancl_refl)
  show ?thesis
    using breaker_fails_fast [OF r] by (auto simp: bsys_init_def breaker_init_def record_failure_def read_state_def Let_def)
qed

text \<open>
  A breaker trips at exactly the threshold: after any number of failures in a row it is open
  when they are at least the threshold and closed before that, one success anywhere starts the
  count again, and in the half-open state one success closes it and one failure opens it anew.
\<close>

theorem breaker_threshold:
  assumes "0 < fail_max b"
  shows "br_state (foldl (\<lambda>b t. record_failure t b) (record_success b) ts) = (if fail_max b \<le> int (length ts) then OPEN else CLOSED)
    \<and> (breaker_inv t h \<and> br_state h = HALF_OPEN \<longrightarrow> br_state (record_success h) = CLOSED
        \<and> br_state (record_failure t h) = OPEN \<and> opened_at (record_failure t h) = t)"
proof -
  have gen: "failures c = n \<Longrightarrow> 0 \<le> n \<Longrightarrow> (br_state c = OPEN \<longleftrightarrow> fail_max c \<le> n) \<Longrightarrow> (br_state c = CLOSED \<longleftrightarrow> n < fail_max c) \<Longrightarrow>
      br_state (foldl (\<lambda>b t. record_failure t b) c ts) = (if fail_max c \<le> n + int (length ts) then OPEN else CLOSED)" for c n
  proof (induction ts arbitrary: c n)
    case (Cons t ts)
    let ?c = "record_failure t c"
    have "failures ?c = n + 1" "br_state ?c = OPEN \<longleftrightarrow> fail_max ?c \<le> n + 1" "br_state ?c = CLOSED \<longleftrightarrow> n + 1 < fail_max ?c"
      using Cons.prems by (auto simp: record_failure_def Let_def)
    then show ?case using Cons.IH [of ?c "n + 1"] Cons.prems(2) by (simp add: algebra_simps)
  qed auto
  have "br_state (foldl (\<lambda>b t. record_failure t b) (record_success b) ts) = (if fail_max b \<le> int (length ts) then OPEN else CLOSED)"
    using gen [of "record_success b" 0] assms by (simp add: record_success_def)
  then show ?thesis by (auto simp: breaker_inv_def record_success_def record_failure_def Let_def)
qed

lemma breaker_threshold_witness:
  "br_state (foldl (\<lambda>b t. record_failure t b) (record_success (breaker_init 3 60)) [1, 2, 3]) = OPEN"
  using breaker_threshold [of "breaker_init 3 60" "[1, 2, 3]" 0 "breaker_init 3 60"] by (simp add: breaker_init_def)

text \<open>
  Recovery takes one rejected call: after a trip, the first call is rejected however long after
  the reset timeout it comes; once a reading has seen the breaker open, the first call at or after
  the timeout is let through, and none before it.
\<close>

theorem breaker_recovery:
  assumes "br_state b = OPEN" "\<not> open_observed b"
  shows "guarded_call coro (\<lparr>bw_breaker = b, bw_clock = now, bw_rest = r\<rparr>) =
      (\<lparr>bw_breaker = b\<lparr>open_observed := True\<rparr>, bw_clock = now, bw_rest = r\<rparr>, Inl CircuitOpen)
    \<and> (snd (read_state now' (b\<lparr>open_observed := True\<rparr>)) = (if of_int (reset_timeout b) \<le> now' - opened_at b then HALF_OPEN else OPEN))"
  using assms by (auto simp: guarded_call_def read_state_def Let_def)

lemma breaker_recovery_witness:
  "snd (guarded_call (\<lambda>w. (w, Inr ())) \<lparr>bw_breaker = record_failure 0 (breaker_init 1 60), bw_clock = 3600, bw_rest = ()\<rparr>)
     = Inl CircuitOpen"
  using breaker_recovery [of "record_failure 0 (breaker_init 1 60)" "\<lambda>w. (w, Inr ())" 3600 "()" 0]
  by (simp add: record_failure_def breaker_init_def)

text \<open>
  The decorator makes at most three guarded attempts, going on only after a transient error, and
  returns what the last one did; an open breaker ends it at once without running the function, and
  a guarded attempt counts a success, an exception, but not a cancellation.
\<close>

theorem resilient_attempts:
  assumes "tenacity_ok retry sleep"
  shows "resilient retry fn w =
      (let again = (\<lambda>r. case r of Inr _ \<Rightarrow> False | Inl e \<Rightarrow> is_transient e);
           (w1, r1) = guarded_call fn w in
       if \<not> again r1 then (w1, r1)
       else let (w2, r2) = guarded_call fn (sleep w1) in
         if \<not> again r2 then (w2, r2) else guarded_call fn (sleep w2))"
    (is "_ = ?rhs")
proof -
  have step: "retry (Suc n) p f s = (case f s of (s', Inr x) \<Rightarrow> (s', Inr x)
      | (s', Inl e) \<Rightarrow> if 0 < n \<and> p e then retry n p f (sleep s') else (s', Inl e))" for n p f s
    using assms unfolding tenacity_ok_def by blast
  have three: "MAX_ATTEMPTS = Suc (Suc (Suc 0))" by (simp add: MAX_ATTEMPTS_def)
  obtain w1 r1 where g1: "guarded_call fn w = (w1, r1)" by fastforce
  obtain w2 r2 where g2: "guarded_call fn (sleep w1) = (w2, r2)" by fastforce
  obtain w3 r3 where g3: "guarded_call fn (sleep w2) = (w3, r3)" by fastforce
  show ?thesis
    unfolding resilient_def three
    by (cases r1; cases r2; cases r3) (simp_all add: step g1 g2 g3 Let_def)
qed

fun retry_loop :: "nat \<Rightarrow> (exc \<Rightarrow> bool) \<Rightarrow> ('s, 'a) action \<Rightarrow> ('s, 'a) action" where
  "retry_loop 0 p f s = f s"
| "retry_loop (Suc n) p f s =
     (case f s of (s', Inr x) \<Rightarrow> (s', Inr x)
      | (s', Inl e) \<Rightarrow> if 0 < n \<and> p e then retry_loop n p f s' else (s', Inl e))"

lemma resilient_attempts_witness:
  "resilient retry_loop (\<lambda>w. (w\<lparr>bw_rest := Suc (bw_rest w)\<rparr>, Inl ConnectError :: exc + unit))
     \<lparr>bw_breaker = breaker_init 2 60, bw_clock = 0, bw_rest = 0\<rparr>
   = (\<lparr>bw_breaker = (breaker_init 2 60)\<lparr>failures := 2, br_state := OPEN, open_observed := True\<rparr>, bw_clock = 0, bw_rest = 2\<rparr>,
      Inl CircuitOpen)"
proof -
  have t: "tenacity_ok retry_loop id" by (auto simp: tenacity_ok_def split: prod.split sum.split)
  show ?thesis
    by (simp add: resilient_attempts [OF t] guarded_call_def read_state_def breaker_init_def record_failure_def is_exception_def
        is_transient_def Let_def)
qed

end
