(* ===== verification/Quota.thy ===== *)
theory Quota
  imports PyText Complex_Main
begin

text \<open>
  \<open>omkit/quota.py\<close>: a tenant's limits and usage, the two decisions, and the time to the next month,
  with the proleptic Gregorian calendar \<open>datetime\<close> computes with.  The tables the queries read are
  lists of rows; the row-level security that restricts \<open>document_files\<close> and \<open>usage_log\<close> to the
  session's tenant is the database's, and appears as the rows the session sees.
\<close>

section \<open>Limits, usage, decisions\<close>

definition DEFAULT_DOCS :: int where "DEFAULT_DOCS = 100"
definition DEFAULT_STORAGE_BYTES :: int where "DEFAULT_STORAGE_BYTES = 500 * 1024 * 1024"
definition DEFAULT_QUERIES_PER_MONTH :: int where "DEFAULT_QUERIES_PER_MONTH = 1000"

datatype resource = DOCS | STORAGE_BYTES | QUERIES_PER_MONTH

record limits =
  lim_docs :: int
  lim_storage_bytes :: int
  lim_queries_per_month :: int

record usage =
  us_docs :: int
  us_storage_bytes :: int
  us_queries_this_month :: int

record decision =
  dec_allowed :: bool
  dec_resource :: "resource option"
  dec_limit :: int
  dec_used :: int
  dec_retry_after :: int

definition allow :: decision where
  "allow = \<lparr>dec_allowed = True, dec_resource = None, dec_limit = 0, dec_used = 0, dec_retry_after = 0\<rparr>"

text \<open>
  The query of \<open>load\<close>: the session's \<open>app.tenant_id\<close>, None when it is not set (then the comparison is
  NULL and no row matches); a row is (tenant, docs, storage bytes, queries per month).
\<close>

definition load_limits :: "nat option \<Rightarrow> (nat \<times> int \<times> int \<times> int) list \<Rightarrow> limits" where
  "load_limits tenant table =
     (case filter (\<lambda>(t, _). tenant = Some t) table of
        [] \<Rightarrow> \<lparr>lim_docs = DEFAULT_DOCS, lim_storage_bytes = DEFAULT_STORAGE_BYTES,
               lim_queries_per_month = DEFAULT_QUERIES_PER_MONTH\<rparr>
      | (_, d, b, q) # _ \<Rightarrow> \<lparr>lim_docs = d, lim_storage_bytes = b, lim_queries_per_month = q\<rparr>)"

text \<open>
  The sizes of the documents the session sees (NULL sizes are skipped by SUM), and the ages of its
  usage rows, or None when the second query fails and the savepoint is rolled back.  A row's time is
  compared with the first instant of the month.
\<close>

definition get_usage :: "int option list \<Rightarrow> rat list option \<Rightarrow> rat \<Rightarrow> usage" where
  "get_usage docs usage_log month_start =
     (let queries = (case usage_log of None \<Rightarrow> 0 | Some rows \<Rightarrow> int (length (filter (\<lambda>t. month_start \<le> t) rows)))
      in \<lparr>us_docs = int (length docs), us_storage_bytes = sum_list (map (\<lambda>d. case d of None \<Rightarrow> 0 | Some n \<Rightarrow> n) docs),
          us_queries_this_month = queries\<rparr>)"

definition check_upload :: "limits \<Rightarrow> usage \<Rightarrow> int \<Rightarrow> decision" where
  "check_upload lm u incoming_bytes =
     (if us_docs u + 1 > lim_docs lm then
        \<lparr>dec_allowed = False, dec_resource = Some DOCS, dec_limit = lim_docs lm, dec_used = us_docs u, dec_retry_after = 0\<rparr>
      else if us_storage_bytes u + incoming_bytes > lim_storage_bytes lm then
        \<lparr>dec_allowed = False, dec_resource = Some STORAGE_BYTES, dec_limit = lim_storage_bytes lm,
         dec_used = us_storage_bytes u, dec_retry_after = 0\<rparr>
      else allow)"

section \<open>The calendar\<close>

text \<open>A UTC instant as \<open>datetime\<close> holds it: date, time of day in seconds, microseconds.\<close>

record instant =
  in_year :: nat
  in_month :: nat
  in_day :: nat
  in_second :: nat
  in_micro :: nat

definition is_leap :: "nat \<Rightarrow> bool" where
  "is_leap y = (y mod 4 = 0 \<and> (y mod 100 \<noteq> 0 \<or> y mod 400 = 0))"

definition days_in_month :: "nat \<Rightarrow> nat \<Rightarrow> nat" where
  "days_in_month y m = (if m = 2 then (if is_leap y then 29 else 28) else if m \<in> {4, 6, 9, 11} then 30 else 31)"

definition days_before_year :: "nat \<Rightarrow> nat" where
  "days_before_year y = (y - 1) * 365 + (y - 1) div 4 - (y - 1) div 100 + (y - 1) div 400"

definition days_before_month :: "nat \<Rightarrow> nat \<Rightarrow> nat" where
  "days_before_month y m = sum_list (map (days_in_month y) [1..<m])"

definition ordinal :: "nat \<Rightarrow> nat \<Rightarrow> nat \<Rightarrow> nat" where
  "ordinal y m d = days_before_year y + days_before_month y m + d"

definition valid_instant :: "instant \<Rightarrow> bool" where
  "valid_instant t = (1 \<le> in_year t \<and> in_year t \<le> 9999 \<and> 1 \<le> in_month t \<and> in_month t \<le> 12
     \<and> 1 \<le> in_day t \<and> in_day t \<le> days_in_month (in_year t) (in_month t) \<and> in_second t < 86400 \<and> in_micro t < 1000000)"

text \<open>Microseconds since the start of the calendar.\<close>

definition micros :: "instant \<Rightarrow> int" where
  "micros t = (int (ordinal (in_year t) (in_month t) (in_day t)) * 86400 + int (in_second t)) * 1000000 + int (in_micro t)"

section \<open>Until the next month\<close>

definition cap_at_32_days :: "int \<Rightarrow> int" where
  "cap_at_32_days s = (if s < 0 then 60 else if s > 32 * 24 * 3600 then 32 * 24 * 3600 else s)"

text \<open>The first instant of the next month; None is the \<open>ValueError\<close> of the year 10000.\<close>

definition next_month :: "instant \<Rightarrow> instant option" where
  "next_month now =
     (let (y, m) = (if in_month now = 12 then (in_year now + 1, 1) else (in_year now, in_month now + 1)) in
      if y > 9999 then None
      else Some \<lparr>in_year = y, in_month = m, in_day = 1, in_second = 0, in_micro = 0\<rparr>)"

text \<open>\<open>int(delta.total_seconds())\<close> truncates toward zero.\<close>

definition trunc_seconds :: "int \<Rightarrow> int" where
  "trunc_seconds us = (if us < 0 then - ((- us) div 1000000) else us div 1000000)"

definition seconds_until_next_month :: "instant \<Rightarrow> int option" where
  "seconds_until_next_month now =
     map_option (\<lambda>nxt. cap_at_32_days (trunc_seconds (micros nxt - micros now))) (next_month now)"

definition check_query :: "limits \<Rightarrow> usage \<Rightarrow> instant \<Rightarrow> decision option" where
  "check_query lm u now =
     (if us_queries_this_month u + 1 > lim_queries_per_month lm then
        map_option (\<lambda>s. \<lparr>dec_allowed = False, dec_resource = Some QUERIES_PER_MONTH, dec_limit = lim_queries_per_month lm,
           dec_used = us_queries_this_month u, dec_retry_after = s\<rparr>) (seconds_until_next_month now)
      else Some allow)"

record usage_row =
  ur_tenant :: nat
  ur_provider :: pystr
  ur_model :: pystr
  ur_input_tokens :: int
  ur_output_tokens :: int
  ur_cost_usd :: rat

definition record_usage :: "nat \<Rightarrow> pystr \<Rightarrow> pystr \<Rightarrow> int \<Rightarrow> int \<Rightarrow> rat \<Rightarrow> usage_row list \<Rightarrow> usage_row list" where
  "record_usage tenant_id provider model input_tokens output_tokens cost_usd table =
     table @ [\<lparr>ur_tenant = tenant_id, ur_provider = provider, ur_model = model, ur_input_tokens = input_tokens,
               ur_output_tokens = output_tokens, ur_cost_usd = cost_usd\<rparr>]"

section \<open>Calendar lemmas\<close>

lemma div_step: "1 \<le> y \<Longrightarrow> y div k = (y - 1) div k + (if y mod k = 0 then 1 else 0)" for y k :: nat
  by (cases y) (auto simp: div_Suc)

lemma leap_div:
  assumes "1 \<le> y"
  shows "y div 4 + (y - 1) div 100 + y div 400 = (y - 1) div 4 + y div 100 + (y - 1) div 400 + (if is_leap y then 1 else 0)"
proof -
  have "y mod 400 = 0 \<Longrightarrow> y mod 100 = 0" "y mod 100 = 0 \<Longrightarrow> y mod 4 = 0"
    using dvd_trans [of 100 400 y] dvd_trans [of 4 100 y] by (simp_all add: mod_eq_0_iff_dvd)
  then show ?thesis
    using div_step [OF assms, of 4] div_step [OF assms, of 100] div_step [OF assms, of 400]
    by (simp add: is_leap_def split: if_split)
qed

lemma year_sum:
  fixes a b c d e f l z :: nat
  assumes "a + e + c = d + b + f + l" "b \<le> a" "e \<le> d"
  shows "Suc z * 365 + a - b + c = z * 365 + d - e + f + 365 + l"
  using assms by simp

lemma days_before_year_Suc:
  assumes "1 \<le> y"
  shows "days_before_year (y + 1) = days_before_year y + 365 + (if is_leap y then 1 else 0)"
proof -
  have a: "(y - 1) div 100 \<le> (y - 1) div 4" "y div 100 \<le> y div 4" by (simp_all add: div_le_mono2)
  obtain z where z: "y = Suc z" using assms by (cases y) auto
  have "y + 1 - 1 = Suc z" "y - 1 = z" using z by simp_all
  then show ?thesis using year_sum [OF leap_div [OF assms] a(2,1), of z] unfolding days_before_year_def by (simp only: z)
qed

lemma days_before_month_Suc: "1 \<le> m \<Longrightarrow> days_before_month y (m + 1) = days_before_month y m + days_in_month y m"
  by (simp add: days_before_month_def)

lemma days_before_13: "days_before_month y 13 = 365 + (if is_leap y then 1 else 0)"
  by (simp add: days_before_month_def days_in_month_def upt_rec)

lemma next_month_ordinal:
  assumes "valid_instant now" "next_month now = Some nxt"
  shows "ordinal (in_year nxt) (in_month nxt) (in_day nxt) =
    ordinal (in_year now) (in_month now) 0 + days_in_month (in_year now) (in_month now) + 1"
    and "in_second nxt = 0" "in_micro nxt = 0"
proof -
  show "in_second nxt = 0" "in_micro nxt = 0"
    using assms(2) by (auto simp: next_month_def Let_def split: prod.splits if_splits)
  show "ordinal (in_year nxt) (in_month nxt) (in_day nxt) =
    ordinal (in_year now) (in_month now) 0 + days_in_month (in_year now) (in_month now) + 1"
  proof (cases "in_month now = 12")
    case True
    have "days_before_month (in_year now) 12 + days_in_month (in_year now) 12 = 365 + (if is_leap (in_year now) then 1 else 0)"
      using days_before_month_Suc [of 12 "in_year now"] days_before_13 by simp
    moreover have "nxt = \<lparr>in_year = in_year now + 1, in_month = 1, in_day = 1, in_second = 0, in_micro = 0\<rparr>"
      using assms(2) True by (auto simp: next_month_def split: if_splits)
    moreover have "days_before_month (in_year now + 1) 1 = 0" by (simp add: days_before_month_def)
    ultimately show ?thesis
      using days_before_year_Suc [of "in_year now"] assms(1) True by (simp add: ordinal_def valid_instant_def)
  next
    case False
    then have "nxt = \<lparr>in_year = in_year now, in_month = in_month now + 1, in_day = 1, in_second = 0, in_micro = 0\<rparr>"
      using assms(2) by (auto simp: next_month_def split: if_splits)
    then show ?thesis
      using days_before_month_Suc [of "in_month now" "in_year now"] assms(1) by (simp add: ordinal_def valid_instant_def)
  qed
qed

lemma month_gap:
  assumes "valid_instant now" "next_month now = Some nxt"
  shows "micros nxt - micros now =
    (int (days_in_month (in_year now) (in_month now) + 1 - in_day now) * 86400 - int (in_second now)) * 1000000 - int (in_micro now)"
proof -
  have d: "in_day now \<le> days_in_month (in_year now) (in_month now)" using assms(1) by (simp add: valid_instant_def)
  have "int (ordinal (in_year nxt) (in_month nxt) (in_day nxt)) - int (ordinal (in_year now) (in_month now) (in_day now))
      = int (days_in_month (in_year now) (in_month now) + 1 - in_day now)"
    using d next_month_ordinal(1) [OF assms] by (simp add: ordinal_def)
  then show ?thesis
    using next_month_ordinal(2,3) [OF assms] by (simp add: micros_def algebra_simps)
qed

lemma days_in_month_range: "28 \<le> days_in_month y m" "days_in_month y m \<le> 31"
  by (auto simp: days_in_month_def)

section \<open>Enforcement over a sequence of requests\<close>

text \<open>
  An upload: read the usage, check, and store the document when it is allowed.  A query: the same with
  the month's usage rows.
\<close>

definition try_upload :: "limits \<Rightarrow> int \<Rightarrow> int option list \<Rightarrow> int option list" where
  "try_upload lm n docs = (if dec_allowed (check_upload lm (get_usage docs None 0) n) then docs @ [Some n] else docs)"

definition try_query :: "limits \<Rightarrow> instant \<Rightarrow> rat \<Rightarrow> rat \<Rightarrow> rat list \<Rightarrow> rat list" where
  "try_query lm now month_start t rows =
     (case check_query lm (get_usage [] (Some rows) month_start) now of
        None \<Rightarrow> rows | Some d \<Rightarrow> if dec_allowed d then rows @ [t] else rows)"

definition stored_bytes :: "int option list \<Rightarrow> int" where
  "stored_bytes docs = us_storage_bytes (get_usage docs None 0)"

lemma get_usage_snoc:
  "us_docs (get_usage (docs @ [Some n]) l m) = us_docs (get_usage docs l m) + 1"
  "us_storage_bytes (get_usage (docs @ [Some n]) l m) = us_storage_bytes (get_usage docs l m) + n"
  by (simp_all add: get_usage_def Let_def)

lemma check_query_allowed:
  "check_query lm u now = Some d \<Longrightarrow> dec_allowed d \<longleftrightarrow> us_queries_this_month u + 1 \<le> lim_queries_per_month lm"
  by (auto simp: check_query_def allow_def split: if_splits option.splits)

lemma retry_after_core:
  assumes "valid_instant now" "next_month now = Some nxt"
  shows "\<exists>s. seconds_until_next_month now = Some s"
  using assms by (simp add: seconds_until_next_month_def)

section \<open>Properties\<close>

text \<open>
  C40. The time a refused query is told to wait: the whole seconds left to the first instant of the
  next month, at most 31 days, so neither branch of the cap is ever taken; waiting one second longer
  is always enough, and the wait is 0, which callers read as "no retry will help", exactly in the
  last second of a month.
\<close>

theorem retry_after_next_month:
  assumes "valid_instant now" "next_month now = Some nxt"
  shows "\<exists>s. seconds_until_next_month now = Some s \<and> 0 \<le> s \<and> s \<le> 31 * 86400
    \<and> micros now + s * 1000000 \<le> micros nxt \<and> micros nxt < micros now + (s + 1) * 1000000
    \<and> (s = 0 \<longleftrightarrow> micros nxt - micros now < 1000000) \<and> s = (micros nxt - micros now) div 1000000"
proof -
  let ?d = "micros nxt - micros now" and ?n = "days_in_month (in_year now) (in_month now) + 1 - in_day now"
  have v: "1 \<le> in_day now" "in_day now \<le> days_in_month (in_year now) (in_month now)" "in_second now < 86400" "in_micro now < 1000000"
    using assms(1) by (auto simp: valid_instant_def)
  define n sec us where "n = int ?n" and "sec = int (in_second now)" and "us = int (in_micro now)"
  have "1 \<le> n" "n \<le> 31" unfolding n_def using v(1,2) days_in_month_range(2) [of "in_year now" "in_month now"] by linarith+
  moreover have "0 \<le> sec" "sec < 86400" "0 \<le> us" "us < 1000000" using v(3,4) by (simp_all add: sec_def us_def)
  moreover define k where "k = n * 86400 - sec"
  ultimately have k: "1 \<le> k" "k \<le> 2678400" "0 \<le> us" "us < 1000000" by linarith+
  have "?d = k * 1000000 - us" using month_gap [OF assms] by (simp only: n_def sec_def us_def k_def)
  then have b: "0 < ?d" "?d \<le> 31 * 86400 * 1000000" using k by simp_all
  define s where "s = ?d div 1000000"
  have s: "0 \<le> s" "s \<le> 31 * 86400" using b unfolding s_def by (simp_all add: pos_imp_zdiv_nonneg_iff)
  have e: "s * 1000000 + ?d mod 1000000 = ?d" unfolding s_def by (rule div_mult_mod_eq)
  have m: "0 \<le> ?d mod 1000000" "?d mod 1000000 < 1000000" by simp_all
  have "seconds_until_next_month now = Some s"
    using b(1) s assms(2) by (simp add: seconds_until_next_month_def trunc_seconds_def cap_at_32_days_def flip: s_def)
  moreover have "s = 0 \<longleftrightarrow> ?d < 1000000" using e m s(1) by linarith
  moreover have "micros now + s * 1000000 \<le> micros nxt" "micros nxt < micros now + (s + 1) * 1000000"
    using e m by (simp_all add: algebra_simps)
  ultimately show ?thesis using s s_def by blast
qed

definition new_years_eve :: instant where
  "new_years_eve = \<lparr>in_year = 2024, in_month = 12, in_day = 31, in_second = 86399, in_micro = 500000\<rparr>"

lemma retry_after_next_month_witness: "seconds_until_next_month new_years_eve = Some 0"
proof -
  have v: "valid_instant new_years_eve" by (simp add: new_years_eve_def valid_instant_def days_in_month_def)
  have n: "next_month new_years_eve = Some \<lparr>in_year = 2025, in_month = 1, in_day = 1, in_second = 0, in_micro = 0\<rparr>"
    by (simp add: new_years_eve_def next_month_def)
  have "micros \<lparr>in_year = 2025, in_month = 1, in_day = 1, in_second = 0, in_micro = 0\<rparr> - micros new_years_eve < 1000000"
    using month_gap [OF v n] by (simp add: new_years_eve_def days_in_month_def)
  with retry_after_next_month [OF v n] show ?thesis by auto
qed

text \<open>
  Uploads never take a tenant over a limit: whatever sizes are tried in whatever order, the stored
  documents and bytes stay within the limits they were within, and an upload is refused exactly
  when it would exceed one of them, documents reported first.
\<close>

theorem uploads_within_limits:
  assumes "int (length docs) \<le> lim_docs lm" "stored_bytes docs \<le> lim_storage_bytes lm"
  shows "int (length (fold (try_upload lm) ns docs)) \<le> lim_docs lm
    \<and> stored_bytes (fold (try_upload lm) ns docs) \<le> lim_storage_bytes lm
    \<and> (dec_allowed (check_upload lm (get_usage docs None 0) n) \<longleftrightarrow>
         int (length docs) + 1 \<le> lim_docs lm \<and> stored_bytes docs + n \<le> lim_storage_bytes lm)
    \<and> (lim_docs lm < int (length docs) + 1 \<longrightarrow> dec_resource (check_upload lm (get_usage docs None 0) n) = Some DOCS)"
proof -
  have step: "int (length (try_upload lm n ds)) \<le> lim_docs lm \<and> stored_bytes (try_upload lm n ds) \<le> lim_storage_bytes lm"
    if "int (length ds) \<le> lim_docs lm" "stored_bytes ds \<le> lim_storage_bytes lm" for n ds
  proof -
    have "us_docs (get_usage ds None 0) = int (length ds)" by (simp add: get_usage_def Let_def)
    then show ?thesis using that
      by (auto simp: try_upload_def stored_bytes_def get_usage_snoc check_upload_def split: if_splits)
  qed
  have "int (length (fold (try_upload lm) ns ds)) \<le> lim_docs lm \<and> stored_bytes (fold (try_upload lm) ns ds) \<le> lim_storage_bytes lm"
    if "int (length ds) \<le> lim_docs lm" "stored_bytes ds \<le> lim_storage_bytes lm" for ds
    using that by (induction ns arbitrary: ds) (simp_all add: step)
  then show ?thesis
    using assms by (auto simp: check_upload_def allow_def stored_bytes_def get_usage_def Let_def split: if_splits)
qed

lemma uploads_within_limits_witness:
  "int (length (fold (try_upload \<lparr>lim_docs = 2, lim_storage_bytes = 10, lim_queries_per_month = 1\<rparr>) [4, 20, 6, 1] [])) \<le> 2"
  using uploads_within_limits [of "[]" "\<lparr>lim_docs = 2, lim_storage_bytes = 10, lim_queries_per_month = 1\<rparr>" "[4, 20, 6, 1]" 0]
  by (simp add: stored_bytes_def get_usage_def)

text \<open>
  Exactly the month's quota of queries passes: of any sequence of attempts within one month,
  starting with no usage, as many are allowed and recorded as the limit, or all of them when they
  are fewer, and the first ones are.
\<close>

theorem queries_up_to_quota:
  assumes "\<forall>t \<in> set ts. month_start \<le> t" "valid_instant now" "next_month now = Some nxt" "0 \<le> lim_queries_per_month lm"
  shows "fold (try_query lm now month_start) ts [] = take (nat (lim_queries_per_month lm)) ts"
proof -
  have q: "us_queries_this_month (get_usage [] (Some rows) month_start) = int (length rows)" if "\<forall>t \<in> set rows. month_start \<le> t" for rows
    using that by (simp add: get_usage_def Let_def filter_id_conv)
  obtain s where s: "seconds_until_next_month now = Some s" using retry_after_core [OF assms(2,3)] by blast
  have step: "try_query lm now month_start t rows = (if int (length rows) + 1 \<le> lim_queries_per_month lm then rows @ [t] else rows)"
    if "\<forall>t \<in> set rows. month_start \<le> t" for t rows
    using q [OF that] s by (simp add: try_query_def check_query_def allow_def)
  have "fold (try_query lm now month_start) ts rows = take (nat (lim_queries_per_month lm)) (rows @ ts)"
    if "int (length rows) \<le> lim_queries_per_month lm" "\<forall>t \<in> set rows. month_start \<le> t" for rows
    using that assms(1)
  proof (induction ts arbitrary: rows)
    case (Cons t ts)
    show ?case
    proof (cases "int (length rows) + 1 \<le> lim_queries_per_month lm")
      case True
      then show ?thesis using Cons.IH [of "rows @ [t]"] Cons.prems step [of rows t] by simp
    next
      case False
      then have l: "length rows = nat (lim_queries_per_month lm)" using Cons.prems(1) by simp
      have "fold (try_query lm now month_start) ts rows = take (nat (lim_queries_per_month lm)) (rows @ ts)"
        using Cons by simp
      with False l show ?thesis using step [OF Cons.prems(2), of t] by simp
    qed
  qed (simp add: nat_le_iff)
  from this [of "[]"] assms(4) show ?thesis by simp
qed

lemma queries_up_to_quota_witness:
  "fold (try_query \<lparr>lim_docs = 2, lim_storage_bytes = 10, lim_queries_per_month = 2\<rparr> new_years_eve 1) [5, 6, 7] [] = [5, 6]"
proof -
  have "valid_instant new_years_eve" "next_month new_years_eve = Some \<lparr>in_year = 2025, in_month = 1, in_day = 1, in_second = 0, in_micro = 0\<rparr>"
    by (simp_all add: new_years_eve_def valid_instant_def days_in_month_def next_month_def)
  from queries_up_to_quota [OF _ this, of "[5, 6, 7]" 1] show ?thesis by (simp add: numeral_2_eq_2)
qed

text \<open>
  Limits are the tenant's own: the row of another tenant never shows, a tenant without a row and a
  session without a tenant get the defaults, and recording usage adds one row under the given tenant
  and touches no other.
\<close>

theorem limits_isolated:
  "load_limits tenant table = load_limits tenant (filter (\<lambda>(t, _). tenant = Some t) table)
   \<and> (tenant \<notin> Some ` fst ` set table \<longrightarrow> load_limits tenant table =
        \<lparr>lim_docs = 100, lim_storage_bytes = 524288000, lim_queries_per_month = 1000\<rparr>)
   \<and> load_limits None table = load_limits None []
   \<and> filter (\<lambda>r. ur_tenant r \<noteq> t) (record_usage t p m i o' c rows) = filter (\<lambda>r. ur_tenant r \<noteq> t) rows"
proof -
  have a: "load_limits tenant table = load_limits tenant (filter (\<lambda>(t, _). tenant = Some t) table)"
    by (simp add: load_limits_def)
  have b: "tenant \<notin> Some ` fst ` set table \<longrightarrow> load_limits tenant table = load_limits tenant []"
  proof
    assume "tenant \<notin> Some ` fst ` set table"
    then have "filter (\<lambda>(t, _). tenant = Some t) table = []" by (force simp: filter_empty_conv)
    then show "load_limits tenant table = load_limits tenant []" unfolding load_limits_def by simp
  qed
  have c: "load_limits tenant [] = \<lparr>lim_docs = 100, lim_storage_bytes = 524288000, lim_queries_per_month = 1000\<rparr>"
    by (simp add: load_limits_def DEFAULT_DOCS_def DEFAULT_STORAGE_BYTES_def DEFAULT_QUERIES_PER_MONTH_def)
  have "load_limits None table = load_limits None []" by (simp add: load_limits_def case_prod_beta)
  then show ?thesis using a b c by (simp add: record_usage_def)
qed

lemma limits_isolated_witness:
  "load_limits (Some 1) [(2, 5, 5, 5)] = \<lparr>lim_docs = 100, lim_storage_bytes = 524288000, lim_queries_per_month = 1000\<rparr>"
proof -
  have "Some 1 \<notin> Some ` fst ` set [(2 :: nat, 5 :: int, 5 :: int, 5 :: int)]" by simp
  then show ?thesis using limits_isolated [of "Some 1" "[(2, 5, 5, 5)]" 0 "[]" "[]" 0 0 0 "[]"] by blast
qed

end
