(* ===== verification/Scheduler.thy ===== *)
theory Scheduler
  imports Envelope Sha256
begin

text \<open>
  \<open>omkit/scheduler\<close>: the provider rows (\<open>types.py\<close>, \<open>source.py\<close>) and the reconcile loop that makes a
  cron backend's entries follow them (\<open>scheduler.py\<close>).  The backend, the enqueuer and the derivation
  of a cron spec are the service's own: they are the functions of \<open>sched_env\<close> over an outside world,
  and \<open>backend_ok\<close> names what registering and unregistering do to the entries that are live there.
\<close>

section \<open>Provider rows: types.py and source.py\<close>

record provider =
  pr_tenant :: pystr
  pr_name :: pystr
  pr_config :: "(pystr \<times> json) list"

text \<open>A row's \<open>config\<close> column: bytes, a text, or a value the driver parsed before (\<open>None\<close> is \<open>JNull\<close>).\<close>

datatype raw_config =
    CfgBytes bytes
  | CfgStr pystr
  | CfgParsed json

record provider_row =
  row_tenant :: pystr
  row_name :: pystr
  row_config :: raw_config

definition as_config :: "json option \<Rightarrow> (pystr \<times> json) list" where
  "as_config v = (case v of Some (JObj kvs) \<Rightarrow> kvs | _ \<Rightarrow> [])"

text \<open>None is the \<open>UnicodeDecodeError\<close> of \<open>raw.decode\<close>, which stands outside the \<open>try\<close>.\<close>

definition row_provider :: "provider_row \<Rightarrow> provider option" where
  "row_provider row =
     (let config_of = (\<lambda>s. as_config (loads s));
          mk = (\<lambda>cfg. \<lparr>pr_tenant = row_tenant row, pr_name = row_name row, pr_config = cfg\<rparr>)
      in case row_config row of
           CfgBytes bs \<Rightarrow> map_option (\<lambda>s. mk (config_of s)) (utf8_decode False bs)
         | CfgStr s \<Rightarrow> Some (mk (config_of s))
         | CfgParsed (JStr s) \<Rightarrow> Some (mk (config_of s))
         | CfgParsed raw \<Rightarrow> Some (mk (as_config (Some (if json_truthy raw then raw else JObj [])))))"

definition fetch_providers :: "provider_row list \<Rightarrow> provider list option" where
  "fetch_providers rows = those (map row_provider rows)"

section \<open>The outside world of a scheduler\<close>

text \<open>
  \<open>derive_cron\<close> returns a cron spec with its \<open>ok\<close> mark, or raises.  \<open>se_register\<close> returns the entry id,
  None when it raises; \<open>se_unregister\<close> and the optional enqueuer tell whether they returned normally.
\<close>

record 'w sched_env =
  se_pydantic :: pydantic
  se_queue :: pystr
  se_task_type :: pystr
  se_derive :: "provider \<Rightarrow> nat + pystr \<times> bool"
  se_register :: "pystr \<Rightarrow> pystr \<Rightarrow> bytes \<Rightarrow> pystr \<Rightarrow> 'w \<Rightarrow> 'w \<times> pystr option"
  se_unregister :: "pystr \<Rightarrow> 'w \<Rightarrow> 'w \<times> bool"
  se_enqueue :: "(pystr \<Rightarrow> pystr \<Rightarrow> (pystr \<times> json) list \<Rightarrow> pystr \<Rightarrow> 'w \<Rightarrow> 'w \<times> bool) option"

record reg_entry =
  ent_id :: pystr
  ent_hash :: pystr
  ent_cronspec :: pystr

record 'w sched =
  sc_entries :: "(pystr, reg_entry) dict"
  sc_world :: 'w
  sc_loops :: nat
  sc_stopped :: bool

definition sched_init :: "'w \<Rightarrow> 'w sched" where
  "sched_init w = \<lparr>sc_entries = [], sc_world = w, sc_loops = 0, sc_stopped = False\<rparr>"

section \<open>Keys, payloads and hashes\<close>

definition sched_key :: "pystr \<Rightarrow> pystr \<Rightarrow> pystr" where
  "sched_key tenant name = tenant @ py '':'' @ name"

text \<open>\<open>json.dumps\<close> of a JSON value cannot raise, so the fallback to an empty object is never taken here.\<close>

definition build_payload :: "provider \<Rightarrow> (pystr \<times> json) list" where
  "build_payload p =
     [(py ''provider_name'', JStr (pr_name p)), (py ''config'', JStr (dumps_default (jsort (JObj (pr_config p)))))]"

text \<open>The hashed bytes; None is the \<open>UnicodeEncodeError\<close> of a cron spec with a surrogate.\<close>

definition hash_input :: "pystr \<Rightarrow> (pystr \<times> json) list \<Rightarrow> bytes option" where
  "hash_input cronspec cfg =
     map_option (\<lambda>c. c @ [0] @ map byte_of (dumps_compact (jsort (JObj cfg)))) (utf8_encode cronspec)"

definition config_hash :: "pystr \<Rightarrow> (pystr \<times> json) list \<Rightarrow> pystr option" where
  "config_hash cronspec cfg = map_option (\<lambda>m. bytes_hex (sha256 m)) (hash_input cronspec cfg)"

section \<open>One reconcile\<close>

definition register_body :: "'w sched_env \<Rightarrow> provider \<Rightarrow> envelope_error + bytes" where
  "register_body E p = wrap (se_pydantic E) (pr_tenant p) (build_payload p) []"

definition register_one :: "'w sched_env \<Rightarrow> provider \<Rightarrow> pystr \<Rightarrow> 'w \<Rightarrow> 'w \<times> pystr option" where
  "register_one E p cronspec w =
     (case register_body E p of
        Inl _ \<Rightarrow> (w, None)
      | Inr body \<Rightarrow> se_register E cronspec (se_task_type E) body (se_queue E) w)"

definition unregister_entry :: "'w sched_env \<Rightarrow> pystr \<Rightarrow> 'w sched \<Rightarrow> 'w sched \<times> bool" where
  "unregister_entry E k s =
     (case dget (sc_entries s) k of
        None \<Rightarrow> (s, False)
      | Some ent \<Rightarrow>
          (case se_unregister E (ent_id ent) (sc_world s) of
             (w, True) \<Rightarrow> (s\<lparr>sc_world := w, sc_entries := dpop k (sc_entries s)\<rparr>, True)
           | (w, False) \<Rightarrow> (s\<lparr>sc_world := w\<rparr>, False)))"

definition enqueue_now :: "'w sched_env \<Rightarrow> provider \<Rightarrow> 'w \<Rightarrow> 'w" where
  "enqueue_now E p w =
     (case se_enqueue E of
        None \<Rightarrow> w
      | Some enq \<Rightarrow> fst (enq (se_task_type E) (pr_tenant p) (build_payload p) (se_queue E) w))"

definition register_entry :: "'w sched_env \<Rightarrow> pystr \<Rightarrow> provider \<Rightarrow> pystr \<Rightarrow> pystr \<Rightarrow> 'w sched \<Rightarrow> 'w sched" where
  "register_entry E k p cronspec h s =
     (case register_one E p cronspec (sc_world s) of
        (w, None) \<Rightarrow> s\<lparr>sc_world := w\<rparr>
      | (w, Some eid) \<Rightarrow>
          s\<lparr>sc_entries := dset k \<lparr>ent_id = eid, ent_hash = h, ent_cronspec = cronspec\<rparr> (sc_entries s),
            sc_world := enqueue_now E p w\<rparr>)"

text \<open>The body of the second loop; the flag tells that an exception escaped from it.\<close>

definition place_provider :: "'w sched_env \<Rightarrow> pystr \<Rightarrow> provider \<Rightarrow> 'w sched \<Rightarrow> 'w sched \<times> bool" where
  "place_provider E k p s =
     (case se_derive E p of
        Inl _ \<Rightarrow> (s, True)
      | Inr (cronspec, ok) \<Rightarrow>
          if \<not> ok then (s, False)
          else (case config_hash cronspec (pr_config p) of
             None \<Rightarrow> (s, True)
           | Some h \<Rightarrow>
               (case dget (sc_entries s) k of
                  None \<Rightarrow> (register_entry E k p cronspec h s, False)
                | Some existing \<Rightarrow>
                    if ent_hash existing = h then (s, False)
                    else (case unregister_entry E k s of
                       (s', False) \<Rightarrow> (s', False)
                     | (s', True) \<Rightarrow> (register_entry E k p cronspec h s', False)))))"

fun place_all :: "'w sched_env \<Rightarrow> (pystr \<times> provider) list \<Rightarrow> 'w sched \<Rightarrow> 'w sched \<times> bool" where
  "place_all E [] s = (s, False)"
| "place_all E ((k, p) # kps) s =
     (case place_provider E k p s of
        (s', True) \<Rightarrow> (s', True)
      | (s', False) \<Rightarrow> place_all E kps s')"

definition desired_of :: "provider list \<Rightarrow> (pystr, provider) dict" where
  "desired_of rows = dict_of (map (\<lambda>r. (sched_key (pr_tenant r) (pr_name r), r)) rows)"

definition drop_stale :: "'w sched_env \<Rightarrow> (pystr, provider) dict \<Rightarrow> 'w sched \<Rightarrow> 'w sched" where
  "drop_stale E desired s =
     foldl (\<lambda>s k. fst (unregister_entry E k s)) s (filter (\<lambda>k. k \<notin> set (keys desired)) (keys (sc_entries s)))"

text \<open>\<open>fetched\<close> is what the source returned, None when it raised; the flag tells that the reconcile raised.\<close>

definition reconcile :: "'w sched_env \<Rightarrow> provider list option \<Rightarrow> 'w sched \<Rightarrow> 'w sched \<times> bool" where
  "reconcile E fetched s =
     (case fetched of
        None \<Rightarrow> (s, False)
      | Some rows \<Rightarrow> (let desired = desired_of rows in place_all E desired (drop_stale E desired s)))"

definition sched_entries :: "'w sched \<Rightarrow> pystr list" where
  "sched_entries s = sort (keys (sc_entries s))"

section \<open>The loop\<close>

text \<open>
  \<open>start\<close> and a tick of the loop each reconcile once; an exception that escapes ends the loop (or
  \<open>start\<close> before it makes one), and \<open>stop\<close> ends the loops through the event and the cancellation.
  The lock makes the reconciles of two loops follow each other.
\<close>

inductive sched_step :: "'w sched_env \<Rightarrow> 'w sched \<Rightarrow> 'w sched \<Rightarrow> bool" for E where
  start_ok: "reconcile E f s = (s', False) \<Longrightarrow> sched_step E s (s'\<lparr>sc_stopped := False, sc_loops := Suc (sc_loops s')\<rparr>)"
| start_raises: "reconcile E f s = (s', True) \<Longrightarrow> sched_step E s s'"
| tick: "0 < sc_loops s \<Longrightarrow> \<not> sc_stopped s \<Longrightarrow> reconcile E f s = (s', False) \<Longrightarrow> sched_step E s s'"
| tick_raises: "0 < sc_loops s \<Longrightarrow> \<not> sc_stopped s \<Longrightarrow> reconcile E f s = (s', True) \<Longrightarrow>
    sched_step E s (s'\<lparr>sc_loops := sc_loops s' - 1\<rparr>)"
| stop: "sched_step E s (s\<lparr>sc_stopped := True, sc_loops := 0\<rparr>)"

inductive_cases sched_stepE: "sched_step E s s'"


section \<open>The contract of a backend\<close>

text \<open>
  \<open>live w id\<close> is the schedule the backend keeps under an id: spec, task, body and queue.  A register
  that returns adds exactly one under a new id, an unregister that returns removes exactly that id,
  one that raises changes nothing, and enqueueing does not touch the schedules.
\<close>

type_synonym 'w schedules = "'w \<Rightarrow> pystr \<Rightarrow> (pystr \<times> pystr \<times> bytes \<times> pystr) option"

definition backend_ok :: "'w sched_env \<Rightarrow> 'w schedules \<Rightarrow> bool" where
  "backend_ok E live =
     ((\<forall>c t b q w w' id. se_register E c t b q w = (w', Some id) \<longrightarrow>
         live w id = None \<and> live w' = (live w)(id \<mapsto> (c, t, b, q)))
    \<and> (\<forall>c t b q w w'. se_register E c t b q w = (w', None) \<longrightarrow> live w' = live w)
    \<and> (\<forall>id w w'. se_unregister E id w = (w', True) \<longrightarrow> live w' = (live w)(id := None))
    \<and> (\<forall>id w w'. se_unregister E id w = (w', False) \<longrightarrow> live w' = live w)
    \<and> (\<forall>enq t n p q w. se_enqueue E = Some enq \<longrightarrow> live (fst (enq t n p q w)) = live w))"

text \<open>An entry is sound when its id is live with the spec of the entry and a body that carries a
  provider of its key whose configuration has the entry's hash.\<close>

definition entry_sound :: "'w sched_env \<Rightarrow> 'w schedules \<Rightarrow> 'w \<Rightarrow> pystr \<Rightarrow> reg_entry \<Rightarrow> bool" where
  "entry_sound E live w k ent =
     (\<exists>p body. sched_key (pr_tenant p) (pr_name p) = k
        \<and> register_body E p = Inr body
        \<and> config_hash (ent_cronspec ent) (pr_config p) = Some (ent_hash ent)
        \<and> live w (ent_id ent) = Some (ent_cronspec ent, se_task_type E, body, se_queue E))"

text \<open>The scheduler and its backend agree: every entry is sound, every live schedule belongs to exactly one entry.\<close>

definition in_sync :: "'w sched_env \<Rightarrow> 'w schedules \<Rightarrow> 'w sched \<Rightarrow> bool" where
  "in_sync E live s =
     (distinct (keys (sc_entries s))
    \<and> (\<forall>k ent. dget (sc_entries s) k = Some ent \<longrightarrow> entry_sound E live (sc_world s) k ent)
    \<and> (\<forall>k k' ent ent'. dget (sc_entries s) k = Some ent \<longrightarrow> dget (sc_entries s) k' = Some ent' \<longrightarrow>
         ent_id ent = ent_id ent' \<longrightarrow> k = k')
    \<and> (\<forall>id. live (sc_world s) id \<noteq> None \<longrightarrow> (\<exists>k ent. dget (sc_entries s) k = Some ent \<and> ent_id ent = id)))"

declare map_of_eq_Some_iff [simp del]

lemma in_sync_cong:
  "in_sync E live s \<Longrightarrow> live w = live (sc_world s) \<Longrightarrow> in_sync E live (s\<lparr>sc_world := w\<rparr>)"
  by (simp add: in_sync_def entry_sound_def)

lemma in_sync_flags [simp]:
  "in_sync E live (s\<lparr>sc_loops := n\<rparr>) = in_sync E live s"
  "in_sync E live (s\<lparr>sc_stopped := b\<rparr>) = in_sync E live s"
  by (simp_all add: in_sync_def)

lemma in_sync_init: "live w = Map.empty \<Longrightarrow> in_sync E live (sched_init w)"
  by (simp add: in_sync_def sched_init_def)

lemma in_sync_unregister:
  assumes "backend_ok E live" "in_sync E live s"
  shows "in_sync E live (fst (unregister_entry E k s))"
proof (cases "dget (sc_entries s) k")
  case None
  then show ?thesis using assms(2) by (simp add: unregister_entry_def)
next
  case (Some ent)
  obtain w ok where u: "se_unregister E (ent_id ent) (sc_world s) = (w, ok)" by fastforce
  show ?thesis
  proof (cases ok)
    case False
    have "live w = live (sc_world s)" using assms(1) u False by (auto simp: backend_ok_def)
    then show ?thesis using in_sync_cong [OF assms(2)] u False Some by (simp add: unregister_entry_def)
  next
    case True
    have lw: "live w = (live (sc_world s))(ent_id ent := None)" using assms(1) u True by (auto simp: backend_ok_def)
    have other: "k' \<noteq> k \<Longrightarrow> dget (sc_entries s) k' = Some e \<Longrightarrow> ent_id e \<noteq> ent_id ent" for k' e
      using assms(2) Some unfolding in_sync_def by blast
    have sound: "entry_sound E live w k' e" if "k' \<noteq> k" "dget (sc_entries s) k' = Some e" for k' e
    proof -
      have "entry_sound E live (sc_world s) k' e" using assms(2) that(2) unfolding in_sync_def by blast
      then show ?thesis using other [OF that] by (simp add: entry_sound_def lw)
    qed
    have "in_sync E live (s\<lparr>sc_world := w, sc_entries := dpop k (sc_entries s)\<rparr>)"
      unfolding in_sync_def
    proof (intro conjI allI impI)
      show "distinct (keys (sc_entries (s\<lparr>sc_world := w, sc_entries := dpop k (sc_entries s)\<rparr>)))"
        using assms(2) by (simp add: in_sync_def distinct_removeAll)
    next
      fix id
      assume "live (sc_world (s\<lparr>sc_world := w, sc_entries := dpop k (sc_entries s)\<rparr>)) id \<noteq> None"
      then have id: "id \<noteq> ent_id ent" "live (sc_world s) id \<noteq> None" by (auto simp: lw split: if_splits)
      then obtain k' e where e: "dget (sc_entries s) k' = Some e" "ent_id e = id"
        using assms(2) unfolding in_sync_def by blast
      with Some id(1) have "k' \<noteq> k" by auto
      with e show "\<exists>k' ent. dget (sc_entries (s\<lparr>sc_world := w, sc_entries := dpop k (sc_entries s)\<rparr>)) k' = Some ent \<and> ent_id ent = id"
        by auto
    next
      fix k1 k2 e1 e2
      assume "dget (sc_entries (s\<lparr>sc_world := w, sc_entries := dpop k (sc_entries s)\<rparr>)) k1 = Some e1"
        and "dget (sc_entries (s\<lparr>sc_world := w, sc_entries := dpop k (sc_entries s)\<rparr>)) k2 = Some e2" "ent_id e1 = ent_id e2"
      then have "dget (sc_entries s) k1 = Some e1" "dget (sc_entries s) k2 = Some e2" "ent_id e1 = ent_id e2" by (auto split: if_splits)
      then show "k1 = k2" using assms(2) unfolding in_sync_def by blast
    qed (use sound in \<open>auto split: if_splits\<close>)
    then show ?thesis using u True Some by (simp add: unregister_entry_def)
  qed
qed

lemma unregister_True:
  "unregister_entry E k s = (s', True) \<Longrightarrow> sc_entries s' = dpop k (sc_entries s)"
  by (auto simp: unregister_entry_def split: option.splits prod.splits bool.splits)

lemma unregister_False:
  "unregister_entry E k s = (s', False) \<Longrightarrow> sc_entries s' = sc_entries s"
  by (auto simp: unregister_entry_def split: option.splits prod.splits bool.splits)

lemma enqueue_live: "backend_ok E live \<Longrightarrow> live (enqueue_now E p w) = live w"
  by (auto simp: enqueue_now_def backend_ok_def split: option.splits)


lemma in_sync_insert:
  assumes "in_sync E live s" "dget (sc_entries s) k = None" "live (sc_world s) (ent_id ent) = None"
    and "live w = (live (sc_world s))(ent_id ent \<mapsto> x)" "entry_sound E live w k ent"
  shows "in_sync E live (s\<lparr>sc_entries := dset k ent (sc_entries s), sc_world := w\<rparr>)"
proof -
  let ?s = "s\<lparr>sc_entries := dset k ent (sc_entries s), sc_world := w\<rparr>"
  have fresh: "ent_id e \<noteq> ent_id ent" if "dget (sc_entries s) k' = Some e" for k' e
  proof -
    have "live (sc_world s) (ent_id e) \<noteq> None"
      using assms(1) that unfolding in_sync_def entry_sound_def by fastforce
    then show ?thesis using assms(3) by auto
  qed
  have sound: "entry_sound E live w k' e" if "dget (sc_entries s) k' = Some e" for k' e
  proof -
    have "entry_sound E live (sc_world s) k' e" using assms(1) that unfolding in_sync_def by blast
    then show ?thesis using fresh [OF that] by (simp add: entry_sound_def assms(4))
  qed
  show ?thesis unfolding in_sync_def
  proof (intro conjI allI impI)
    show "distinct (keys (sc_entries ?s))" using assms(1) by (simp add: in_sync_def distinct_update)
  next
    fix k' e
    assume "dget (sc_entries ?s) k' = Some e"
    then show "entry_sound E live (sc_world ?s) k' e"
      using sound assms(5) by (auto split: if_splits)
  next
    fix k1 k2 e1 e2
    assume d: "dget (sc_entries ?s) k1 = Some e1" "dget (sc_entries ?s) k2 = Some e2" and eq: "ent_id e1 = ent_id e2"
    have old: "(k' = k \<and> e = ent) \<or> (k' \<noteq> k \<and> dget (sc_entries s) k' = Some e)"
      if "dget (sc_entries ?s) k' = Some e" for k' e
      using that by (simp split: if_splits)
    have inj: "dget (sc_entries s) k1 = Some e1 \<Longrightarrow> dget (sc_entries s) k2 = Some e2 \<Longrightarrow> k1 = k2"
      using assms(1) eq unfolding in_sync_def by blast
    show "k1 = k2" using old [OF d(1)] old [OF d(2)] fresh [of k1 e1] fresh [of k2 e2] inj eq by metis
  next
    fix i
    assume "live (sc_world ?s) i \<noteq> None"
    then consider "i = ent_id ent" | "live (sc_world s) i \<noteq> None" by (auto simp: assms(4) split: if_splits)
    then show "\<exists>k' e. dget (sc_entries ?s) k' = Some e \<and> ent_id e = i"
    proof cases
      case 1
      have "dget (sc_entries ?s) k = Some ent" by simp
      with 1 show ?thesis by blast
    next
      case 2
      then obtain k' e where e: "dget (sc_entries s) k' = Some e" "ent_id e = i"
        using assms(1) unfolding in_sync_def by blast
      with assms(2) have "dget (sc_entries ?s) k' = Some e" by auto
      with e(2) show ?thesis by blast
    qed
  qed
qed

lemma in_sync_register:
  assumes "backend_ok E live" "in_sync E live s" "dget (sc_entries s) k = None"
    and "sched_key (pr_tenant p) (pr_name p) = k" "config_hash c (pr_config p) = Some h"
  shows "in_sync E live (register_entry E k p c h s)"
proof (cases "register_body E p")
  case (Inl e)
  then have "register_entry E k p c h s = s\<lparr>sc_world := sc_world s\<rparr>" by (simp add: register_entry_def register_one_def)
  then show ?thesis using assms(2) by simp
next
  case (Inr body)
  obtain w r where reg: "se_register E c (se_task_type E) body (se_queue E) (sc_world s) = (w, r)" by fastforce
  show ?thesis
  proof (cases r)
    case None
    then have "live w = live (sc_world s)" using assms(1) reg by (auto simp: backend_ok_def)
    then show ?thesis using in_sync_cong [OF assms(2)] reg None Inr
      by (simp add: register_entry_def register_one_def)
  next
    case (Some i)
    have lw: "live (sc_world s) i = None" "live w = (live (sc_world s))(i \<mapsto> (c, se_task_type E, body, se_queue E))"
      using assms(1) reg Some by (auto simp: backend_ok_def)
    let ?ent = "\<lparr>ent_id = i, ent_hash = h, ent_cronspec = c\<rparr>"
    have "in_sync E live (s\<lparr>sc_entries := dset k ?ent (sc_entries s), sc_world := enqueue_now E p w\<rparr>)"
    proof (rule in_sync_insert [where x = "(c, se_task_type E, body, se_queue E)", OF assms(2,3)])
      show "live (sc_world s) (ent_id ?ent) = None" using lw(1) by simp
      show "live (enqueue_now E p w) = (live (sc_world s))(ent_id ?ent \<mapsto> (c, se_task_type E, body, se_queue E))"
        using lw(2) by (simp add: enqueue_live [OF assms(1)])
      show "entry_sound E live (enqueue_now E p w) k ?ent"
        using lw(2) assms(4,5) Inr by (auto simp: enqueue_live [OF assms(1)] entry_sound_def)
    qed
    then show ?thesis using reg Some Inr by (simp add: register_entry_def register_one_def)
  qed
qed

lemma in_sync_place:
  assumes "backend_ok E live" "in_sync E live s" "sched_key (pr_tenant p) (pr_name p) = k"
  shows "in_sync E live (fst (place_provider E k p s))"
proof (cases "se_derive E p")
  case (Inr d)
  obtain c ok where d: "d = (c, ok)" by (cases d)
  show ?thesis
  proof (cases "ok \<and> config_hash c (pr_config p) \<noteq> None")
    case True
    then obtain h where h: "config_hash c (pr_config p) = Some h" and ok by auto
    note place = place_provider_def Inr d h \<open>ok\<close>
    show ?thesis
    proof (cases "dget (sc_entries s) k")
      case None
      then show ?thesis using in_sync_register [OF assms(1,2) None assms(3) h] by (simp add: place)
    next
      case (Some ent)
      obtain s' b where u: "unregister_entry E k s = (s', b)" by fastforce
      have s': "in_sync E live s'" using in_sync_unregister [OF assms(1,2), of k] u by simp
      show ?thesis
      proof (cases "b = True")
        case True
        have "dget (sc_entries s') k = None" using unregister_True [OF u [unfolded True]] by simp
        from in_sync_register [OF assms(1) s' this assms(3) h] show ?thesis
          using u True Some assms(2) by (simp add: place)
      qed (use u s' Some assms(2) in \<open>simp add: place\<close>)
    qed
  qed (use assms(2) in \<open>auto simp: place_provider_def Inr d\<close>)
qed (use assms(2) in \<open>simp add: place_provider_def\<close>)

lemma in_sync_place_all:
  "backend_ok E live \<Longrightarrow> in_sync E live s \<Longrightarrow>
     \<forall>(k, p) \<in> set kps. sched_key (pr_tenant p) (pr_name p) = k \<Longrightarrow> in_sync E live (fst (place_all E kps s))"
proof (induction kps arbitrary: s)
  case (Cons kp kps)
  obtain k p where kp: "kp = (k, p)" by (cases kp)
  obtain s' b where r: "place_provider E k p s = (s', b)" by fastforce
  have "in_sync E live s'"
    using in_sync_place [OF Cons.prems(1,2), of p k] Cons.prems(3) kp r by simp
  then show ?case using Cons.IH [of s'] Cons.prems kp r by (cases b) auto
qed simp

lemma set_foldl_dset: "set (foldl (\<lambda>d (k, v). dset k v d) d kvs) \<subseteq> set d \<union> set kvs"
proof (induction kvs arbitrary: d)
  case (Cons kv kvs)
  obtain k v where kv: "kv = (k, v)" by (cases kv)
  have "set (dset k v d) \<subseteq> insert (k, v) (set d)" by (induction d) auto
  with Cons.IH [of "dset k v d"] kv show ?case by auto
qed simp

lemma in_desired: "(k, p) \<in> set (desired_of rows) \<Longrightarrow> p \<in> set rows \<and> sched_key (pr_tenant p) (pr_name p) = k"
  using set_foldl_dset [of "[]" "map (\<lambda>r. (sched_key (pr_tenant r) (pr_name r), r)) rows"]
  by (auto simp: desired_of_def dict_of_def)

lemma distinct_desired: "distinct (keys (desired_of rows))"
  by (simp add: desired_of_def distinct_dict_of)

lemma in_sync_foldl:
  "backend_ok E live \<Longrightarrow> in_sync E live s \<Longrightarrow>
     in_sync E live (foldl (\<lambda>s k. fst (unregister_entry E k s)) s ks)"
  by (induction ks arbitrary: s) (simp_all add: in_sync_unregister)

lemma in_sync_reconcile:
  assumes "backend_ok E live" "in_sync E live s"
  shows "in_sync E live (fst (reconcile E f s))"
proof (cases f)
  case (Some rows)
  have "in_sync E live (drop_stale E (desired_of rows) s)"
    unfolding drop_stale_def using assms by (rule in_sync_foldl)
  moreover have "\<forall>(k, p) \<in> set (desired_of rows). sched_key (pr_tenant p) (pr_name p) = k"
    using in_desired by blast
  ultimately have "in_sync E live (fst (place_all E (desired_of rows) (drop_stale E (desired_of rows) s)))"
    using in_sync_place_all [OF assms(1)] by blast
  then show ?thesis by (simp add: reconcile_def Some Let_def)
qed (use assms in \<open>simp add: reconcile_def\<close>)

lemma in_sync_step:
  assumes "sched_step E s s'" "backend_ok E live" "in_sync E live s"
  shows "in_sync E live s'"
proof -
  have "reconcile E f s = (s1, b) \<Longrightarrow> in_sync E live s1" for f s1 b
    using in_sync_reconcile [OF assms(2,3), of f] by simp
  with assms show ?thesis by (cases rule: sched_stepE) auto
qed


section \<open>Convergence\<close>

text \<open>What a reconcile that meets no failure leaves at a desired key: an entry with the hash of the
  row, or, for a row that is not ok, what was there before.\<close>

definition placed :: "'w sched_env \<Rightarrow> provider \<Rightarrow> reg_entry option \<Rightarrow> reg_entry option \<Rightarrow> bool" where
  "placed E p old new =
     (case se_derive E p of
        Inr (c, True) \<Rightarrow> (\<exists>ent. new = Some ent \<and> config_hash c (pr_config p) = Some (ent_hash ent))
      | _ \<Rightarrow> new = old)"

definition calls_succeed :: "'w sched_env \<Rightarrow> provider list \<Rightarrow> bool" where
  "calls_succeed E rows =
     ((\<forall>c t b q w. snd (se_register E c t b q w) \<noteq> None)
    \<and> (\<forall>i w. snd (se_unregister E i w))
    \<and> (\<forall>p \<in> set rows. \<exists>c ok. se_derive E p = Inr (c, ok)
         \<and> (ok \<longrightarrow> config_hash c (pr_config p) \<noteq> None \<and> is_ok (register_body E p))))"

lemma unregister_succeeds:
  assumes "calls_succeed E rows" "dget (sc_entries s) k = Some ent"
  obtains s' where "unregister_entry E k s = (s', True)" "sc_entries s' = dpop k (sc_entries s)"
proof -
  obtain w where "se_unregister E (ent_id ent) (sc_world s) = (w, True)"
    using assms(1) unfolding calls_succeed_def by (metis (full_types) prod.collapse)
  then have "unregister_entry E k s = (s\<lparr>sc_world := w, sc_entries := dpop k (sc_entries s)\<rparr>, True)"
    using assms(2) by (simp add: unregister_entry_def)
  then show ?thesis using that by fastforce
qed

lemma register_succeeds:
  assumes "calls_succeed E rows" "is_ok (register_body E p)"
  shows "\<exists>ent. ent_hash ent = h \<and> sc_entries (register_entry E k p c h s) = dset k ent (sc_entries s)"
proof -
  obtain body where b: "register_body E p = Inr body" using assms(2) by (rule is_okE)
  obtain w r where reg: "se_register E c (se_task_type E) body (se_queue E) (sc_world s) = (w, r)" by fastforce
  have "snd (se_register E c (se_task_type E) body (se_queue E) (sc_world s)) \<noteq> None"
    using assms(1) unfolding calls_succeed_def by blast
  then obtain i where "r = Some i" using reg by auto
  then show ?thesis using b reg
    by (intro exI [of _ "\<lparr>ent_id = i, ent_hash = h, ent_cronspec = c\<rparr>"]) (simp add: register_entry_def register_one_def)
qed

lemma place_succeeds:
  assumes "calls_succeed E rows" "p \<in> set rows"
  obtains s' where "place_provider E k p s = (s', False)"
    and "placed E p (dget (sc_entries s) k) (dget (sc_entries s') k)"
    and "\<And>k'. k' \<noteq> k \<Longrightarrow> dget (sc_entries s') k' = dget (sc_entries s) k'"
proof -
  obtain c ok where d: "se_derive E p = Inr (c, ok)"
    and ok: "ok \<Longrightarrow> config_hash c (pr_config p) \<noteq> None \<and> is_ok (register_body E p)"
    using assms unfolding calls_succeed_def by blast
  show thesis
  proof (cases ok)
    case False
    then show thesis using that [of s] d by (simp add: place_provider_def placed_def)
  next
    case True
    with ok obtain h where h: "config_hash c (pr_config p) = Some h" and body: "is_ok (register_body E p)" by auto
    note place = place_provider_def placed_def d True h
    note reg = register_succeeds [OF assms(1) body, where h = h and k = k and c = c]
    show thesis
    proof (cases "dget (sc_entries s) k")
      case None
      obtain ent where "ent_hash ent = h" "sc_entries (register_entry E k p c h s) = dset k ent (sc_entries s)"
        using reg [of s] by blast
      then show thesis using that [of "register_entry E k p c h s"] None by (simp add: place)
    next
      case (Some old)
      show thesis
      proof (cases "ent_hash old = h")
        case True
        then show thesis using that [of s] Some by (simp add: place)
      next
        case False
        obtain s' where u: "unregister_entry E k s = (s', True)" "sc_entries s' = dpop k (sc_entries s)"
          using unregister_succeeds [OF assms(1) Some] .
        obtain ent where "ent_hash ent = h" "sc_entries (register_entry E k p c h s') = dset k ent (sc_entries s')"
          using reg [of s'] by blast
        then show thesis using that [of "register_entry E k p c h s'"] Some False u by (simp add: place)
      qed
    qed
  qed
qed

lemma place_all_succeeds:
  assumes "calls_succeed E rows" "set (map snd kps) \<subseteq> set rows" "distinct (keys kps)"
  shows "\<exists>s'. place_all E kps s = (s', False)
    \<and> (\<forall>k p. dget kps k = Some p \<longrightarrow> placed E p (dget (sc_entries s) k) (dget (sc_entries s') k))
    \<and> (\<forall>k. dget kps k = None \<longrightarrow> dget (sc_entries s') k = dget (sc_entries s) k)"
  using assms(2,3)
proof (induction kps arbitrary: s)
  case (Cons kp kps)
  obtain k p where kp: "kp = (k, p)" by (cases kp)
  obtain s1 where s1: "place_provider E k p s = (s1, False)"
    "placed E p (dget (sc_entries s) k) (dget (sc_entries s1) k)"
    "\<And>k'. k' \<noteq> k \<Longrightarrow> dget (sc_entries s1) k' = dget (sc_entries s) k'"
    using place_succeeds [OF assms(1), of p k s] Cons.prems(1) kp by auto
  obtain s2 where s2: "place_all E kps s1 = (s2, False)"
    "\<forall>k p. dget kps k = Some p \<longrightarrow> placed E p (dget (sc_entries s1) k) (dget (sc_entries s2) k)"
    "\<forall>k. dget kps k = None \<longrightarrow> dget (sc_entries s2) k = dget (sc_entries s1) k"
    using Cons.IH [of s1] Cons.prems by auto
  have "dget kps k = None" using Cons.prems(2) kp by (simp add: dget_None_iff)
  moreover have "dget kps j = Some q \<Longrightarrow> placed E q (dget (sc_entries s) j) (dget (sc_entries s2) j)" if "j \<noteq> k" for j q
    using s2(2) s1(3) [OF that] by metis
  ultimately show ?case using s1 s2 kp by (intro exI [of _ s2]) auto
qed simp

lemma dget_foldl_unregister:
  assumes "calls_succeed E rows"
  shows "set ks \<subseteq> set (keys (sc_entries s)) \<Longrightarrow> distinct ks \<Longrightarrow>
    dget (sc_entries (foldl (\<lambda>s k. fst (unregister_entry E k s)) s ks)) k =
      (if k \<in> set ks then None else dget (sc_entries s) k)"
proof (induction ks arbitrary: s)
  case (Cons j ks)
  obtain ent where "dget (sc_entries s) j = Some ent"
    using Cons.prems(1) by (metis dget_None_iff insert_subset list.set(2) not_Some_eq)
  then obtain s' where s': "unregister_entry E j s = (s', True)" "sc_entries s' = dpop j (sc_entries s)"
    using unregister_succeeds [OF assms] by metis
  have "set ks \<subseteq> set (keys (sc_entries s'))" using Cons.prems by (auto simp: s'(2))
  then show ?case using Cons.IH [of s'] Cons.prems(2) s' by simp
qed simp

lemma reconcile_succeeds:
  assumes "calls_succeed E rows" "distinct (keys (sc_entries s))"
  obtains s' where "reconcile E (Some rows) s = (s', False)"
    and "\<And>k. dget (desired_of rows) k = None \<Longrightarrow> dget (sc_entries s') k = None"
    and "\<And>k p. dget (desired_of rows) k = Some p \<Longrightarrow> placed E p (dget (sc_entries s) k) (dget (sc_entries s') k)"
proof -
  let ?d = "desired_of rows" and ?s = "drop_stale E (desired_of rows) s"
  have sub: "set (map snd ?d) \<subseteq> set rows" using in_desired by fastforce
  obtain s' where s': "place_all E ?d ?s = (s', False)"
    "\<forall>k p. dget ?d k = Some p \<longrightarrow> placed E p (dget (sc_entries ?s) k) (dget (sc_entries s') k)"
    "\<forall>k. dget ?d k = None \<longrightarrow> dget (sc_entries s') k = dget (sc_entries ?s) k"
    using place_all_succeeds [OF assms(1) sub distinct_desired, of ?s] by blast
  have drop: "dget (sc_entries ?s) k = (if k \<in> set (keys ?d) then dget (sc_entries s) k else None)" for k
    unfolding drop_stale_def using assms
    by (subst dget_foldl_unregister [OF assms(1)]) (auto simp: dget_None_iff)
  show thesis
  proof (rule that [of s'])
    show "reconcile E (Some rows) s = (s', False)" using s'(1) by (simp add: reconcile_def)
    show "dget ?d k = None \<Longrightarrow> dget (sc_entries s') k = None" for k
      using s'(3) drop by (simp add: dget_None_iff)
    show "placed E p (dget (sc_entries s) k) (dget (sc_entries s') k)" if "dget ?d k = Some p" for k p
    proof -
      have "k \<in> set (keys ?d)" using that by (metis dget_None_iff option.distinct(1))
      then show ?thesis using s'(2) that drop [of k] by (metis (no_types, lifting))
    qed
  qed
qed

lemma place_all_settled:
  "\<forall>(k, p) \<in> set kps. place_provider E k p s = (s, False) \<Longrightarrow> place_all E kps s = (s, False)"
  by (induction kps) auto

lemma reconcile_settled:
  assumes "\<And>k. dget (desired_of rows) k = None \<Longrightarrow> dget (sc_entries s) k = None"
    and "\<And>k p. (k, p) \<in> set (desired_of rows) \<Longrightarrow> place_provider E k p s = (s, False)"
  shows "reconcile E (Some rows) s = (s, False)"
proof -
  have "filter (\<lambda>k. k \<notin> set (keys (desired_of rows))) (keys (sc_entries s)) = []"
    using assms(1) by (fastforce simp: filter_empty_conv dget_None_iff)
  then have "drop_stale E (desired_of rows) s = s" by (simp add: drop_stale_def)
  then show ?thesis using place_all_settled [of "desired_of rows" E s] assms(2) by (auto simp: reconcile_def)
qed

section \<open>The hashed bytes\<close>

lemma utf8_enc1_zero: "utf8_enc1 c = Some e \<Longrightarrow> 0 \<in> set e \<Longrightarrow> c = 0"
proof -
  assume e: "utf8_enc1 c = Some e" and z: "0 \<in> set e"
  have nz: "0 < n \<Longrightarrow> n < 256 \<Longrightarrow> byte_of n \<noteq> 0" for n
    by (auto simp: byte_of_def word_of_nat_eq_0_iff dest: nat_dvd_not_less)
  have asc: "c < 128 \<Longrightarrow> byte_of c = 0 \<Longrightarrow> c = 0" using nz [of c] by fastforce
  have "a mod 64 < (64 :: nat)" for a by simp
  moreover have "c < 1114112 \<Longrightarrow> c div 262144 < 5" by (simp add: less_mult_imp_div_less)
  moreover have "c < 65536 \<Longrightarrow> c div 4096 < 16" "c < 2048 \<Longrightarrow> c div 64 < 32" by (simp_all add: less_mult_imp_div_less)
  ultimately show "c = 0"
    using e z nz [of "192 + c div 64"] nz [of "128 + c mod 64"] nz [of "224 + c div 4096"]
      nz [of "128 + c div 64 mod 64"] nz [of "240 + c div 262144"] nz [of "128 + c div 4096 mod 64"] asc
    by (auto simp: utf8_enc1_def split: if_splits)
qed

lemma utf8_encode_zero: "utf8_encode s = Some bs \<Longrightarrow> 0 \<in> set bs \<Longrightarrow> 0 \<in> set s"
  by (induction s arbitrary: bs) (auto split: option.splits dest: utf8_enc1_zero)

lemma split_at_zero:
  "0 \<notin> set a \<Longrightarrow> 0 \<notin> set b \<Longrightarrow> a @ [0] @ x = b @ [0] @ y \<Longrightarrow> a = b \<and> x = y"
proof (induction a arbitrary: b)
  case Nil
  then show ?case by (cases b) auto
next
  case (Cons c a)
  then show ?case by (cases b) auto
qed

lemma dumps_inj:
  assumes "jwf v" "jwf w" "map byte_of (dumps_compact v) = map byte_of (dumps_compact w)"
  shows "v = w"
  using json_loads_bytes_dumps [OF assms(1)] json_loads_bytes_dumps [OF assms(2)] unfolding assms(3) by simp

section \<open>A backend in memory, for the witnesses\<close>

text \<open>The schedules in the order they were registered, None once removed; an id is as long as its position.\<close>

type_synonym toy_world = "(pystr \<times> pystr \<times> bytes \<times> pystr) option list"

definition toy_live :: "toy_world schedules" where
  "toy_live ws i = (if i = replicate (length i) 48 \<and> length i < length ws then ws ! length i else None)"

definition toy_env :: "toy_world sched_env" where
  "toy_env = \<lparr>se_pydantic = strict_pydantic, se_queue = py ''q'', se_task_type = py ''sync'',
     se_derive = (\<lambda>p. if pr_config p = [] then Inr (py '''', False) else Inr (py ''@hourly'', True)),
     se_register = (\<lambda>c t b q ws. (ws @ [Some (c, t, b, q)], Some (replicate (length ws) 48))),
     se_unregister = (\<lambda>i ws. (if i = replicate (length i) 48 then ws[length i := None] else ws, True)),
     se_enqueue = None\<rparr>"

lemma toy_backend_ok: "backend_ok toy_env toy_live"
proof -
  have "toy_live (ws @ [x]) = (toy_live ws)(replicate (length ws) 48 := x)" for ws x
  proof
    fix i :: pystr
    show "toy_live (ws @ [x]) i = ((toy_live ws)(replicate (length ws) 48 := x)) i"
      by (cases "i = replicate (length ws) 48") (auto simp: toy_live_def nth_append less_Suc_eq)
  qed
  moreover have "toy_live (ws[length i := None]) = (toy_live ws)(i := None)" if "i = replicate (length i) 48" for ws i
  proof
    fix j :: pystr
    have "j = replicate (length j) 48 \<Longrightarrow> length j = length i \<Longrightarrow> j = i" using that by metis
    then show "toy_live (ws[length i := None]) j = ((toy_live ws)(i := None)) j"
      by (auto simp: toy_live_def nth_list_update)
  qed
  moreover have "toy_live ws = (toy_live ws)(i := None)" if "i \<noteq> replicate (length i) 48" for ws i
    using that by (auto simp: toy_live_def fun_eq_iff)
  moreover have "toy_live ws (replicate (length ws) 48) = None" for ws by (simp add: toy_live_def)
  ultimately show ?thesis by (auto simp: backend_ok_def toy_env_def)
qed

definition toy_row :: provider where
  "toy_row = \<lparr>pr_tenant = uuid_text 7, pr_name = py ''imap'', pr_config = [(py ''n'', JInt 1)]\<rparr>"

lemma toy_payload_jwf: "jwf (JObj (build_payload toy_row))"
proof -
  have "jwf (JObj [(py ''n'', JInt 1)])" by (simp add: py_def valid_cp_def surrogate_def)
  then have "jwf (jsort (JObj (pr_config toy_row)))" unfolding toy_row_def by (simp add: jwf_jsort del: jwf.simps jsort.simps)
  then have "ascii (dumps_default (jsort (JObj (pr_config toy_row))))" by (rule ascii_dumps_default)
  then have "list_all valid_cp (dumps_default (jsort (JObj (pr_config toy_row))))"
    unfolding list_all_iff valid_cp_def surrogate_def by fastforce
  then show ?thesis by (simp add: build_payload_def toy_row_def py_def valid_cp_def surrogate_def del: jsort.simps)
qed

lemma toy_calls_succeed: "calls_succeed toy_env [toy_row]"
proof -
  have "is_ok (register_body toy_env toy_row)"
    using wrap_args_valid [OF strict_pydantic_ok, of "uuid_text 7" "[]" "build_payload toy_row"] toy_payload_jwf
    by (simp add: register_body_def toy_env_def toy_row_def build_payload_def)
  moreover have "utf8_encode (py ''@hourly'') \<noteq> None" by (simp add: py_def utf8_enc1_def)
  ultimately show ?thesis
    by (auto simp: calls_succeed_def toy_env_def toy_row_def config_hash_def hash_input_def)
qed

lemma in_sync_reach:
  assumes "(sched_step E)\<^sup>*\<^sup>* (sched_init w) s" "backend_ok E live" "live w = Map.empty"
  shows "in_sync E live s"
  using assms(1)
proof (induction rule: rtranclp_induct)
  case base
  show ?case using assms(3) by (rule in_sync_init)
next
  case (step s1 s2)
  then show ?case using in_sync_step assms(2) by blast
qed

lemma build_payload_jwf:
  assumes "list_all valid_cp (pr_name p)" "jwf (JObj (pr_config p))"
  shows "jwf (JObj (build_payload p))"
proof -
  have "ascii (dumps_default (jsort (JObj (pr_config p))))" using jwf_jsort [OF assms(2)] by (rule ascii_dumps_default)
  then have "list_all valid_cp (dumps_default (jsort (JObj (pr_config p))))"
    by (auto simp: list_all_iff valid_cp_def surrogate_def)
  then show ?thesis using assms(1) by (simp add: build_payload_def py_def valid_cp_def surrogate_def del: jsort.simps)
qed

section \<open>Properties\<close>

text \<open>
  C14. When no call fails, one reconcile converges: it returns, the entries' keys are desired ones, every
  row whose cron spec is ok has an entry with the hash of that spec and configuration, which is live
  in the backend, and a second reconcile of the same rows calls nothing and changes nothing.  A row
  that is no longer ok keeps the entry it had: it is neither removed nor brought up to date.
\<close>

theorem reconcile_converges:
  assumes "backend_ok E live" "in_sync E live s" "calls_succeed E rows"
  shows "\<exists>s'. reconcile E (Some rows) s = (s', False) \<and> in_sync E live s'
    \<and> set (keys (sc_entries s')) \<subseteq> set (keys (desired_of rows))
    \<and> (\<forall>k p c. dget (desired_of rows) k = Some p \<and> se_derive E p = Inr (c, True) \<longrightarrow>
         (\<exists>ent. dget (sc_entries s') k = Some ent \<and> config_hash c (pr_config p) = Some (ent_hash ent)
            \<and> live (sc_world s') (ent_id ent) \<noteq> None))
    \<and> (\<forall>k p c. dget (desired_of rows) k = Some p \<and> se_derive E p = Inr (c, False) \<longrightarrow>
         dget (sc_entries s') k = dget (sc_entries s) k)
    \<and> reconcile E (Some rows) s' = (s', False)"
proof -
  have "distinct (keys (sc_entries s))" using assms(2) by (simp add: in_sync_def)
  then obtain s' where s': "reconcile E (Some rows) s = (s', False)"
    and gone: "\<And>k. dget (desired_of rows) k = None \<Longrightarrow> dget (sc_entries s') k = None"
    and there: "\<And>k p. dget (desired_of rows) k = Some p \<Longrightarrow> placed E p (dget (sc_entries s) k) (dget (sc_entries s') k)"
    using reconcile_succeeds [OF assms(3)] by metis
  have sync: "in_sync E live s'" using in_sync_reconcile [OF assms(1,2), of "Some rows"] s' by simp
  have ok: "\<exists>ent. dget (sc_entries s') k = Some ent \<and> config_hash c (pr_config p) = Some (ent_hash ent)"
    if "dget (desired_of rows) k = Some p" "se_derive E p = Inr (c, True)" for k p c
    using there [OF that(1)] that(2) by (auto simp: placed_def)
  have settled: "place_provider E k p s' = (s', False)" if m: "(k, p) \<in> set (desired_of rows)" for k p
  proof -
    have d: "dget (desired_of rows) k = Some p" using m distinct_desired by (simp add: map_of_eq_Some_iff)
    have "p \<in> set rows" using in_desired [OF m] by simp
    then obtain c b where "se_derive E p = Inr (c, b)" using assms(3) unfolding calls_succeed_def by blast
    then show ?thesis using ok [OF d, of c] by (cases b) (auto simp: place_provider_def)
  qed
  have "live (sc_world s') (ent_id ent) \<noteq> None" if "dget (sc_entries s') k = Some ent" for k ent
    using sync that unfolding in_sync_def entry_sound_def by fastforce
  moreover have "set (keys (sc_entries s')) \<subseteq> set (keys (desired_of rows))"
    using gone by (fastforce simp: dget_None_iff)
  moreover have "dget (sc_entries s') k = dget (sc_entries s) k"
    if "dget (desired_of rows) k = Some p" "se_derive E p = Inr (c, False)" for k p c
    using there [OF that(1)] that(2) by (simp add: placed_def)
  moreover have "reconcile E (Some rows) s' = (s', False)"
    using gone settled by (rule reconcile_settled)
  ultimately show ?thesis using s' sync ok by (intro exI [of _ s']) metis
qed

lemma reconcile_converges_witness:
  "\<exists>s' ent. reconcile toy_env (Some [toy_row]) (sched_init []) = (s', False)
     \<and> dget (sc_entries s') (sched_key (uuid_text 7) (py ''imap'')) = Some ent
     \<and> toy_live (sc_world s') (ent_id ent) \<noteq> None \<and> reconcile toy_env (Some [toy_row]) s' = (s', False)"
proof -
  have init: "in_sync toy_env toy_live (sched_init [])"
    by (rule in_sync_init) (auto simp: toy_live_def fun_eq_iff)
  have d: "dget (desired_of [toy_row]) (sched_key (uuid_text 7) (py ''imap'')) = Some toy_row"
    by (simp add: desired_of_def dict_of_def toy_row_def)
  have "se_derive toy_env toy_row = Inr (py ''@hourly'', True)" by (simp add: toy_env_def toy_row_def)
  with reconcile_converges [OF toy_backend_ok init toy_calls_succeed] d show ?thesis by blast
qed

text \<open>
  Whatever the source returns, whichever calls fail and however starts, ticks and stops follow each
  other, scheduler and backend stay in step: every entry is live with its spec and with a body that
  wraps a provider of that key with the hashed configuration, and every live schedule belongs to
  exactly one entry, so nothing is scheduled twice and nothing is left behind.  A reconcile runs to its end
  here; \<open>SchedulerCancel\<close> has the one that a stop cancels.
\<close>

theorem scheduler_never_leaks:
  assumes "(sched_step E)\<^sup>*\<^sup>* (sched_init w) s" "backend_ok E live" "live w = Map.empty"
  shows "in_sync E live s
    \<and> (\<forall>i. live (sc_world s) i \<noteq> None \<longleftrightarrow> (\<exists>!k. \<exists>ent. dget (sc_entries s) k = Some ent \<and> ent_id ent = i))"
proof -
  have sync: "in_sync E live s" by (rule in_sync_reach [OF assms])
  have "live (sc_world s) (ent_id ent) \<noteq> None" if "dget (sc_entries s) k = Some ent" for k ent
    using sync that unfolding in_sync_def entry_sound_def by fastforce
  moreover have "\<exists>k ent. dget (sc_entries s) k = Some ent \<and> ent_id ent = i" if "live (sc_world s) i \<noteq> None" for i
    using sync that unfolding in_sync_def by blast
  moreover have "k = k'" if "dget (sc_entries s) k = Some e" "dget (sc_entries s) k' = Some e'" "ent_id e = ent_id e'" for k k' e e'
    using sync that unfolding in_sync_def by blast
  ultimately have "live (sc_world s) i \<noteq> None \<longleftrightarrow> (\<exists>!k. \<exists>ent. dget (sc_entries s) k = Some ent \<and> ent_id ent = i)" for i
    by (intro iffI) (blast, blast)
  with sync show ?thesis by blast
qed

lemma scheduler_never_leaks_witness:
  "\<exists>s. sched_step toy_env (sched_init []) s \<and> in_sync toy_env toy_live s \<and> sc_loops s = 1"
proof -
  let ?s = "sched_init [] :: toy_world sched"
  have "sched_step toy_env ?s (?s\<lparr>sc_stopped := False, sc_loops := Suc (sc_loops ?s)\<rparr>)"
    using start_ok [of toy_env None ?s ?s] by (simp add: reconcile_def)
  then obtain s where s: "sched_step toy_env ?s s" "sc_loops s = 1" by (force simp: sched_init_def)
  then have "(sched_step toy_env)\<^sup>*\<^sup>* (sched_init []) s" by blast
  moreover have "toy_live [] = Map.empty" by (auto simp: toy_live_def fun_eq_iff)
  ultimately show ?thesis using scheduler_never_leaks [OF _ toy_backend_ok] s by blast
qed

text \<open>
  The bytes under a hash determine, for specs without a NUL, the spec and the configuration up to
  the order of its keys, and depend on nothing else: an entry is replaced exactly when one of the two
  has changed (SHA-256 collisions apart), never because a driver returned the keys in another order.
\<close>

theorem hash_input_exact:
  assumes "hash_input c cfg = Some x" "hash_input c' cfg' = Some x'" "0 \<notin> set c" "0 \<notin> set c'"
    and "jwf (JObj cfg)" "jwf (JObj cfg')"
  shows "x = x' \<longleftrightarrow> c = c' \<and> jsort (JObj cfg) = jsort (JObj cfg')"
proof -
  obtain b b' where b: "utf8_encode c = Some b" "utf8_encode c' = Some b'"
    and x: "x = b @ [0] @ map byte_of (dumps_compact (jsort (JObj cfg)))" "x' = b' @ [0] @ map byte_of (dumps_compact (jsort (JObj cfg')))"
    using assms(1,2) by (auto simp: hash_input_def)
  have z: "0 \<notin> set b" "0 \<notin> set b'" using utf8_encode_zero b assms(3,4) by blast+
  show ?thesis
  proof
    assume "x = x'"
    then have "b = b'" "map byte_of (dumps_compact (jsort (JObj cfg))) = map byte_of (dumps_compact (jsort (JObj cfg')))"
      using split_at_zero [OF z] unfolding x by blast+
    then show "c = c' \<and> jsort (JObj cfg) = jsort (JObj cfg')"
      using b utf8_decode_encode [OF b(1), of False] utf8_decode_encode [OF b(2), of False]
        dumps_inj [OF jwf_jsort [OF assms(5)] jwf_jsort [OF assms(6)]] by simp
  next
    assume "c = c' \<and> jsort (JObj cfg) = jsort (JObj cfg')"
    then show "x = x'" using b x by simp
  qed
qed

lemma hash_input_exact_witness:
  "hash_input (py ''@daily'') [(py ''a'', JNull), (py ''b'', JInt 2)] = hash_input (py ''@daily'') [(py ''b'', JInt 2), (py ''a'', JNull)]"
proof -
  have u: "utf8_encode (py ''@daily'') = Some (bstr ''@daily'')" by (simp add: py_def bstr_def utf8_enc1_def byte_of_def)
  then obtain x x' where x: "hash_input (py ''@daily'') [(py ''a'', JNull), (py ''b'', JInt 2)] = Some x"
      "hash_input (py ''@daily'') [(py ''b'', JInt 2), (py ''a'', JNull)] = Some x'" by (simp add: hash_input_def)
  have z: "0 \<notin> set (py ''@daily'')" by (simp add: py_def)
  have "jsort (JObj [(py ''a'', JNull), (py ''b'', JInt 2)]) = jsort (JObj [(py ''b'', JInt 2), (py ''a'', JNull)])"
    by (simp add: py_def)
  then have "x = x'" using hash_input_exact [OF x z z] by (simp add: py_def valid_cp_def surrogate_def)
  then show ?thesis using x by simp
qed

text \<open>
  A source that fails leaves everything as it was, and so does a row whose bytes are not UTF-8,
  which fails the whole fetch.  But a reconcile raises, ending the loop, exactly when the derivation
  of some desired row raises or gives a spec that cannot be encoded: no failure of the source, the
  backend or the enqueuer does that.
\<close>

theorem reconcile_raises_iff:
  "reconcile E None s = (s, False)
   \<and> (fetch_providers raw = None \<longleftrightarrow>
      (\<exists>row \<in> set raw. \<exists>bs. row_config row = CfgBytes bs \<and> utf8_decode False bs = None))
   \<and> (snd (reconcile E (Some rows) s) \<longleftrightarrow>
      (\<exists>p \<in> set (map snd (desired_of rows)). (\<exists>e. se_derive E p = Inl e)
         \<or> (\<exists>c. se_derive E p = Inr (c, True) \<and> utf8_encode c = None)))"
proof (intro conjI)
  let ?esc = "\<lambda>p. (\<exists>e. se_derive E p = Inl e) \<or> (\<exists>c. se_derive E p = Inr (c, True) \<and> utf8_encode c = None)"
  have one: "snd (place_provider E k p s) \<longleftrightarrow> ?esc p" for k p s
    by (auto simp: place_provider_def config_hash_def hash_input_def split: sum.splits option.splits prod.splits bool.splits)
  have all: "snd (place_all E kps s) \<longleftrightarrow> (\<exists>p \<in> set (map snd kps). ?esc p)" for kps s
  proof (induction kps arbitrary: s)
    case (Cons kp kps)
    obtain k p where kp: "kp = (k, p)" by (cases kp)
    obtain s' b where r: "place_provider E k p s = (s', b)" by fastforce
    with one [of k p s] have "b \<longleftrightarrow> ?esc p" by simp
    then show ?case using Cons.IH [of s'] kp r by (cases b) auto
  qed simp
  show "snd (reconcile E (Some rows) s) \<longleftrightarrow> (\<exists>p \<in> set (map snd (desired_of rows)). ?esc p)"
    unfolding reconcile_def Let_def option.case by (rule all)
  show "reconcile E None s = (s, False)" by (simp add: reconcile_def)
  have row: "row_provider row = None \<longleftrightarrow> (\<exists>bs. row_config row = CfgBytes bs \<and> utf8_decode False bs = None)" for row
  proof (cases "row_config row")
    case (CfgParsed v)
    then show ?thesis by (cases v) (simp_all add: row_provider_def)
  qed (auto simp: row_provider_def Let_def)
  have "those xs = None \<longleftrightarrow> None \<in> set xs" for xs :: "provider option list"
    by (induction xs) (auto split: option.splits)
  then show "fetch_providers raw = None \<longleftrightarrow> (\<exists>row \<in> set raw. \<exists>bs. row_config row = CfgBytes bs \<and> utf8_decode False bs = None)"
    by (force simp: fetch_providers_def row [symmetric])
qed

end
