(* ===== verification/EventBus.thy ===== *)
theory EventBus
  imports JsonRT
begin

text \<open>
  \<open>omkit/eventbus.py\<close>: the bus over the \<open>events\<close> and \<open>event_offsets\<close> tables and the one over Redis
  streams.  The tables, the transactions of the publishers (an id is drawn when the row is inserted,
  the row is seen once its transaction commits) and the stream with its consumer group are states of
  the model; the casts of Postgres are the parameter \<open>pg_types\<close>.  The calls of handlers that
  returned are recorded in the state, and whether a handler returns is decided anew at each poll.
\<close>

section \<open>Events and payloads\<close>

definition NIL_TENANT_ID :: pystr where
  "NIL_TENANT_ID = py ''00000000-0000-0000-0000-000000000000''"

record event =
  ev_id :: nat
  ev_topic :: pystr
  ev_payload :: json
  ev_tenant :: "pystr option"
  ev_created :: int

text \<open>A column or stream value: bytes, a text, or a value the driver has parsed.\<close>

datatype raw_value =
    RawB bytes
  | RawS pystr
  | RawJ json

text \<open>None is the exception of \<open>decode\<close> or \<open>json.loads\<close>; a parsed text is a \<open>str\<close> like any other.\<close>

definition parse_payload :: "raw_value \<Rightarrow> json option" where
  "parse_payload v =
     (case v of
        RawB bs \<Rightarrow> (case utf8_decode False bs of None \<Rightarrow> None | Some s \<Rightarrow> loads s)
      | RawS s \<Rightarrow> loads s
      | RawJ (JStr s) \<Rightarrow> loads s
      | RawJ j \<Rightarrow> Some j)"

section \<open>The tables\<close>

text \<open>\<open>::uuid\<close> with its canonical text, and \<open>::jsonb\<close> with what the driver returns for it; None when the cast fails.\<close>

record pg_types =
  pg_uuid :: "pystr \<Rightarrow> pystr option"
  pg_jsonb :: "pystr \<Rightarrow> raw_value option"

record event_row =
  er_id :: nat
  er_tenant :: pystr
  er_topic :: pystr
  er_payload :: raw_value
  er_created :: int

type_synonym subscription = "pystr \<times> pystr"

record pg_bus =
  eb_rows :: "event_row list"
  eb_pending :: "event_row list"
  eb_next :: nat
  eb_offsets :: "(subscription, nat) dict"
  eb_handled :: "(subscription \<times> event) list"

definition bus_init :: pg_bus where
  "bus_init = \<lparr>eb_rows = [], eb_pending = [], eb_next = 1, eb_offsets = [], eb_handled = []\<rparr>"

section \<open>PostgresEventBus\<close>

text \<open>The INSERT of an open transaction; None when a cast fails and the transaction is rolled back.\<close>

definition insert_event :: "pg_types \<Rightarrow> pystr \<Rightarrow> pystr \<Rightarrow> json \<Rightarrow> int \<Rightarrow> pg_bus \<Rightarrow> pg_bus option" where
  "insert_event T tenant topic payload now s =
     (case (pg_uuid T tenant, pg_jsonb T (dumps_default payload)) of
        (Some u, Some v) \<Rightarrow>
          Some (s\<lparr>eb_pending := eb_pending s @ [\<lparr>er_id = eb_next s, er_tenant = u, er_topic = topic,
                    er_payload = v, er_created = now\<rparr>], eb_next := Suc (eb_next s)\<rparr>)
      | _ \<Rightarrow> None)"

definition publish :: "pg_types \<Rightarrow> pystr \<Rightarrow> json \<Rightarrow> int \<Rightarrow> pg_bus \<Rightarrow> pg_bus option" where
  "publish T topic payload now s = insert_event T NIL_TENANT_ID topic payload now s"

definition publish_tenant :: "pg_types \<Rightarrow> pystr \<Rightarrow> pystr \<Rightarrow> json \<Rightarrow> int \<Rightarrow> pg_bus \<Rightarrow> pg_bus option" where
  "publish_tenant T tenant topic payload now s =
     (if tenant = [] then publish T topic payload now s else insert_event T tenant topic payload now s)"

definition subscribe_row :: "subscription \<Rightarrow> pg_bus \<Rightarrow> pg_bus" where
  "subscribe_row sub s =
     (case dget (eb_offsets s) sub of
        None \<Rightarrow> s\<lparr>eb_offsets := dset sub 0 (eb_offsets s)\<rparr>
      | Some _ \<Rightarrow> s)"

text \<open>The rows a poll may still see; without an offset row the comparison is with NULL, and there are none.\<close>

definition unseen :: "subscription \<Rightarrow> pg_bus \<Rightarrow> event_row list" where
  "unseen sub s =
     (case dget (eb_offsets s) sub of
        None \<Rightarrow> []
      | Some o' \<Rightarrow> sort_key er_id (filter (\<lambda>r. er_topic r = snd sub \<and> o' < er_id r) (eb_rows s)))"

definition event_of :: "event_row \<Rightarrow> event option" where
  "event_of r = map_option (\<lambda>p. \<lparr>ev_id = er_id r, ev_topic = er_topic r, ev_payload = p,
     ev_tenant = Some (er_tenant r), ev_created = er_created r\<rparr>) (parse_payload (er_payload r))"

text \<open>The loop over the rows: the events whose handler returned, and whether the loop came to its end.\<close>

fun deliver :: "(event \<Rightarrow> bool) \<Rightarrow> event_row list \<Rightarrow> event list \<times> bool" where
  "deliver handler [] = ([], True)"
| "deliver handler (r # rs) =
     (case event_of r of
        None \<Rightarrow> ([], False)
      | Some e \<Rightarrow> if \<not> handler e then ([], False)
                  else (case deliver handler rs of (es, ok) \<Rightarrow> (e # es, ok)))"

text \<open>\<open>updated\<close> tells whether the final UPDATE commits; any exception leaves the offset.\<close>

definition poll_once :: "nat \<Rightarrow> (event \<Rightarrow> bool) \<Rightarrow> bool \<Rightarrow> subscription \<Rightarrow> pg_bus \<Rightarrow> pg_bus" where
  "poll_once batch handler updated sub s =
     (let rows = take batch (unseen sub s)
      in case deliver handler rows of
           (es, ok) \<Rightarrow>
             let s' = s\<lparr>eb_handled := eb_handled s @ map (Pair sub) es\<rparr>;
                 last_id = (if rows = [] then 0 else er_id (last rows))
             in if ok \<and> last_id \<noteq> 0 \<and> updated then s'\<lparr>eb_offsets := dset sub last_id (eb_offsets s')\<rparr> else s')"

text \<open>
  The publishers and subscribers of the tables.  With \<open>in_order\<close> a transaction commits only after every
  row with a smaller id has been decided; Postgres does not promise that.
\<close>

inductive bus_step :: "pg_types \<Rightarrow> bool \<Rightarrow> pg_bus \<Rightarrow> pg_bus \<Rightarrow> bool" for T in_order where
  insert_row: "publish_tenant T tenant topic payload now s = Some s' \<Longrightarrow> bus_step T in_order s s'"
| commit_row: "r \<in> set (eb_pending s) \<Longrightarrow> in_order \<longrightarrow> (\<forall>q \<in> set (eb_rows s). er_id q < er_id r) \<Longrightarrow>
    bus_step T in_order s (s\<lparr>eb_rows := eb_rows s @ [r], eb_pending := removeAll r (eb_pending s)\<rparr>)"
| abort_row: "bus_step T in_order s (s\<lparr>eb_pending := removeAll r (eb_pending s)\<rparr>)"
| sub_row: "bus_step T in_order s (subscribe_row sub s)"
| poll: "bus_step T in_order s (poll_once batch handler updated sub s)"

inductive_cases bus_stepE: "bus_step T in_order s s'"

section \<open>RedisEventBus\<close>

text \<open>A stream entry's fields as the client returns them: keys and values are bytes, or texts when it decodes.\<close>

datatype rvalue = RBytes bytes | RText pystr

type_synonym rfields = "(rvalue, rvalue) dict"

record stream_msg =
  sm_id :: nat
  sm_fields :: rfields

text \<open>One stream and one consumer group on it: the entries, how many the group has been given, and the ids given but not acknowledged.\<close>

record redis_bus =
  rb_stream :: "stream_msg list"
  rb_given :: nat
  rb_unacked :: "nat list"
  rb_called :: "(nat \<times> event) list"

definition redis_stream :: "pystr \<Rightarrow> pystr \<Rightarrow> pystr" where
  "redis_stream prefix topic = prefix @ topic"

text \<open>What comes back for a text that was sent: itself if the client decodes, its UTF-8 if not; None when it cannot be encoded.\<close>

definition sent :: "bool \<Rightarrow> pystr \<Rightarrow> rvalue option" where
  "sent decodes t = (case utf8_encode t of None \<Rightarrow> None | Some bs \<Rightarrow> Some (if decodes then RText t else RBytes bs))"

definition sent_key :: "bool \<Rightarrow> string \<Rightarrow> rvalue" where
  "sent_key decodes k = (if decodes then RText (py k) else RBytes (bstr k))"

definition redis_add :: "nat \<Rightarrow> rfields \<Rightarrow> redis_bus \<Rightarrow> redis_bus" where
  "redis_add mid fs s = s\<lparr>rb_stream := rb_stream s @ [\<lparr>sm_id = mid, sm_fields = fs\<rparr>]\<rparr>"

definition redis_publish :: "bool \<Rightarrow> nat \<Rightarrow> json \<Rightarrow> redis_bus \<Rightarrow> redis_bus option" where
  "redis_publish decodes mid payload s =
     (case sent decodes (dumps_default payload) of
        None \<Rightarrow> None
      | Some p \<Rightarrow> Some (redis_add mid [(sent_key decodes ''payload'', p)] s))"

definition redis_publish_tenant :: "bool \<Rightarrow> nat \<Rightarrow> pystr \<Rightarrow> json \<Rightarrow> redis_bus \<Rightarrow> redis_bus option" where
  "redis_publish_tenant decodes mid tenant payload s =
     (case (sent decodes tenant, sent decodes (dumps_default payload)) of
        (Some t, Some p) \<Rightarrow> Some (redis_add mid [(sent_key decodes ''tenant_id'', t), (sent_key decodes ''payload'', p)] s)
      | _ \<Rightarrow> None)"

text \<open>\<open>fields.get(b"k") or fields.get("k")\<close>, where empty values count as missing on the left side.\<close>

definition field_of :: "string \<Rightarrow> rfields \<Rightarrow> rvalue option" where
  "field_of k fs =
     (case dget fs (RBytes (bstr k)) of
        Some v \<Rightarrow> if v = RBytes [] \<or> v = RText [] then dget fs (RText (py k)) else Some v
      | None \<Rightarrow> dget fs (RText (py k)))"

text \<open>The outer None is an exception: a payload that is missing, not UTF-8 or not JSON, a tenant that is not UTF-8.\<close>

definition decode_field :: "rvalue option \<Rightarrow> pystr option option" where
  "decode_field v =
     (case v of
        None \<Rightarrow> Some None
      | Some (RText s) \<Rightarrow> Some (Some s)
      | Some (RBytes bs) \<Rightarrow> map_option Some (utf8_decode False bs))"

definition redis_event :: "pystr \<Rightarrow> int \<Rightarrow> rfields \<Rightarrow> event option" where
  "redis_event topic now fs =
     (case (decode_field (field_of ''payload'' fs), decode_field (field_of ''tenant_id'' fs)) of
        (Some (Some p), Some tenant) \<Rightarrow>
          (case loads p of
             None \<Rightarrow> None
           | Some payload \<Rightarrow>
               Some \<lparr>ev_id = 0, ev_topic = topic, ev_payload = payload, ev_tenant = or_none tenant, ev_created = now\<rparr>)
      | _ \<Rightarrow> None)"

text \<open>The loop over one batch: every call of the handler is recorded, an acknowledgement follows when it
  returns and \<open>xack\<close> does, and an exception of the decoding leaves the loop and \<open>subscribe\<close>.\<close>

fun redis_deliver :: "pystr \<Rightarrow> int \<Rightarrow> (nat \<Rightarrow> bool) \<Rightarrow> (nat \<Rightarrow> bool) \<Rightarrow> stream_msg list \<Rightarrow> redis_bus \<Rightarrow> redis_bus \<times> bool" where
  "redis_deliver topic now returns acks [] s = (s, False)"
| "redis_deliver topic now returns acks (m # ms) s =
     (case redis_event topic now (sm_fields m) of
        None \<Rightarrow> (s, True)
      | Some e \<Rightarrow>
          let s1 = s\<lparr>rb_called := rb_called s @ [(sm_id m, e)]\<rparr>;
              s2 = (if returns (sm_id m) \<and> acks (sm_id m) then s1\<lparr>rb_unacked := removeAll (sm_id m) (rb_unacked s1)\<rparr> else s1)
          in redis_deliver topic now returns acks ms s2)"

definition READ_COUNT :: nat where "READ_COUNT = 100"

text \<open>\<open>XREADGROUP ... >\<close> gives only entries never given before and puts them on the pending list.\<close>

definition redis_poll :: "pystr \<Rightarrow> int \<Rightarrow> (nat \<Rightarrow> bool) \<Rightarrow> (nat \<Rightarrow> bool) \<Rightarrow> redis_bus \<Rightarrow> redis_bus \<times> bool" where
  "redis_poll topic now returns acks s =
     (let msgs = take READ_COUNT (drop (rb_given s) (rb_stream s))
      in redis_deliver topic now returns acks msgs
           (s\<lparr>rb_given := rb_given s + length msgs, rb_unacked := rb_unacked s @ map sm_id msgs\<rparr>))"

section \<open>Choosing a backend\<close>

datatype bus_backend = PostgresBackend | RedisBackend

definition bus_backend_from_env :: "pystr option \<Rightarrow> bus_backend option" where
  "bus_backend_from_env var =
     (let v = (case var of None \<Rightarrow> py ''postgres'' | Some v \<Rightarrow> v)
      in if v = py ''postgres'' then Some PostgresBackend else if v = py ''redis'' then Some RedisBackend else None)"

definition valkey_url :: "pystr option \<Rightarrow> pystr option \<Rightarrow> pystr option \<Rightarrow> pystr" where
  "valkey_url host port password =
     (let h = (case host of None \<Rightarrow> py ''valkey'' | Some h \<Rightarrow> h); p = (case port of None \<Rightarrow> py ''6379'' | Some p \<Rightarrow> p)
      in case or_none password of
           Some pw \<Rightarrow> py ''redis://:'' @ pw @ py ''@'' @ h @ py '':'' @ p
         | None \<Rightarrow> py ''redis://'' @ h @ py '':'' @ p)"

datatype bus_choice =
    PostgresBus
  | RedisBus "pystr option" pystr
  | BusValueError

text \<open>The Redis bus is given the client, or makes one from the URL; its group is the consumer's name unless one is named.\<close>

definition new_bus :: "pystr option \<Rightarrow> bool \<Rightarrow> bool \<Rightarrow> pystr \<Rightarrow> pystr \<Rightarrow> pystr option \<Rightarrow> bus_choice" where
  "new_bus var has_pool has_client url consumer grp =
     (case bus_backend_from_env var of
        None \<Rightarrow> BusValueError
      | Some PostgresBackend \<Rightarrow> if has_pool then PostgresBus else BusValueError
      | Some RedisBackend \<Rightarrow>
          RedisBus (if has_client then None else Some url)
            (case or_none grp of None \<Rightarrow> consumer | Some g \<Rightarrow> g))"


section \<open>Lemmas\<close>

declare map_of_eq_Some_iff [simp del] split_paired_All [simp del] split_paired_Ex [simp del]

lemma insert_event_rows:
  assumes "publish_tenant T tenant topic payload now s = Some s'"
  obtains u t v where "s' = s\<lparr>eb_pending := eb_pending s @ [\<lparr>er_id = eb_next s, er_tenant = u, er_topic = t,
      er_payload = v, er_created = now\<rparr>], eb_next := Suc (eb_next s)\<rparr>"
  using assms by (auto simp: publish_tenant_def publish_def insert_event_def split: if_splits option.splits)

text \<open>Ids are positive, below the sequence, and belong to one row, decided or not.\<close>

definition ids_ok :: "pg_bus \<Rightarrow> bool" where
  "ids_ok s = (0 < eb_next s \<and> (\<forall>r \<in> set (eb_rows s) \<union> set (eb_pending s). 0 < er_id r \<and> er_id r < eb_next s)
     \<and> distinct (map er_id (eb_rows s @ eb_pending s)))"

lemma distinct_removeAll_map: "distinct (map f xs) \<Longrightarrow> distinct (map f (removeAll x xs))"
  by (induction xs) auto

lemma image_removeAll:
  "distinct (map f xs) \<Longrightarrow> x \<in> set xs \<Longrightarrow> f ` set (removeAll x xs) = f ` set xs - {f x}"
  by (auto simp: distinct_map inj_on_def)

lemma poll_once_cases:
  obtains es where "poll_once batch h upd sub s = s\<lparr>eb_handled := eb_handled s @ map (Pair sub) es\<rparr>"
      "fst (deliver h (take batch (unseen sub s))) = es"
  | es where "poll_once batch h upd sub s = s\<lparr>eb_handled := eb_handled s @ map (Pair sub) es,
        eb_offsets := dset sub (er_id (last (take batch (unseen sub s)))) (eb_offsets s)\<rparr>"
      "deliver h (take batch (unseen sub s)) = (es, True)" "take batch (unseen sub s) \<noteq> []"
proof -
  obtain es ok where d: "deliver h (take batch (unseen sub s)) = (es, ok)" by fastforce
  show thesis
    using that [of es] d by (cases "ok \<and> take batch (unseen sub s) \<noteq> [] \<and> er_id (last (take batch (unseen sub s))) \<noteq> 0 \<and> upd")
      (auto simp: poll_once_def Let_def)
qed

lemma poll_once_tables [simp]:
  "eb_rows (poll_once batch h upd sub s) = eb_rows s"
  "eb_pending (poll_once batch h upd sub s) = eb_pending s"
  "eb_next (poll_once batch h upd sub s) = eb_next s"
  by (simp_all add: poll_once_def Let_def split: prod.split)

lemma subscribe_row_tables [simp]:
  "eb_rows (subscribe_row sub s) = eb_rows s" "eb_pending (subscribe_row sub s) = eb_pending s"
  "eb_next (subscribe_row sub s) = eb_next s" "eb_handled (subscribe_row sub s) = eb_handled s"
  by (simp_all add: subscribe_row_def split: option.split)

lemma ids_ok_step: "bus_step T b s s' \<Longrightarrow> ids_ok s \<Longrightarrow> ids_ok s'"
proof (erule bus_stepE)
  fix tenant topic payload now
  assume "publish_tenant T tenant topic payload now s = Some s'" and ok: "ids_ok s"
  from this(1) show "ids_ok s'" by (rule insert_event_rows) (use ok in \<open>auto simp: ids_ok_def ball_Un less_Suc_eq\<close>)
next
  fix r
  assume "ids_ok s" "s' = s\<lparr>eb_rows := eb_rows s @ [r], eb_pending := removeAll r (eb_pending s)\<rparr>" "r \<in> set (eb_pending s)"
  moreover from this have "er_id ` set (removeAll r (eb_pending s)) = er_id ` set (eb_pending s) - {er_id r}"
    by (intro image_removeAll) (simp_all add: ids_ok_def)
  moreover have "set (removeAll r (eb_pending s)) \<subseteq> set (eb_pending s)" by auto
  ultimately show "ids_ok s'" by (auto simp: ids_ok_def distinct_removeAll_map simp del: set_removeAll)
qed (auto simp: ids_ok_def distinct_removeAll_map)

lemma ids_ok_init: "ids_ok bus_init"
  by (simp add: ids_ok_def bus_init_def)

lemma ids_ok_reach: "(bus_step T b)\<^sup>*\<^sup>* bus_init s \<Longrightarrow> ids_ok s"
  by (induction rule: rtranclp_induct) (auto intro: ids_ok_init ids_ok_step)

text \<open>What a batch of unseen rows contains: exactly those up to its last id.\<close>

lemma sorted_take_closed:
  assumes "sorted (map f xs)" "distinct (map f xs)" "x \<in> set xs" "take n xs \<noteq> []" "f x \<le> f (last (take n xs))"
  shows "x \<in> set (take n xs)"
proof (rule ccontr)
  assume "x \<notin> set (take n xs)"
  with assms(3) have x: "x \<in> set (drop n xs)" by (metis Un_iff append_take_drop_id set_append)
  let ?l = "last (take n xs)"
  have l: "?l \<in> set (take n xs)" using assms(4) by simp
  have s: "sorted (map f (take n xs) @ map f (drop n xs))" "distinct (map f (take n xs) @ map f (drop n xs))"
    using assms(1,2) by (simp_all flip: map_append)
  have "f ?l \<le> f x" using s(1) l x by (auto simp: sorted_append)
  moreover have "f ?l \<noteq> f x" using s(2) l x by (auto simp: disjoint_iff)
  ultimately show False using assms(5) by simp
qed

lemma sorted_unseen: "sorted (map er_id (unseen sub s))"
  by (simp add: unseen_def split: option.split)

lemma distinct_unseen: "ids_ok s \<Longrightarrow> distinct (map er_id (unseen sub s))"
proof -
  assume "ids_ok s"
  then have "distinct (map er_id (eb_rows s))" by (simp add: ids_ok_def)
  then have "distinct (map er_id (filter P (eb_rows s)))" for P by (simp add: distinct_map_filter)
  then show ?thesis by (auto simp: unseen_def distinct_map split: option.split)
qed

lemma in_unseen:
  "r \<in> set (unseen sub s) \<longleftrightarrow>
    (\<exists>o'. dget (eb_offsets s) sub = Some o' \<and> r \<in> set (eb_rows s) \<and> er_topic r = snd sub \<and> o' < er_id r)"
  by (cases "dget (eb_offsets s) sub") (auto simp: unseen_def)

lemma deliver_True: "deliver h rs = (es, True) \<Longrightarrow> map Some es = map event_of rs"
  by (induction rs arbitrary: es) (auto split: option.splits if_splits prod.splits)

lemma deliver_prefix: "deliver h rs = (es, ok) \<Longrightarrow> \<exists>k. map Some es = map event_of (take k rs) \<and> k \<le> length rs"
proof (induction rs arbitrary: es ok)
  case (Cons r rs)
  show ?case
  proof (cases "event_of r")
    case (Some e)
    obtain es' ok' where d: "deliver h rs = (es', ok')" by fastforce
    from Cons.IH [OF d] obtain k where k: "map Some es' = map event_of (take k rs)" "k \<le> length rs" by blast
    show ?thesis
    proof (cases "h e")
      case True
      then have "es = e # es'" using Cons.prems Some d by simp
      then show ?thesis using k Some by (intro exI [of _ "Suc k"]) simp
    qed (use Cons.prems Some in \<open>auto intro: exI [of _ 0]\<close>)
  qed (use Cons.prems in \<open>auto intro: exI [of _ 0]\<close>)
qed simp

lemma event_of_id [simp]: "event_of r = Some e \<Longrightarrow> ev_id e = er_id r"
  by (auto simp: event_of_def)

section \<open>No event is skipped\<close>

text \<open>Every decided event at or below an offset was handled, and an offset is the id of a decided row.\<close>

definition handled_upto :: "pg_bus \<Rightarrow> subscription \<Rightarrow> nat \<Rightarrow> bool" where
  "handled_upto s sub o' =
     ((o' = 0 \<or> o' \<in> er_id ` set (eb_rows s))
    \<and> (\<forall>r \<in> set (eb_rows s). er_topic r = snd sub \<and> er_id r \<le> o' \<longrightarrow>
          (\<exists>e. event_of r = Some e \<and> (sub, e) \<in> set (eb_handled s))))"

definition none_skipped :: "pg_bus \<Rightarrow> bool" where
  "none_skipped s = (\<forall>sub o'. dget (eb_offsets s) sub = Some o' \<longrightarrow> handled_upto s sub o')"

lemma handled_upto_mono:
  "handled_upto s sub o' \<Longrightarrow> eb_rows s' = eb_rows s \<Longrightarrow> set (eb_handled s) \<subseteq> set (eb_handled s') \<Longrightarrow>
    handled_upto s' sub o'"
  unfolding handled_upto_def by (simp, blast)

lemma none_skipped_commit:
  assumes "none_skipped s" "ids_ok s" "r \<in> set (eb_pending s)" "\<forall>q \<in> set (eb_rows s). er_id q < er_id r"
  shows "none_skipped (s\<lparr>eb_rows := eb_rows s @ [r], eb_pending := p\<rparr>)"
proof -
  have "0 < er_id r" using assms(2,3) by (auto simp: ids_ok_def)
  then have "\<not> er_id r \<le> o'" if "o' = 0 \<or> o' \<in> er_id ` set (eb_rows s)" for o'
    using that assms(4) by force
  then have "handled_upto s sub o' \<Longrightarrow> handled_upto (s\<lparr>eb_rows := eb_rows s @ [r], eb_pending := p\<rparr>) sub o'" for sub o'
    by (auto simp: handled_upto_def)
  then show ?thesis using assms(1) by (simp add: none_skipped_def)
qed

lemma none_skipped_poll:
  assumes "none_skipped s" "ids_ok s"
  shows "none_skipped (poll_once batch h upd sub s)"
proof -
  let ?rows = "take batch (unseen sub s)"
  have more: "handled_upto (s\<lparr>eb_handled := eb_handled s @ xs, eb_offsets := os\<rparr>) sub' o'"
    if "dget (eb_offsets s) sub' = Some o'" for sub' o' xs os
    using assms(1) that handled_upto_mono [of s sub' o'] by (simp add: none_skipped_def)
  show ?thesis
  proof (cases rule: poll_once_cases [of batch h upd sub s])
    case (1 es)
    then show ?thesis using more [where os = "eb_offsets s"] by (simp add: none_skipped_def)
  next
    case (2 es)
    let ?l = "er_id (last ?rows)" and ?s = "s\<lparr>eb_handled := eb_handled s @ map (Pair sub) es, eb_offsets := dset sub (er_id (last ?rows)) (eb_offsets s)\<rparr>"
    have "last ?rows \<in> set ?rows" using 2(3) by simp
    then have last: "last ?rows \<in> set (unseen sub s)" by (rule in_set_takeD)
    then obtain o' where o': "dget (eb_offsets s) sub = Some o'" by (auto simp: in_unseen)
    have "\<exists>e. event_of r = Some e \<and> (sub, e) \<in> set (eb_handled ?s)"
      if r: "r \<in> set (eb_rows s)" "er_topic r = snd sub" "er_id r \<le> ?l" for r
    proof (cases "er_id r \<le> o'")
      case True
      have "handled_upto s sub o'" using assms(1) o' by (simp add: none_skipped_def)
      then show ?thesis using True r unfolding handled_upto_def by force
    next
      case False
      with o' r have "r \<in> set (unseen sub s)" by (auto simp: in_unseen)
      then have "r \<in> set ?rows"
        using sorted_take_closed [OF sorted_unseen distinct_unseen [OF assms(2)] _ 2(3)] r(3) by blast
      then have "event_of r \<in> set (map Some es)" using deliver_True [OF 2(2)] by simp
      then show ?thesis by auto
    qed
    moreover have "?l \<in> er_id ` set (eb_rows s)" using last by (auto simp: in_unseen)
    ultimately have "handled_upto ?s sub ?l" by (simp add: handled_upto_def)
    then have "none_skipped ?s" using more by (simp add: none_skipped_def)
    then show ?thesis using 2 by simp
  qed
qed

lemma none_skipped_step:
  assumes "bus_step T True s s'" "ids_ok s" "none_skipped s"
  shows "none_skipped s'"
  using assms(1)
proof (cases rule: bus_step.cases)
  case (insert_row tenant topic payload now)
  from this(1) show ?thesis
    by (rule insert_event_rows) (use assms(3) in \<open>simp add: none_skipped_def handled_upto_def\<close>)
next
  case (commit_row r)
  then show ?thesis using none_skipped_commit [OF assms(3,2)] by simp
next
  case (abort_row r)
  then show ?thesis using assms(3) by (simp add: none_skipped_def handled_upto_def)
next
  case (sub_row sub)
  have "handled_upto s sub 0"
    using assms(2) by (force simp: handled_upto_def ids_ok_def)
  then have "handled_upto (s\<lparr>eb_offsets := os\<rparr>) sub 0" for os by (simp add: handled_upto_def)
  moreover have "handled_upto s sub' o' \<Longrightarrow> handled_upto (s\<lparr>eb_offsets := os\<rparr>) sub' o'" for sub' o' os
    by (simp add: handled_upto_def)
  ultimately show ?thesis using assms(3) sub_row
    by (auto simp: none_skipped_def subscribe_row_def split: option.splits)
next
  case (poll batch h upd sub)
  then show ?thesis using none_skipped_poll [OF assms(3,2)] by simp
qed

lemma none_skipped_reach:
  "(bus_step T True)\<^sup>*\<^sup>* bus_init s \<Longrightarrow> none_skipped s"
proof (induction rule: rtranclp_induct)
  case base
  show ?case by (simp add: none_skipped_def bus_init_def)
next
  case (step s1 s2)
  then show ?case using none_skipped_step ids_ok_reach by blast
qed

section \<open>Offsets only grow\<close>

lemma deliver_ids:
  assumes "deliver h rs = (es, ok)" "e \<in> set es"
  shows "ev_id e \<in> er_id ` set rs"
proof -
  obtain k where k: "map Some es = map event_of (take k rs)" using deliver_prefix [OF assms(1)] by blast
  have "Some e \<in> set (map Some es)" using assms(2) by simp
  then obtain r where "r \<in> set (take k rs)" "event_of r = Some e" unfolding k by auto
  then show ?thesis using in_set_takeD by fastforce
qed

lemma poll_handled:
  assumes "(sub', e) \<in> set (eb_handled (poll_once batch h upd sub s))"
  shows "(sub', e) \<in> set (eb_handled s) \<or> (sub' = sub \<and> (\<exists>r \<in> set (unseen sub s). er_id r = ev_id e))"
proof -
  obtain es ok where d: "deliver h (take batch (unseen sub s)) = (es, ok)" by fastforce
  have "(sub', e) \<in> set (eb_handled s) \<or> (sub' = sub \<and> e \<in> set es)"
    using assms d by (auto simp: poll_once_def Let_def split: if_splits)
  then show ?thesis using deliver_ids [OF d] in_set_takeD by fastforce
qed

lemma offset_step:
  assumes "bus_step T b s s'" "dget (eb_offsets s) sub = Some o'"
  shows "\<exists>o''. dget (eb_offsets s') sub = Some o'' \<and> o' \<le> o''"
  using assms(1)
proof (cases rule: bus_step.cases)
  case (insert_row tenant topic payload now)
  from this(1) show ?thesis by (rule insert_event_rows) (use assms(2) in simp)
next
  case (poll batch h upd sub')
  show ?thesis
  proof (cases rule: poll_once_cases [of batch h upd sub' s])
    case (2 es)
    have "last (take batch (unseen sub' s)) \<in> set (unseen sub' s)"
      using 2(3) in_set_takeD last_in_set by fast
    then show ?thesis using assms(2) poll 2(1) by (cases "sub' = sub") (auto simp: in_unseen)
  qed (use assms(2) poll in simp)
qed (use assms(2) in \<open>auto simp: subscribe_row_def split: option.splits\<close>)

text \<open>A subscription that has passed an id without handling it.\<close>

definition passed_over :: "pg_bus \<Rightarrow> subscription \<Rightarrow> nat \<Rightarrow> bool" where
  "passed_over s sub i =
     ((\<exists>o'. dget (eb_offsets s) sub = Some o' \<and> i \<le> o') \<and> (\<forall>e. (sub, e) \<in> set (eb_handled s) \<longrightarrow> ev_id e \<noteq> i))"

lemma passed_over_step:
  assumes "bus_step T b s s'" "passed_over s sub i"
  shows "passed_over s' sub i"
proof -
  obtain o' where o': "dget (eb_offsets s) sub = Some o'" "i \<le> o'" and h: "\<forall>e. (sub, e) \<in> set (eb_handled s) \<longrightarrow> ev_id e \<noteq> i"
    using assms(2) by (auto simp: passed_over_def)
  obtain o'' where "dget (eb_offsets s') sub = Some o''" "i \<le> o''"
    using offset_step [OF assms(1) o'(1)] o'(2) le_trans by blast
  moreover have "\<forall>e. (sub, e) \<in> set (eb_handled s') \<longrightarrow> ev_id e \<noteq> i"
    using assms(1)
  proof (cases rule: bus_step.cases)
    case (insert_row tenant topic payload now)
    from this(1) show ?thesis by (rule insert_event_rows) (use h in simp)
  next
    case (poll batch hd upd sub')
    show ?thesis
    proof (intro allI impI)
      fix e
      assume "(sub, e) \<in> set (eb_handled s')"
      then consider "(sub, e) \<in> set (eb_handled s)" | r where "sub = sub'" "r \<in> set (unseen sub s)" "er_id r = ev_id e"
        using poll_handled [of sub e batch hd upd sub' s] poll by blast
      then show "ev_id e \<noteq> i" using h o' by cases (auto simp: in_unseen)
    qed
  qed (use h in simp_all)
  ultimately show ?thesis by (auto simp: passed_over_def)
qed

definition handled_rows :: "pg_bus \<Rightarrow> bool" where
  "handled_rows s = (\<forall>sub e. (sub, e) \<in> set (eb_handled s) \<longrightarrow> ev_id e \<in> er_id ` set (eb_rows s))"

lemma handled_rows_step:
  assumes "bus_step T b s s'" "handled_rows s"
  shows "handled_rows s'"
  using assms(1)
proof (cases rule: bus_step.cases)
  case (insert_row tenant topic payload now)
  from this(1) show ?thesis by (rule insert_event_rows) (use assms(2) in \<open>simp add: handled_rows_def\<close>)
next
  case (poll batch h upd sub')
  show ?thesis unfolding handled_rows_def
  proof (intro allI impI)
    fix sub e
    assume "(sub, e) \<in> set (eb_handled s')"
    then consider "(sub, e) \<in> set (eb_handled s)" | r where "r \<in> set (unseen sub' s)" "er_id r = ev_id e"
      using poll_handled [of sub e batch h upd sub' s] poll by blast
    then show "ev_id e \<in> er_id ` set (eb_rows s')"
      using assms(2) poll by cases (force simp: handled_rows_def in_unseen)+
  qed
qed (use assms(2) in \<open>auto simp: handled_rows_def\<close>)

lemma handled_rows_reach: "(bus_step T b)\<^sup>*\<^sup>* bus_init s \<Longrightarrow> handled_rows s"
proof (induction rule: rtranclp_induct)
  case base
  show ?case by (simp add: handled_rows_def bus_init_def)
qed (rule handled_rows_step)

lemma rows_step: "bus_step T b s s' \<Longrightarrow> set (eb_rows s) \<subseteq> set (eb_rows s')"
  by (cases rule: bus_step.cases) (auto elim: insert_event_rows)

section \<open>Draining\<close>

lemma deliver_all:
  "\<forall>r \<in> set rs. event_of r \<noteq> None \<Longrightarrow> deliver (\<lambda>_. True) rs = (map (\<lambda>r. the (event_of r)) rs, True)"
  by (induction rs) (auto split: option.splits)

lemma filter_sorted_drop:
  assumes "sorted (map f xs)" "distinct (map f xs)" "take n xs \<noteq> []"
  shows "filter (\<lambda>x. f (last (take n xs)) < f x) xs = drop n xs"
proof -
  let ?l = "last (take n xs)"
  have l: "?l \<in> set (take n xs)" using assms(3) by simp
  have s: "sorted (map f (take n xs) @ map f (drop n xs))" "distinct (map f (take n xs) @ map f (drop n xs))"
    using assms(1,2) by (simp_all flip: map_append)
  have "\<not> f ?l < f x" if "x \<in> set (take n xs)" for x
  proof -
    obtain ys l where ys: "take n xs = ys @ [l]" using assms(3) by (metis append_butlast_last_id)
    then have "sorted (map f (ys @ [l]))" using s(1) by (metis sorted_append)
    then show ?thesis using that unfolding ys by (auto simp: sorted_append)
  qed
  moreover have "f ?l < f x" if "x \<in> set (drop n xs)" for x
  proof -
    have "f ?l \<le> f x" using s(1) l that by (auto simp: sorted_append)
    moreover have "f ?l \<noteq> f x" using s(2) l that by (auto simp: disjoint_iff)
    ultimately show ?thesis by simp
  qed
  ultimately have "filter (\<lambda>x. f ?l < f x) (take n xs @ drop n xs) = drop n xs"
    unfolding filter_append by (simp add: filter_empty_conv filter_id_conv)
  then show ?thesis by simp
qed

lemma unseen_after:
  assumes "ids_ok s" "take n (unseen sub s) \<noteq> []" "eb_rows s' = eb_rows s"
    and "dget (eb_offsets s') sub = Some (er_id (last (take n (unseen sub s))))"
  shows "unseen sub s' = drop n (unseen sub s)"
proof -
  let ?l = "er_id (last (take n (unseen sub s)))"
  have "last (take n (unseen sub s)) \<in> set (unseen sub s)" using assms(2) in_set_takeD last_in_set by fast
  then obtain o' where o': "dget (eb_offsets s) sub = Some o'" "o' < ?l" by (auto simp: in_unseen)
  have "unseen sub s' = sort_key er_id (filter (\<lambda>r. ?l < er_id r) (filter (\<lambda>r. er_topic r = snd sub \<and> o' < er_id r) (eb_rows s)))"
    using assms(3,4) o'(2) by (auto simp: unseen_def intro!: arg_cong [of _ _ "sort_key er_id"] filter_cong)
  also have "\<dots> = filter (\<lambda>r. ?l < er_id r) (unseen sub s)"
    using o'(1) by (simp add: unseen_def filter_sort)
  also have "\<dots> = drop n (unseen sub s)"
    by (rule filter_sorted_drop [OF sorted_unseen distinct_unseen [OF assms(1)] assms(2)])
  finally show ?thesis .
qed

lemma poll_all_well:
  assumes "ids_ok s" "\<forall>r \<in> set (unseen sub s). event_of r \<noteq> None"
  shows "eb_handled (poll_once batch (\<lambda>_. True) True sub s) = eb_handled s @ map (\<lambda>r. (sub, the (event_of r))) (take batch (unseen sub s))"
    and "unseen sub (poll_once batch (\<lambda>_. True) True sub s) = drop batch (unseen sub s)"
proof -
  let ?rows = "take batch (unseen sub s)"
  have d: "deliver (\<lambda>_. True) ?rows = (map (\<lambda>r. the (event_of r)) ?rows, True)"
    using assms(2) by (intro deliver_all) (auto dest: in_set_takeD)
  then show "eb_handled (poll_once batch (\<lambda>_. True) True sub s) = eb_handled s @ map (\<lambda>r. (sub, the (event_of r))) ?rows"
    by (simp add: poll_once_def Let_def comp_def)
  show "unseen sub (poll_once batch (\<lambda>_. True) True sub s) = drop batch (unseen sub s)"
  proof (cases "?rows = []")
    case True
    then have "(poll_once batch (\<lambda>_. True) True sub s) = s" using d by (simp add: poll_once_def Let_def)
    then show ?thesis using True by auto
  next
    case False
    have "last ?rows \<in> set (unseen sub s)" using False in_set_takeD last_in_set by fast
    then have "er_id (last ?rows) \<noteq> 0" by (auto simp: in_unseen)
    then have "dget (eb_offsets (poll_once batch (\<lambda>_. True) True sub s)) sub = Some (er_id (last ?rows))"
      using d False by (simp add: poll_once_def Let_def)
    then show ?thesis by (rule unseen_after [OF assms(1) False poll_once_tables(1)])
  qed
qed

definition polls :: "nat \<Rightarrow> nat \<Rightarrow> subscription \<Rightarrow> pg_bus \<Rightarrow> pg_bus" where
  "polls n batch sub s = (poll_once batch (\<lambda>_. True) True sub ^^ n) s"

lemma ids_ok_poll: "ids_ok s \<Longrightarrow> ids_ok (poll_once batch h upd sub s)"
  by (simp add: ids_ok_def)

lemma polls_handled:
  assumes "ids_ok s" "\<forall>r \<in> set (unseen sub s). event_of r \<noteq> None"
  shows "eb_handled (polls n batch sub s) = eb_handled s @ map (\<lambda>r. (sub, the (event_of r))) (take (n * batch) (unseen sub s))
     \<and> unseen sub (polls n batch sub s) = drop (n * batch) (unseen sub s)"
  using assms
proof (induction n arbitrary: s)
  case 0
  then show ?case by (simp add: polls_def)
next
  case (Suc n)
  let ?s = "poll_once batch (\<lambda>_. True) True sub s"
  note one = poll_all_well [OF Suc.prems, of batch]
  have "\<forall>r \<in> set (unseen sub ?s). event_of r \<noteq> None" using Suc.prems(2) one(2) by (auto dest: in_set_dropD)
  from Suc.IH [OF ids_ok_poll [OF Suc.prems(1)] this] one
  have "eb_handled (polls n batch sub ?s) = eb_handled s @ map (\<lambda>r. (sub, the (event_of r)))
      (take batch (unseen sub s) @ take (n * batch) (drop batch (unseen sub s)))
     \<and> unseen sub (polls n batch sub ?s) = drop (n * batch + batch) (unseen sub s)"
    by (simp add: add.commute)
  moreover have "take batch xs @ take (n * batch) (drop batch xs) = take (Suc n * batch) xs" for xs :: "event_row list"
    by (simp add: take_add)
  moreover have "polls (Suc n) batch sub s = polls n batch sub ?s"
    by (simp add: polls_def funpow_swap1)
  ultimately show ?case by (simp add: add.commute)
qed

section \<open>The Redis bus\<close>

inductive redis_step :: "redis_bus \<Rightarrow> redis_bus \<Rightarrow> bool" where
  redis_pub: "\<forall>m \<in> set (rb_stream s). sm_id m < mid \<Longrightarrow> redis_publish decodes mid payload s = Some s' \<Longrightarrow> redis_step s s'"
| redis_pub_tenant: "\<forall>m \<in> set (rb_stream s). sm_id m < mid \<Longrightarrow>
    redis_publish_tenant decodes mid tenant payload s = Some s' \<Longrightarrow> redis_step s s'"
| redis_read: "redis_step s (fst (redis_poll topic now returns acks s))"

definition redis_init :: redis_bus where
  "redis_init = \<lparr>rb_stream = [], rb_given = 0, rb_unacked = [], rb_called = []\<rparr>"

lemma redis_deliver_keeps [simp]:
  "rb_stream (fst (redis_deliver topic now returns acks ms s)) = rb_stream s"
  "rb_given (fst (redis_deliver topic now returns acks ms s)) = rb_given s"
  by (induction ms arbitrary: s) (auto simp: Let_def split: option.split)

text \<open>A batch calls the handler for a prefix of it, once each, and acknowledges none but its own messages.\<close>

lemma redis_deliver_calls:
  "\<exists>k es. rb_called (fst (redis_deliver topic now returns acks ms s)) = rb_called s @ zip (map sm_id (take k ms)) es
     \<and> length es = k \<and> k \<le> length ms"
proof (induction ms arbitrary: s)
  case (Cons m ms)
  show ?case
  proof (cases "redis_event topic now (sm_fields m)")
    case (Some e)
    let ?s = "let s1 = s\<lparr>rb_called := rb_called s @ [(sm_id m, e)]\<rparr> in
      if returns (sm_id m) \<and> acks (sm_id m) then s1\<lparr>rb_unacked := removeAll (sm_id m) (rb_unacked s1)\<rparr> else s1"
    obtain k es where "rb_called (fst (redis_deliver topic now returns acks ms ?s)) = rb_called ?s @ zip (map sm_id (take k ms)) es"
      "length es = k" "k \<le> length ms"
      using Cons.IH [of ?s] by blast
    then show ?thesis using Some
      by (intro exI [of _ "Suc k"] exI [of _ "e # es"]) (simp add: Let_def)
  qed (auto intro: exI [of _ 0])
qed simp

lemma redis_deliver_unacked:
  "i \<notin> sm_id ` set ms \<Longrightarrow>
    i \<in> set (rb_unacked (fst (redis_deliver topic now returns acks ms s))) \<longleftrightarrow> i \<in> set (rb_unacked s)"
  by (induction ms arbitrary: s) (auto simp: Let_def split: option.split)

lemma redis_poll_called:
  obtains ids es where "rb_called (fst (redis_poll topic now returns acks s)) = rb_called s @ zip ids es"
    "length es = length ids" "\<exists>n. ids = take n (drop (rb_given s) (map sm_id (rb_stream s)))"
    "rb_given (fst (redis_poll topic now returns acks s)) \<ge> rb_given s + length ids"
proof -
  let ?ms = "take READ_COUNT (drop (rb_given s) (rb_stream s))"
  let ?s = "s\<lparr>rb_given := rb_given s + length ?ms, rb_unacked := rb_unacked s @ map sm_id ?ms\<rparr>"
  obtain k es where k: "rb_called (fst (redis_deliver topic now returns acks ?ms ?s)) = rb_called ?s @ zip (map sm_id (take k ?ms)) es"
    "length es = k" "k \<le> length ?ms"
    using redis_deliver_calls by blast
  show thesis
  proof (rule that [of "map sm_id (take k ?ms)" es])
    show "rb_called (fst (redis_poll topic now returns acks s)) = rb_called s @ zip (map sm_id (take k ?ms)) es"
      using k(1) by (simp add: redis_poll_def Let_def)
    show "\<exists>n. map sm_id (take k ?ms) = take n (drop (rb_given s) (map sm_id (rb_stream s)))"
      by (intro exI [of _ "min k READ_COUNT"]) (simp add: take_map drop_map min.commute)
  qed (use k in \<open>simp_all add: redis_poll_def Let_def\<close>)
qed

text \<open>Ids grow along the stream, calls are made for given entries only and once each, in stream order.\<close>

definition redis_ok :: "redis_bus \<Rightarrow> bool" where
  "redis_ok s = (sorted_wrt (<) (map sm_id (rb_stream s)) \<and> rb_given s \<le> length (rb_stream s)
     \<and> sorted_wrt (<) (map fst (rb_called s))
     \<and> set (map fst (rb_called s)) \<subseteq> set (take (rb_given s) (map sm_id (rb_stream s)))
     \<and> set (rb_unacked s) \<subseteq> set (take (rb_given s) (map sm_id (rb_stream s))))"

lemma redis_deliver_unacked_sub:
  "set (rb_unacked (fst (redis_deliver topic now returns acks ms s))) \<subseteq> set (rb_unacked s)"
proof (induction ms arbitrary: s)
  case (Cons m ms)
  show ?case
  proof (cases "redis_event topic now (sm_fields m)")
    case (Some e)
    let ?s = "let s1 = s\<lparr>rb_called := rb_called s @ [(sm_id m, e)]\<rparr> in
      if returns (sm_id m) \<and> acks (sm_id m) then s1\<lparr>rb_unacked := removeAll (sm_id m) (rb_unacked s1)\<rparr> else s1"
    have sub: "set (rb_unacked ?s) \<subseteq> set (rb_unacked s)" by (auto simp: Let_def)
    have eq: "redis_deliver topic now returns acks (m # ms) s = redis_deliver topic now returns acks ms ?s"
      using Some by (simp add: Let_def)
    show ?thesis unfolding eq by (rule subset_trans [OF Cons.IH sub])
  qed simp
qed simp

lemma redis_ok_publish:
  assumes "redis_ok s" "\<forall>m \<in> set (rb_stream s). sm_id m < mid"
  shows "redis_ok (redis_add mid fs s)"
  using assms by (auto simp: redis_ok_def redis_add_def sorted_wrt_append)

lemma redis_published:
  "redis_publish decodes mid payload s = Some s' \<Longrightarrow> \<exists>fs. s' = redis_add mid fs s"
  "redis_publish_tenant decodes mid tenant payload s = Some s' \<Longrightarrow> \<exists>fs. s' = redis_add mid fs s"
  by (auto simp: redis_publish_def redis_publish_tenant_def split: option.splits)

lemma sorted_wrt_split:
  assumes "sorted_wrt (<) (map sm_id xs)" "i \<in> set (take n (map sm_id xs))" "j \<in> set (drop n (map sm_id xs))"
  shows "i < j"
proof -
  have "sorted_wrt (<) (take n (map sm_id xs) @ drop n (map sm_id xs))" using assms(1) by simp
  then show ?thesis using assms(2,3) by (simp only: sorted_wrt_append)
qed

lemma set_take_mono: "m \<le> n \<Longrightarrow> set (take m xs) \<subseteq> set (take n xs)"
  by (rule set_take_subset_set_take)

lemma redis_ok_poll:
  assumes "redis_ok s"
  shows "redis_ok (fst (redis_poll topic now returns acks s))"
proof -
  let ?p = "fst (redis_poll topic now returns acks s)" and ?ids = "map sm_id (rb_stream s)"
  let ?ms = "take READ_COUNT (drop (rb_given s) (rb_stream s))"
  have keep: "rb_stream ?p = rb_stream s" "rb_given ?p = rb_given s + length ?ms" by (simp_all add: redis_poll_def Let_def)
  have le: "rb_given ?p \<le> length (rb_stream s)" using assms by (auto simp: keep redis_ok_def)
  obtain ids es n where c: "rb_called ?p = rb_called s @ zip ids es" "length es = length ids"
    "ids = take n (drop (rb_given s) ?ids)" "rb_given s + length ids \<le> rb_given ?p"
    using redis_poll_called [of topic now returns acks s] by metis
  have srt: "sorted_wrt (<) ?ids" using assms by (simp add: redis_ok_def)
  have ids_new: "set ids \<subseteq> set (drop (rb_given s) ?ids)" using c(3) by (auto dest: in_set_takeD)
  have "take (rb_given s) ?ids @ ids = take (rb_given s + length ids) ?ids"
    using c(3) by (auto simp: take_add min_def)
  then have in_given: "set ids \<subseteq> set (take (rb_given ?p) ?ids)"
    using set_take_mono [OF c(4), of ?ids] by (metis Un_subset_iff set_append)
  have old_given: "set (take (rb_given s) ?ids) \<subseteq> set (take (rb_given ?p) ?ids)"
    by (rule set_take_mono) (simp add: keep)
  have fst: "map fst (rb_called ?p) = map fst (rb_called s) @ ids" using c(1,2) by simp
  have "sorted_wrt (<) ids" using srt c(3) by (simp add: sorted_wrt_take sorted_wrt_drop)
  moreover have "\<forall>i \<in> set (map fst (rb_called s)). \<forall>j \<in> set ids. i < j"
    using sorted_wrt_split [OF srt, of _ "rb_given s"] ids_new assms unfolding redis_ok_def by blast
  ultimately have called: "sorted_wrt (<) (map fst (rb_called ?p))"
    using assms unfolding fst by (simp add: sorted_wrt_append redis_ok_def)
  have "set (map sm_id ?ms) \<subseteq> set (take (rb_given ?p) ?ids)"
  proof -
    have "take (rb_given s) ?ids @ map sm_id ?ms = take (rb_given ?p) ?ids"
      by (simp add: keep take_add take_map drop_map min_def)
    then show ?thesis by (metis Un_upper2 set_append)
  qed
  moreover have "set (rb_unacked ?p) \<subseteq> set (rb_unacked s) \<union> set (map sm_id ?ms)"
    using redis_deliver_unacked_sub [of topic now returns acks ?ms] by (fastforce simp: redis_poll_def Let_def)
  ultimately have "set (rb_unacked ?p) \<subseteq> set (take (rb_given ?p) ?ids)"
    using assms old_given unfolding redis_ok_def by blast
  moreover have "set (map fst (rb_called ?p)) \<subseteq> set (take (rb_given ?p) ?ids)"
    using assms old_given in_given unfolding fst redis_ok_def by auto
  ultimately show ?thesis using assms called le by (simp add: redis_ok_def keep(1))
qed

lemma redis_ok_step: "redis_step s s' \<Longrightarrow> redis_ok s \<Longrightarrow> redis_ok s'"
  by (erule redis_step.cases) (auto dest!: redis_published intro: redis_ok_publish redis_ok_poll)

lemma redis_ok_reach: "redis_step\<^sup>*\<^sup>* redis_init s \<Longrightarrow> redis_ok s"
proof (induction rule: rtranclp_induct)
  case base
  show ?case by (simp add: redis_ok_def redis_init_def)
qed (rule redis_ok_step)

text \<open>An entry that was given keeps its place: it is neither called nor acknowledged again.\<close>

lemma redis_given_step:
  assumes "redis_step s s'" "redis_ok s" "i \<in> set (take (rb_given s) (map sm_id (rb_stream s)))"
  shows "i \<in> set (take (rb_given s') (map sm_id (rb_stream s')))
    \<and> (i \<in> set (rb_unacked s') \<longleftrightarrow> i \<in> set (rb_unacked s))
    \<and> filter (\<lambda>c. fst c = i) (rb_called s') = filter (\<lambda>c. fst c = i) (rb_called s)"
  using assms(1)
proof (cases rule: redis_step.cases)
  case (redis_read topic now returns acks)
  let ?p = "fst (redis_poll topic now returns acks s)" and ?ids = "map sm_id (rb_stream s)"
  let ?ms = "take READ_COUNT (drop (rb_given s) (rb_stream s))"
  have srt: "sorted_wrt (<) ?ids" using assms(2) by (simp add: redis_ok_def)
  have new: "j \<noteq> i" if "j \<in> set (drop (rb_given s) ?ids)" for j
    using sorted_wrt_split [OF srt assms(3) that] by simp
  have ms: "i \<notin> sm_id ` set ?ms"
  proof
    assume "i \<in> sm_id ` set ?ms"
    then have "i \<in> set (drop (rb_given s) ?ids)" by (auto simp: drop_map dest: in_set_takeD)
    then show False using new by blast
  qed
  obtain ids es n where c: "rb_called ?p = rb_called s @ zip ids es" "ids = take n (drop (rb_given s) ?ids)"
      "rb_given s + length ids \<le> rb_given ?p"
    using redis_poll_called [of topic now returns acks s] by metis
  have "fst c \<noteq> i" if "c \<in> set (zip ids es)" for c
  proof -
    have "fst c \<in> set ids" using that set_zip_leftD [of "fst c" "snd c" ids es] by simp
    then have "fst c \<in> set (drop (rb_given s) ?ids)" unfolding c(2) by (rule in_set_takeD)
    then show ?thesis by (rule new)
  qed
  then have "filter (\<lambda>c. fst c = i) (zip ids es) = []" by (simp add: filter_empty_conv)
  moreover have "i \<in> set (rb_unacked ?p) \<longleftrightarrow> i \<in> set (rb_unacked s)"
    using redis_deliver_unacked [OF ms] ms by (simp add: redis_poll_def Let_def)
  moreover have "i \<in> set (take (rb_given ?p) ?ids)"
    using set_take_mono [of "rb_given s" "rb_given ?p" ?ids] assms(3) by (auto simp: redis_poll_def Let_def)
  moreover have "rb_stream ?p = rb_stream s" by (simp add: redis_poll_def Let_def)
  ultimately show ?thesis using redis_read c(1) by simp
qed (use assms(3) in \<open>auto dest!: redis_published simp: redis_add_def take_map\<close>)

lemma dumps_default_sent:
  assumes "jwf v"
  shows "utf8_encode (dumps_default v) = Some (map byte_of (dumps_default v))" "dumps_default v \<noteq> []"
proof -
  show "utf8_encode (dumps_default v) = Some (map byte_of (dumps_default v))"
    using ascii_dumps_default [OF assms] by (intro utf8_encode_ascii) (auto simp: list_all_iff)
  have "loads [] = None" by (simp add: loads_def skip_ws_def)
  then show "dumps_default v \<noteq> []" using loads_dumps_default [OF assms] by auto
qed

section \<open>Properties\<close>

text \<open>
  When transactions commit in the order of their ids, no subscriber ever skips an event: whatever
  publishers, failing handlers, lost updates and polls do, every committed event of the topic at or
  below the consumer's offset was handled, with its payload parsed, by that consumer.
\<close>

theorem events_never_skipped:
  assumes "(bus_step T True)\<^sup>*\<^sup>* bus_init s" "dget (eb_offsets s) sub = Some o'"
    and "r \<in> set (eb_rows s)" "er_topic r = snd sub" "er_id r \<le> o'"
  shows "\<exists>e. event_of r = Some e \<and> (sub, e) \<in> set (eb_handled s)"
proof -
  have "handled_upto s sub o'" using none_skipped_reach [OF assms(1)] assms(2) by (simp add: none_skipped_def)
  then show ?thesis using assms(3-5) by (simp add: handled_upto_def)
qed

definition toy_types :: pg_types where
  "toy_types = \<lparr>pg_uuid = (\<lambda>u. if valid_uuid u then Some u else None), pg_jsonb = (\<lambda>t. Some (RawJ JNull))\<rparr>"

definition toy_event :: "nat \<Rightarrow> event_row" where
  "toy_event i = \<lparr>er_id = i, er_tenant = uuid_text 3, er_topic = py ''t'', er_payload = RawJ JNull, er_created = 0\<rparr>"

lemma toy_insert:
  "publish_tenant toy_types (uuid_text 3) (py ''t'') JNull 0 s =
     Some (s\<lparr>eb_pending := eb_pending s @ [toy_event (eb_next s)], eb_next := Suc (eb_next s)\<rparr>)"
proof -
  have "uuid_text 3 \<noteq> []" by (simp add: uuid_text_def Let_def)
  moreover have "valid_uuid (uuid_text 3)" by (simp add: valid_uuid_def uuid_parse_text)
  ultimately show ?thesis by (simp add: publish_tenant_def insert_event_def toy_types_def toy_event_def)
qed

lemma toy_event_fields [simp]: "er_id (toy_event i) = i" "er_topic (toy_event i) = py ''t''"
  by (simp_all add: toy_event_def)

lemma toy_event_of: "event_of (toy_event i) = Some \<lparr>ev_id = i, ev_topic = py ''t'', ev_payload = JNull, ev_tenant = Some (uuid_text 3), ev_created = 0\<rparr>"
  by (simp add: event_of_def toy_event_def parse_payload_def)

definition toy_sub :: subscription where
  "toy_sub = (py ''c'', py ''t'')"

definition toy_state :: "event_row list \<Rightarrow> event_row list \<Rightarrow> nat \<Rightarrow> (subscription, nat) dict \<Rightarrow> (subscription \<times> event) list \<Rightarrow> pg_bus" where
  "toy_state rows pending nxt offsets handled =
     \<lparr>eb_rows = rows, eb_pending = pending, eb_next = nxt, eb_offsets = offsets, eb_handled = handled\<rparr>"

lemma toy_insert_step: "bus_step toy_types b (toy_state rs ps n os hs) (toy_state rs (ps @ [toy_event n]) (Suc n) os hs)"
  by (rule insert_row [of toy_types "uuid_text 3" "py ''t''" JNull 0]) (simp add: toy_insert toy_state_def)

lemma toy_commit_step:
  assumes "r \<in> set ps" "b \<longrightarrow> (\<forall>q \<in> set rs. er_id q < er_id r)"
  shows "bus_step toy_types b (toy_state rs ps n os hs) (toy_state (rs @ [r]) (removeAll r ps) n os hs)"
  using commit_row [of r "toy_state rs ps n os hs" b toy_types] assms by (simp add: toy_state_def)

lemma toy_subscribe_step: "bus_step toy_types b (toy_state rs ps n [] hs) (toy_state rs ps n [(toy_sub, 0)] hs)"
  using sub_row [of toy_types b "toy_state rs ps n [] hs" toy_sub] by (simp add: toy_state_def subscribe_row_def)

lemma toy_poll_step:
  "0 < i \<Longrightarrow> bus_step toy_types b (toy_state [toy_event i] ps n [(toy_sub, 0)] hs)
     (toy_state [toy_event i] ps n [(toy_sub, i)] (hs @ [(toy_sub, the (event_of (toy_event i)))]))"
  using poll [of toy_types b "toy_state [toy_event i] ps n [(toy_sub, 0)] hs" 100 "\<lambda>_. True" True toy_sub]
  by (simp add: toy_state_def poll_once_def unseen_def toy_event_of toy_sub_def Let_def)

lemma toy_init: "bus_init = toy_state [] [] 1 [] []"
  by (simp add: bus_init_def toy_state_def)

lemma events_never_skipped_witness:
  "\<exists>s e. (bus_step toy_types True)\<^sup>*\<^sup>* bus_init s \<and> event_of (toy_event 1) = Some e \<and> (toy_sub, e) \<in> set (eb_handled s)"
proof -
  let ?h = "[(toy_sub, the (event_of (toy_event 1)))]"
  let ?s = "toy_state [toy_event 1] [] 2 [(toy_sub, 1)] ?h"
  have "(bus_step toy_types True)\<^sup>*\<^sup>* bus_init (toy_state [toy_event 1] [] 2 [] [])"
    using toy_insert_step [of True "[]" "[]" 1 "[]" "[]"] toy_commit_step [of "toy_event 1" "[toy_event 1]" True "[]" 2 "[]" "[]"]
    by (simp add: toy_init numeral_2_eq_2)
  also have "(bus_step toy_types True)\<^sup>*\<^sup>* \<dots> ?s"
    using toy_subscribe_step [of True "[toy_event 1]" "[]" 2 "[]"] toy_poll_step [of 1 True "[]" 2 "[]"] by simp
  finally have "(bus_step toy_types True)\<^sup>*\<^sup>* bus_init ?s" .
  from this events_never_skipped [OF this, of toy_sub 1 "toy_event 1"] show ?thesis
    by (auto simp: toy_state_def toy_sub_def)
qed

text \<open>
  Postgres draws ids before it commits, and the bus does not wait for smaller ids: an event whose
  transaction commits after a consumer's offset has passed its id is stored, but no later poll of that
  consumer ever handles it, whatever happens.  Such states are reachable.
\<close>

theorem late_commit_lost:
  assumes "(bus_step T False)\<^sup>*\<^sup>* bus_init s" "r \<in> set (eb_pending s)"
    and "dget (eb_offsets s) sub = Some o'" "er_topic r = snd sub" "er_id r \<le> o'"
  shows "\<exists>s1. bus_step T False s s1 \<and> r \<in> set (eb_rows s1)
    \<and> (\<forall>s2. (bus_step T False)\<^sup>*\<^sup>* s1 s2 \<longrightarrow>
         r \<in> set (eb_rows s2) \<and> (\<forall>e. (sub, e) \<in> set (eb_handled s2) \<longrightarrow> ev_id e \<noteq> er_id r))"
proof -
  define s1 where "s1 = s\<lparr>eb_rows := eb_rows s @ [r], eb_pending := removeAll r (eb_pending s)\<rparr>"
  have step: "bus_step T False s s1" unfolding s1_def by (rule commit_row [OF assms(2)]) simp
  have "er_id r \<notin> er_id ` set (eb_rows s)"
    using ids_ok_reach [OF assms(1)] assms(2) by (auto simp: ids_ok_def)
  then have "\<forall>e. (sub, e) \<in> set (eb_handled s) \<longrightarrow> ev_id e \<noteq> er_id r"
    using handled_rows_reach [OF assms(1)] unfolding handled_rows_def by metis
  then have "passed_over s sub (er_id r)" using assms(3,5) by (auto simp: passed_over_def)
  then have p1: "passed_over s1 sub (er_id r)" by (rule passed_over_step [OF step])
  have "r \<in> set (eb_rows s2) \<and> passed_over s2 sub (er_id r)" if "(bus_step T False)\<^sup>*\<^sup>* s1 s2" for s2
    using that
  proof (induction rule: rtranclp_induct)
    case base
    show ?case using p1 by (simp add: s1_def)
  next
    case (step s2 s3)
    then show ?case using passed_over_step [of T False s2 s3] rows_step [of T False s2 s3] by blast
  qed
  then show ?thesis using step by (intro exI [of _ s1]) (auto simp: s1_def passed_over_def)
qed

lemma late_commit_lost_witness:
  "\<exists>s s1. (bus_step toy_types False)\<^sup>*\<^sup>* bus_init s \<and> bus_step toy_types False s s1 \<and> toy_event 1 \<in> set (eb_rows s1)
     \<and> (\<forall>s2. (bus_step toy_types False)\<^sup>*\<^sup>* s1 s2 \<longrightarrow> (\<forall>e. (toy_sub, e) \<in> set (eb_handled s2) \<longrightarrow> ev_id e \<noteq> 1))"
proof -
  have ne: "toy_event (Suc 0) \<noteq> toy_event 2" by (simp add: toy_event_def)
  let ?s = "toy_state [toy_event 2] [toy_event 1] 3 [(toy_sub, 2)] [(toy_sub, the (event_of (toy_event 2)))]"
  have "bus_step toy_types False bus_init (toy_state [] [toy_event 1] 2 [] [])"
    using toy_insert_step [of False "[]" "[]" 1 "[]" "[]"] by (simp add: toy_init numeral_2_eq_2)
  moreover have "bus_step toy_types False (toy_state [] [toy_event 1] 2 [] []) (toy_state [] [toy_event 1, toy_event 2] 3 [] [])"
    using toy_insert_step [of False "[]" "[toy_event 1]" 2 "[]" "[]"] by (simp add: eval_nat_numeral)
  moreover have "bus_step toy_types False (toy_state [] [toy_event 1, toy_event 2] 3 [] []) (toy_state [toy_event 2] [toy_event 1] 3 [] [])"
    using toy_commit_step [of "toy_event 2" "[toy_event 1, toy_event 2]" False "[]" 3 "[]" "[]"] ne by simp
  moreover have "bus_step toy_types False (toy_state [toy_event 2] [toy_event 1] 3 [] []) (toy_state [toy_event 2] [toy_event 1] 3 [(toy_sub, 0)] [])"
    by (rule toy_subscribe_step)
  moreover have "bus_step toy_types False (toy_state [toy_event 2] [toy_event 1] 3 [(toy_sub, 0)] []) ?s"
    using toy_poll_step [of 2 False "[toy_event 1]" 3 "[]"] by simp
  ultimately have "(bus_step toy_types False)\<^sup>*\<^sup>* bus_init ?s" by (meson converse_rtranclp_into_rtranclp rtranclp.rtrancl_refl)
  note reach = this late_commit_lost [OF this, of "toy_event 1" toy_sub 2]
  have id: "er_id (toy_event 1) = 1" "er_topic (toy_event 1) = snd toy_sub" by (simp_all add: toy_event_def toy_sub_def)
  have "toy_event 1 \<in> set (eb_pending ?s)" "dget (eb_offsets ?s) toy_sub = Some 2" by (simp_all add: toy_state_def)
  with reach id show ?thesis by fastforce
qed

text \<open>
  C16. A subscriber catches up: with payloads that parse and handlers that return, n polls of a batch of b
  hand over exactly the first n * b events beyond the offset, in the order of their ids and once each;
  so as many polls as there are batches hand over all, and the next poll finds nothing.  A poll that
  fails anywhere moves nothing: the next one starts with the same events again.
\<close>

theorem subscriber_catches_up:
  assumes "(bus_step T b)\<^sup>*\<^sup>* bus_init s" "\<forall>r \<in> set (unseen sub s). event_of r \<noteq> None"
  shows "eb_handled (polls n batch sub s) = eb_handled s @ map (\<lambda>r. (sub, the (event_of r))) (take (n * batch) (unseen sub s))
    \<and> (sorted (map er_id (unseen sub s)) \<and> distinct (map er_id (unseen sub s)))
    \<and> (length (unseen sub s) \<le> n * batch \<longrightarrow> unseen sub (polls n batch sub s) = []
      \<and> poll_once batch h upd sub (polls n batch sub s) = polls n batch sub s)
    \<and> (\<not> snd (deliver h (take batch (unseen sub s))) \<or> \<not> upd \<longrightarrow> unseen sub (poll_once batch h upd sub s) = unseen sub s)"
proof -
  have ok: "ids_ok s" using ids_ok_reach [OF assms(1)] .
  note all = polls_handled [OF ok assms(2), of n batch]
  have "length (unseen sub s) \<le> n * batch \<longrightarrow> unseen sub (polls n batch sub s) = []
      \<and> poll_once batch h upd sub (polls n batch sub s) = polls n batch sub s"
    using all by (auto simp: poll_once_def Let_def)
  moreover have "\<not> snd (deliver h (take batch (unseen sub s))) \<or> \<not> upd \<longrightarrow> unseen sub (poll_once batch h upd sub s) = unseen sub s"
    by (auto simp: poll_once_def Let_def unseen_def split: prod.splits option.splits)
  ultimately show ?thesis using all sorted_unseen distinct_unseen [OF ok] by blast
qed

lemma subscriber_catches_up_witness:
  "eb_handled (polls 1 10 toy_sub (toy_state [toy_event 1] [] 2 [(toy_sub, 0)] [])) = [(toy_sub, the (event_of (toy_event 1)))]"
proof -
  let ?s = "toy_state [toy_event 1] [] 2 [(toy_sub, 0)] []"
  have "(bus_step toy_types True)\<^sup>*\<^sup>* bus_init (toy_state [toy_event 1] [] 2 [] [])"
    using toy_insert_step [of True "[]" "[]" 1 "[]" "[]"] toy_commit_step [of "toy_event 1" "[toy_event 1]" True "[]" 2 "[]" "[]"]
    by (simp add: toy_init numeral_2_eq_2)
  then have "(bus_step toy_types True)\<^sup>*\<^sup>* bus_init ?s"
    by (rule rtranclp.rtrancl_into_rtrancl) (rule toy_subscribe_step)
  moreover have u: "unseen toy_sub ?s = [toy_event 1]" by (simp add: unseen_def toy_state_def toy_sub_def)
  ultimately have "eb_handled (polls 1 10 toy_sub ?s) = eb_handled ?s @ map (\<lambda>r. (toy_sub, the (event_of r))) (take (1 * 10) (unseen toy_sub ?s))"
    using subscriber_catches_up [of toy_types True ?s toy_sub 1 10] by (simp add: toy_event_of)
  then show ?thesis using u by (simp add: toy_state_def)
qed

text \<open>
  Over Redis every message reaches the handler at most once, in stream order, and one whose handler
  raised is not given again: it stays on the group's pending list, whatever follows.
\<close>

theorem redis_at_most_once:
  assumes "redis_step\<^sup>*\<^sup>* redis_init s"
  shows "sorted_wrt (<) (map fst (rb_called s))
    \<and> set (map fst (rb_called s)) \<subseteq> sm_id ` set (rb_stream s)
    \<and> (i \<in> set (rb_unacked s) \<and> redis_step\<^sup>*\<^sup>* s s' \<longrightarrow>
      i \<in> set (rb_unacked s') \<and> filter (\<lambda>c. fst c = i) (rb_called s') = filter (\<lambda>c. fst c = i) (rb_called s))"
proof -
  have ok: "redis_ok s" using assms by (rule redis_ok_reach)
  then have srt: "sorted_wrt (<) (map fst (rb_called s))" by (simp add: redis_ok_def)
  have "set (map fst (rb_called s)) \<subseteq> set (take (rb_given s) (map sm_id (rb_stream s)))" using ok by (simp add: redis_ok_def)
  also have "\<dots> \<subseteq> set (map sm_id (rb_stream s))" by (rule set_take_subset)
  finally have sub: "set (map fst (rb_called s)) \<subseteq> sm_id ` set (rb_stream s)" by simp
  have "i \<in> set (rb_unacked s') \<and> filter (\<lambda>c. fst c = i) (rb_called s') = filter (\<lambda>c. fst c = i) (rb_called s)"
    if i: "i \<in> set (rb_unacked s)" and steps: "redis_step\<^sup>*\<^sup>* s s'"
  proof -
    have given: "i \<in> set (take (rb_given s) (map sm_id (rb_stream s)))" using ok i unfolding redis_ok_def by blast
    have "redis_ok s' \<and> i \<in> set (take (rb_given s') (map sm_id (rb_stream s'))) \<and> i \<in> set (rb_unacked s')
      \<and> filter (\<lambda>c. fst c = i) (rb_called s') = filter (\<lambda>c. fst c = i) (rb_called s)"
      using steps
    proof (induction rule: rtranclp_induct)
      case base
      show ?case using ok given i by blast
    next
      case (step s1 s2)
      then show ?case using redis_given_step [of s1 s2 i] redis_ok_step [of s1 s2] by metis
    qed
    then show ?thesis by blast
  qed
  with srt sub show ?thesis by blast
qed

lemma redis_at_most_once_witness:
  "\<exists>s. redis_step\<^sup>*\<^sup>* redis_init s \<and> 7 \<in> set (rb_unacked s)
     \<and> (\<forall>s'. redis_step\<^sup>*\<^sup>* s s' \<longrightarrow> 7 \<in> set (rb_unacked s'))"
proof -
  define s1 where "s1 = redis_add 7 [(sent_key True ''payload'', RText (py ''null''))] redis_init"
  define s2 where "s2 = fst (redis_poll (py ''t'') 0 (\<lambda>_. False) (\<lambda>_. True) s1)"
  have "utf8_encode (py ''null'') \<noteq> None" by (simp add: py_def utf8_enc1_def)
  then have "redis_publish True 7 JNull redis_init = Some s1"
    by (auto simp: redis_publish_def sent_def s1_def dumps_default_def)
  then have "redis_step redis_init s1" by (intro redis_pub) (auto simp: redis_init_def)
  moreover have "redis_step s1 s2" unfolding s2_def by (rule redis_read)
  ultimately have reach: "redis_step\<^sup>*\<^sup>* redis_init s2" by (meson converse_rtranclp_into_rtranclp rtranclp.rtrancl_refl)
  moreover have i: "7 \<in> set (rb_unacked s2)"
    by (simp add: s2_def s1_def redis_poll_def redis_add_def redis_init_def READ_COUNT_def Let_def split: option.split)
  ultimately show ?thesis using redis_at_most_once [OF reach] by blast
qed

text \<open>
  What the Redis bus publishes, its subscribers read back: the same payload and tenant (none for the
  empty one), whether the client decodes or not.  Reading a batch raises, ending the subscription and
  losing the rest of the batch, exactly when a message of the batch is not such an event.
\<close>

theorem redis_event_roundtrip:
  assumes "jwf payload" "list_all valid_cp t"
  shows "(\<exists>fs. redis_publish decodes mid payload s = Some (redis_add mid fs s)
      \<and> redis_event topic now fs = Some \<lparr>ev_id = 0, ev_topic = topic, ev_payload = payload, ev_tenant = None, ev_created = now\<rparr>)
    \<and> (\<exists>fs. redis_publish_tenant decodes mid t payload s = Some (redis_add mid fs s)
      \<and> redis_event topic now fs = Some \<lparr>ev_id = 0, ev_topic = topic, ev_payload = payload,
           ev_tenant = (if t = [] then None else Some t), ev_created = now\<rparr>)
    \<and> (snd (redis_poll topic now returns acks s) \<longleftrightarrow>
      (\<exists>m \<in> set (take READ_COUNT (drop (rb_given s) (rb_stream s))). redis_event topic now (sm_fields m) = None))"
proof -
  have keys: "bstr ''payload'' \<noteq> bstr ''tenant_id''" "bstr ''tenant_id'' \<noteq> bstr ''payload''"
    by (simp_all add: bstr_def)
  have dec: "utf8_decode False bs = Some x" if "utf8_encode x = Some bs" for x bs
    using that by (rule utf8_decode_encode)
  have plain: "\<exists>fs. redis_publish decodes mid payload s = Some (redis_add mid fs s)
      \<and> redis_event topic now fs = Some \<lparr>ev_id = 0, ev_topic = topic, ev_payload = payload, ev_tenant = None, ev_created = now\<rparr>"
    using dumps_default_sent [OF assms(1)] dec [OF dumps_default_sent(1) [OF assms(1)]] assms(1) keys
    by (intro exI [of _ "[(sent_key decodes ''payload'', if decodes then RText (dumps_default payload)
          else RBytes (map byte_of (dumps_default payload)))]"]; cases decodes)
      (simp_all add: redis_publish_def sent_def sent_key_def redis_event_def field_of_def decode_field_def or_none_def)
  have tenant: "\<exists>fs. redis_publish_tenant decodes mid t payload s = Some (redis_add mid fs s)
      \<and> redis_event topic now fs = Some \<lparr>ev_id = 0, ev_topic = topic, ev_payload = payload,
           ev_tenant = (if t = [] then None else Some t), ev_created = now\<rparr>"
  proof -
    obtain bs where bs: "utf8_encode t = Some bs" using utf8_encode_Some [OF assms(2)] by blast
    have "bs = [] \<longleftrightarrow> t = []"
    proof
      assume "bs = []"
      then show "t = []" using dec [OF bs] by simp
    qed (use bs in simp)
    then show ?thesis using dumps_default_sent [OF assms(1)] dec [OF dumps_default_sent(1) [OF assms(1)]] dec [OF bs] bs assms(1) keys
      by (intro exI [of _ "[(sent_key decodes ''tenant_id'', if decodes then RText t else RBytes bs),
            (sent_key decodes ''payload'', if decodes then RText (dumps_default payload)
              else RBytes (map byte_of (dumps_default payload)))]"]; cases decodes; cases "t = []")
        (simp_all add: redis_publish_tenant_def sent_def sent_key_def redis_event_def field_of_def decode_field_def or_none_def)
  qed
  have "snd (redis_deliver topic now returns acks ms s) \<longleftrightarrow> (\<exists>m \<in> set ms. redis_event topic now (sm_fields m) = None)" for ms s
    by (induction ms arbitrary: s) (auto simp: Let_def split: option.split)
  then have "snd (redis_poll topic now returns acks s) \<longleftrightarrow>
      (\<exists>m \<in> set (take READ_COUNT (drop (rb_given s) (rb_stream s))). redis_event topic now (sm_fields m) = None)"
    by (simp add: redis_poll_def Let_def)
  with plain tenant show ?thesis by blast
qed

lemma redis_event_roundtrip_witness:
  "\<exists>fs. redis_publish_tenant False 1 (py ''acme'') (JInt 5) redis_init = Some (redis_add 1 fs redis_init)
     \<and> redis_event (py ''t'') 0 fs = Some \<lparr>ev_id = 0, ev_topic = py ''t'', ev_payload = JInt 5, ev_tenant = Some (py ''acme''), ev_created = 0\<rparr>"
proof -
  have "list_all valid_cp (py ''acme'')" by (simp add: py_def valid_cp_def surrogate_def)
  then show ?thesis using redis_event_roundtrip [of "JInt 5" "py ''acme''" False 1 redis_init "py ''t''" 0 "\<lambda>_. True" "\<lambda>_. True"] by simp
qed

end
