(* ===== verification/Sessions.thy ===== *)
theory Sessions
  imports EventBus Quota
begin

text \<open>
  \<open>omkit/sessions.py\<close>: the session stores over the \<open>sessions\<close> table and over Redis, both
  interpretations of the locale \<open>session_store\<close>, which says what a caller may rely on: what is found
  after a put, nothing after a delete, and the sessions of a tenant in its list.  The two backends
  agree up to the whole seconds of a Redis expiry, which is the \<open>slack\<close> of the contract.
\<close>

section \<open>Timestamps as text\<close>

text \<open>\<open>datetime.isoformat\<close> of a UTC instant, with the microseconds only when there are some.\<close>

fun dec_width :: "nat \<Rightarrow> nat \<Rightarrow> pystr" where
  "dec_width 0 n = []"
| "dec_width (Suc k) n = dec_width k (n div 10) @ [48 + n mod 10]"

definition isoformat :: "instant \<Rightarrow> pystr" where
  "isoformat t =
     dec_width 4 (in_year t) @ py ''-'' @ dec_width 2 (in_month t) @ py ''-'' @ dec_width 2 (in_day t) @ py ''T'' @
     dec_width 2 (in_second t div 3600) @ py '':'' @ dec_width 2 (in_second t div 60 mod 60) @ py '':'' @
     dec_width 2 (in_second t mod 60) @
     (if in_micro t = 0 then [] else py ''.'' @ dec_width 6 (in_micro t)) @ py ''+00:00''"

text \<open>\<open>fromisoformat\<close> on the texts \<open>isoformat\<close> writes; its other formats are the argument \<open>other\<close>.\<close>

definition take_num :: "nat \<Rightarrow> pystr \<Rightarrow> (nat \<times> pystr) option" where
  "take_num k s = (if k \<le> length s \<and> list_all is_digit (take k s) then Some (digits_val 0 (take k s), drop k s) else None)"

definition take_lit :: "string \<Rightarrow> pystr \<Rightarrow> pystr option" where
  "take_lit c s = (if startswith (py c) s then Some (drop (length c) s) else None)"

definition take_sep :: "string \<Rightarrow> nat \<Rightarrow> pystr \<Rightarrow> (nat \<times> pystr) option" where
  "take_sep c k s = Option.bind (take_lit c s) (take_num k)"

definition take_micro :: "pystr \<Rightarrow> nat option" where
  "take_micro s =
     (if s = py ''+00:00'' then Some 0
      else (case take_sep ''.'' 6 s of Some (u, r) \<Rightarrow> if r = py ''+00:00'' then Some u else None | None \<Rightarrow> None))"

definition utc_fields :: "pystr \<Rightarrow> instant option" where
  "utc_fields s =
     Option.bind (take_num 4 s) (\<lambda>(y, s). Option.bind (take_sep ''-'' 2 s) (\<lambda>(m, s).
     Option.bind (take_sep ''-'' 2 s) (\<lambda>(d, s). Option.bind (take_sep ''T'' 2 s) (\<lambda>(h, s).
     Option.bind (take_sep '':'' 2 s) (\<lambda>(mi, s). Option.bind (take_sep '':'' 2 s) (\<lambda>(sec, s).
     Option.bind (take_micro s) (\<lambda>u.
       (let t = \<lparr>in_year = y, in_month = m, in_day = d, in_second = h * 3600 + mi * 60 + sec, in_micro = u\<rparr>
        in if mi < 60 \<and> sec < 60 \<and> valid_instant t then Some t else None))))))))"

definition fromisoformat :: "(pystr \<Rightarrow> instant option) \<Rightarrow> pystr \<Rightarrow> instant option" where
  "fromisoformat other s = (case utc_fields s of Some t \<Rightarrow> Some t | None \<Rightarrow> other s)"

lemma length_dec_width [simp]: "length (dec_width k n) = k"
  by (induction k arbitrary: n) auto

lemma dec_width_digits: "list_all is_digit (dec_width k n)"
proof (induction k arbitrary: n)
  case (Suc k)
  have "n mod 10 \<le> 9" by simp
  then show ?case using Suc by (simp add: is_digit_def)
qed simp

lemma digits_val_dec_width: "n < 10 ^ k \<Longrightarrow> digits_val 0 (dec_width k n) = n"
proof (induction k arbitrary: n)
  case (Suc k)
  then have "n div 10 < 10 ^ k" by (simp add: less_mult_imp_div_less mult.commute)
  with Suc.IH [of "n div 10"] show ?case by (simp add: digits_val_append)
qed simp

lemma take_num_dec: "n < 10 ^ k \<Longrightarrow> take_num k (dec_width k n @ r) = Some (n, r)"
  by (simp add: take_num_def dec_width_digits digits_val_dec_width)

lemma take_lit_py: "take_lit c (py c @ r) = Some r"
  by (simp add: take_lit_def startswith_def)

lemma take_sep_dec: "n < 10 ^ k \<Longrightarrow> take_sep c k (py c @ dec_width k n @ r) = Some (n, r)"
  by (simp add: take_sep_def take_lit_py take_num_dec)

lemma take_micro_iso:
  "u < 1000000 \<Longrightarrow> take_micro ((if u = 0 then [] else py ''.'' @ dec_width 6 u) @ py ''+00:00'') = Some u"
proof -
  assume u: "u < 1000000"
  have "hd (py ''.'' @ x) \<noteq> hd (py ''+00:00'')" for x by (simp add: py_def)
  then have "py ''.'' @ x \<noteq> py ''+00:00''" for x by metis
  then show ?thesis using take_sep_dec [of u 6 "''.''" "py ''+00:00''"] u by (auto simp: take_micro_def)
qed

lemma utc_fields_isoformat:
  assumes "valid_instant t"
  shows "utc_fields (isoformat t) = Some t"
proof -
  have b: "in_year t < 10 ^ 4" "in_month t < 10 ^ 2" "in_second t div 3600 < 10 ^ 2"
    "in_second t div 60 mod 60 < 60" "in_second t mod 60 < 60" "in_micro t < 1000000"
    using assms by (auto simp: valid_instant_def)
  have d: "in_day t < 10 ^ 2" using assms days_in_month_range(2) [of "in_year t" "in_month t"]
    by (auto simp: valid_instant_def)
  have two: "n < 60 \<Longrightarrow> n < 10 ^ 2" for n :: nat by simp
  have sum: "in_second t div 3600 * 3600 + in_second t div 60 mod 60 * 60 + in_second t mod 60 = in_second t"
  proof -
    have h: "in_second t div 3600 = in_second t div 60 div 60" by (simp flip: div_mult2_eq)
    have "q div 60 * 3600 + q mod 60 * 60 = q * 60" for q :: nat using div_mult_mod_eq [of q 60] by linarith
    from this [of "in_second t div 60"] show ?thesis unfolding h by simp
  qed
  define tail where "tail = (if in_micro t = 0 then [] else py ''.'' @ dec_width 6 (in_micro t)) @ py ''+00:00''"
  have "take_micro tail = Some (in_micro t)" unfolding tail_def by (rule take_micro_iso [OF b(6)])
  moreover have "valid_instant \<lparr>in_year = in_year t, in_month = in_month t, in_day = in_day t, in_second = in_second t, in_micro = in_micro t\<rparr>"
    using assms by (cases t) simp
  ultimately show ?thesis
    unfolding utc_fields_def isoformat_def tail_def [symmetric]
    by (simp add: take_num_dec [OF b(1)] take_sep_dec [OF b(2)] take_sep_dec [OF d] take_sep_dec [OF b(3)]
        take_sep_dec [OF two [OF b(4)]] take_sep_dec [OF two [OF b(5)]] b(4,5) sum Let_def)
qed

lemma fromisoformat_isoformat [simp]: "valid_instant t \<Longrightarrow> fromisoformat other (isoformat t) = Some t"
  by (simp add: fromisoformat_def utc_fields_isoformat)

lemma isoformat_valid_cp [simp]: "list_all valid_cp (isoformat t)"
proof -
  have "list_all valid_cp (dec_width k n)" for k n
  proof (induction k arbitrary: n)
    case (Suc k)
    have "48 + n mod 10 < 58" by simp
    then have "valid_cp (48 + n mod 10)" unfolding valid_cp_def surrogate_def by linarith
    then show ?case using Suc by simp
  qed simp
  moreover have "list_all valid_cp (py ''-'')" "list_all valid_cp (py ''T'')" "list_all valid_cp (py '':'')"
    "list_all valid_cp (py ''.'')" "list_all valid_cp (py ''+00:00'')"
    by (simp_all add: py_def valid_cp_def surrogate_def)
  ultimately show ?thesis by (simp add: isoformat_def)
qed

section \<open>Sessions\<close>

record session =
  se_token :: pystr
  se_tenant :: pystr
  se_payload :: json
  se_expires :: instant
  se_created :: instant

text \<open>\<open>SessionBroken\<close> is any other exception: a stored value that cannot be read.\<close>

datatype session_error = NotFound | SessionBroken

definition session_payload :: "raw_value \<Rightarrow> json option" where
  "session_payload v =
     (case v of
        RawB bs \<Rightarrow> (case utf8_decode False bs of None \<Rightarrow> None | Some s \<Rightarrow> loads s)
      | RawS s \<Rightarrow> loads s
      | RawJ (JStr s) \<Rightarrow> loads s
      | RawJ j \<Rightarrow> Some (if json_truthy j then j else JObj []))"

section \<open>PostgresSessionStore\<close>

text \<open>The rows of the table, as a pool that bypasses row-level security sees them; the token is the primary key.\<close>

record session_row =
  sr_token :: pystr
  sr_tenant :: pystr
  sr_payload :: raw_value
  sr_created :: instant
  sr_expires :: instant

type_synonym session_table = "session_row list"

definition row_session :: "session_row \<Rightarrow> session_error + session" where
  "row_session r =
     (case session_payload (sr_payload r) of
        None \<Rightarrow> Inl SessionBroken
      | Some p \<Rightarrow> Inr \<lparr>se_token = sr_token r, se_tenant = sr_tenant r, se_payload = p,
                       se_expires = sr_expires r, se_created = sr_created r\<rparr>)"

definition pg_session_get :: "pystr option \<Rightarrow> session_table \<Rightarrow> instant \<Rightarrow> pystr \<Rightarrow> session_error + session" where
  "pg_session_get tenant_id tbl now token =
     (case List.find (\<lambda>r. sr_token r = token \<and> micros now < micros (sr_expires r)) tbl of
        None \<Rightarrow> Inl NotFound
      | Some r \<Rightarrow> if tenant_id \<noteq> None \<and> tenant_id \<noteq> Some (sr_tenant r) then Inl NotFound else row_session r)"

text \<open>The upsert: a row that exists keeps its tenant and its creation time. None when a cast fails.\<close>

definition upsert :: "pystr \<Rightarrow> raw_value \<Rightarrow> instant \<Rightarrow> session \<Rightarrow> session_table \<Rightarrow> session_table" where
  "upsert tenant v now s tbl =
     (if se_token s \<in> sr_token ` set tbl then
        map (\<lambda>r. if sr_token r = se_token s then r\<lparr>sr_payload := v, sr_expires := se_expires s\<rparr> else r) tbl
      else tbl @ [\<lparr>sr_token = se_token s, sr_tenant = tenant, sr_payload = v, sr_created = now, sr_expires = se_expires s\<rparr>])"

definition pg_session_put :: "pg_types \<Rightarrow> instant \<Rightarrow> session \<Rightarrow> session_table \<Rightarrow> session_table option" where
  "pg_session_put T now s tbl =
     (case (pg_uuid T (se_tenant s), pg_jsonb T (dumps_default (se_payload s))) of
        (Some u, Some v) \<Rightarrow> Some (upsert u v now s tbl)
      | _ \<Rightarrow> None)"

definition pg_session_delete :: "pg_types \<Rightarrow> pystr option \<Rightarrow> pystr \<Rightarrow> session_table \<Rightarrow> session_table option" where
  "pg_session_delete T tenant_id token tbl =
     (case tenant_id of
        None \<Rightarrow> Some (filter (\<lambda>r. sr_token r \<noteq> token) tbl)
      | Some t \<Rightarrow> (case pg_uuid T t of
            None \<Rightarrow> None
          | Some u \<Rightarrow> Some (filter (\<lambda>r. \<not> (sr_token r = token \<and> sr_tenant r = u)) tbl)))"

fun collect_ok :: "('e + 'a) list \<Rightarrow> 'e + 'a list" where
  "collect_ok [] = Inr []"
| "collect_ok (r # rs) = res_bind r (\<lambda>x. res_bind (collect_ok rs) (\<lambda>xs. Inr (x # xs)))"

definition pg_session_list :: "pg_types \<Rightarrow> session_table \<Rightarrow> instant \<Rightarrow> pystr \<Rightarrow> session_error + session list" where
  "pg_session_list T tbl now tenant_id =
     (case pg_uuid T tenant_id of
        None \<Rightarrow> Inl SessionBroken
      | Some u \<Rightarrow> collect_ok (map row_session (rev (sort_key (\<lambda>r. micros (sr_created r))
           (filter (\<lambda>r. sr_tenant r = u \<and> micros now < micros (sr_expires r)) tbl)))))"

section \<open>RedisSessionStore\<close>

text \<open>A key holds its expiry in microseconds and its value; a key is gone from its expiry on.\<close>

type_synonym redis_sessions = "(pystr, int \<times> bytes) dict"

definition session_key :: "pystr \<Rightarrow> pystr \<Rightarrow> pystr" where
  "session_key prefix token = prefix @ token"

definition session_json :: "session \<Rightarrow> json" where
  "session_json s = JObj
     [(py ''token'', JStr (se_token s)), (py ''tenant_id'', JStr (se_tenant s)), (py ''payload'', se_payload s),
      (py ''expires_at'', JStr (isoformat (se_expires s))), (py ''created_at'', JStr (isoformat (se_created s)))]"

text \<open>\<open>json.loads\<close>, the two timestamps, \<open>Session(**d)\<close> with exactly its five fields; a token or
  tenant that is not a text is counted as broken too.\<close>

definition read_session :: "(pystr \<Rightarrow> instant option) \<Rightarrow> bytes \<Rightarrow> session option" where
  "read_session other b =
     (case json_loads_bytes b of
        Inr (JObj d) \<Rightarrow>
          if set (keys d) \<noteq> {py ''token'', py ''tenant_id'', py ''payload'', py ''expires_at'', py ''created_at''} then None
          else (case (dget d (py ''token''), dget d (py ''tenant_id''), dget d (py ''payload''),
                      dget d (py ''expires_at''), dget d (py ''created_at'')) of
            (Some (JStr tok), Some (JStr ten), Some p, Some (JStr e), Some (JStr c)) \<Rightarrow>
              (case (fromisoformat other e, fromisoformat other c) of
                 (Some e', Some c') \<Rightarrow> Some \<lparr>se_token = tok, se_tenant = ten, se_payload = p, se_expires = e', se_created = c'\<rparr>
               | _ \<Rightarrow> None)
          | _ \<Rightarrow> None)
      | _ \<Rightarrow> None)"

definition redis_session_get ::
    "(pystr \<Rightarrow> instant option) \<Rightarrow> pystr \<Rightarrow> pystr option \<Rightarrow> redis_sessions \<Rightarrow> instant \<Rightarrow> pystr \<Rightarrow> session_error + session" where
  "redis_session_get other prefix tenant_id st now token =
     (case dget st (session_key prefix token) of
        None \<Rightarrow> Inl NotFound
      | Some (expiry, b) \<Rightarrow>
          if expiry \<le> micros now then Inl NotFound
          else (case read_session other b of None \<Rightarrow> Inl SessionBroken | Some s \<Rightarrow> Inr s))"

definition session_ttl :: "instant \<Rightarrow> session \<Rightarrow> int" where
  "session_ttl now s = (let ttl = trunc_seconds (micros (se_expires s) - micros now) in if ttl < 1 then 1 else ttl)"

text \<open>None when the token cannot be encoded for the key.\<close>

definition redis_session_put :: "pystr \<Rightarrow> instant \<Rightarrow> session \<Rightarrow> redis_sessions \<Rightarrow> redis_sessions option" where
  "redis_session_put prefix now s st =
     (if utf8_encode (session_key prefix (se_token s)) = None then None
      else Some (dset (session_key prefix (se_token s))
        (micros now + session_ttl now s * 1000000, map byte_of (dumps_default (session_json s))) st))"

definition redis_session_delete :: "pystr \<Rightarrow> pystr option \<Rightarrow> pystr \<Rightarrow> redis_sessions \<Rightarrow> redis_sessions" where
  "redis_session_delete prefix tenant_id token st = dpop (session_key prefix token) st"

text \<open>The scan over the live keys with the prefix, a get of each, the tenant compared afterwards.\<close>

fun list_keys :: "(pystr \<Rightarrow> session_error + session) \<Rightarrow> pystr \<Rightarrow> pystr list \<Rightarrow> session_error + session list" where
  "list_keys get tenant_id [] = Inr []"
| "list_keys get tenant_id (tok # toks) =
     (case get tok of
        Inl NotFound \<Rightarrow> list_keys get tenant_id toks
      | Inl e \<Rightarrow> Inl e
      | Inr s \<Rightarrow> res_bind (list_keys get tenant_id toks) (\<lambda>out. Inr (if se_tenant s = tenant_id then s # out else out)))"

definition redis_session_list ::
    "(pystr \<Rightarrow> instant option) \<Rightarrow> pystr \<Rightarrow> redis_sessions \<Rightarrow> instant \<Rightarrow> pystr \<Rightarrow> session_error + session list" where
  "redis_session_list other prefix st now tenant_id =
     list_keys (redis_session_get other prefix None st now) tenant_id
       (map (drop (length prefix)) (filter (startswith prefix) (keys st)))"

section \<open>Choosing a backend\<close>

datatype session_choice = PgSessions | RedisSessions "pystr option" | SessionValueError

definition session_backend_from_env :: "pystr option \<Rightarrow> bus_backend option" where
  "session_backend_from_env var =
     (let v = (case var of None \<Rightarrow> py ''postgres'' | Some v \<Rightarrow> v)
      in if v = py ''postgres'' then Some PostgresBackend else if v = py ''redis'' then Some RedisBackend else None)"

definition new_store :: "pystr option \<Rightarrow> bool \<Rightarrow> bool \<Rightarrow> pystr \<Rightarrow> session_choice" where
  "new_store var has_pool has_client url =
     (case session_backend_from_env var of
        None \<Rightarrow> SessionValueError
      | Some PostgresBackend \<Rightarrow> if has_pool then PgSessions else SessionValueError
      | Some RedisBackend \<Rightarrow> RedisSessions (if has_client then None else Some url))"

section \<open>The SessionStore protocol\<close>

datatype session_op = PutOp instant session | DeleteOp pystr

text \<open>A caller's history: an operation that raises leaves the store as it is.\<close>

fun run_ops :: "(instant \<Rightarrow> session \<Rightarrow> 's \<Rightarrow> 's option) \<Rightarrow> (pystr \<Rightarrow> 's \<Rightarrow> 's option) \<Rightarrow> session_op list \<Rightarrow> 's \<Rightarrow> 's" where
  "run_ops put delete [] st = st"
| "run_ops put delete (PutOp now s # ops) st =
     run_ops put delete ops (case put now s st of None \<Rightarrow> st | Some st' \<Rightarrow> st')"
| "run_ops put delete (DeleteOp tok # ops) st =
     run_ops put delete ops (case delete tok st of None \<Rightarrow> st | Some st' \<Rightarrow> st')"

fun op_token :: "session_op \<Rightarrow> pystr" where
  "op_token (PutOp now s) = se_token s"
| "op_token (DeleteOp tok) = tok"

fun op_okay :: "(session \<Rightarrow> bool) \<Rightarrow> session_op \<Rightarrow> bool" where
  "op_okay okay (PutOp now s) = okay s"
| "op_okay okay (DeleteOp tok) = True"

locale session_store =
  fixes inv :: "'s \<Rightarrow> bool"
    and get :: "'s \<Rightarrow> instant \<Rightarrow> pystr \<Rightarrow> session_error + session"
    and put :: "instant \<Rightarrow> session \<Rightarrow> 's \<Rightarrow> 's option"
    and delete :: "pystr \<Rightarrow> 's \<Rightarrow> 's option"
    and list_of :: "'s \<Rightarrow> instant \<Rightarrow> pystr \<Rightarrow> session_error + session list"
    and okay :: "session \<Rightarrow> bool"
    and stored :: "json \<Rightarrow> json option"
    and tenant_form :: "pystr \<Rightarrow> pystr option"
    and slack :: int
  assumes inv_put: "inv st \<Longrightarrow> okay s \<Longrightarrow> put now s st = Some st' \<Longrightarrow> inv st'"
    and inv_delete: "inv st \<Longrightarrow> delete tok st = Some st' \<Longrightarrow> inv st'"
    and put_found: "inv st \<Longrightarrow> okay s \<Longrightarrow> put now s st = Some st' \<Longrightarrow> stored (se_payload s) = Some p \<Longrightarrow>
      micros now \<le> micros t \<Longrightarrow> micros t + slack < micros (se_expires s) \<Longrightarrow>
      \<exists>r. get st' t (se_token s) = Inr r \<and> se_token r = se_token s \<and> se_payload r = p \<and> se_expires r = se_expires s"
    and put_gone: "inv st \<Longrightarrow> put now s st = Some st' \<Longrightarrow> micros now + slack \<le> micros t \<Longrightarrow>
      micros (se_expires s) + slack \<le> micros t \<Longrightarrow> get st' t (se_token s) = Inl NotFound"
    and put_other: "inv st \<Longrightarrow> put now s st = Some st' \<Longrightarrow> tok \<noteq> se_token s \<Longrightarrow> get st' t tok = get st t tok"
    and delete_some: "\<exists>st'. delete tok st = Some st' \<and> get st' t tok = Inl NotFound"
    and delete_other: "delete tok st = Some st' \<Longrightarrow> tok' \<noteq> tok \<Longrightarrow> get st' t tok' = get st t tok'"
    and list_exact: "inv st \<Longrightarrow> tenant_form tenant = Some u \<Longrightarrow> list_of st t tenant = Inr xs \<Longrightarrow>
      s \<in> set xs \<longleftrightarrow> get st t (se_token s) = Inr s \<and> se_tenant s = u"
begin

lemma inv_run: "inv st \<Longrightarrow> \<forall>p \<in> set ops. op_okay okay p \<Longrightarrow> inv (run_ops put delete ops st)"
proof (induction ops arbitrary: st)
  case (Cons p ops)
  then show ?case by (cases p) (auto split: option.split dest: inv_put inv_delete)
qed simp

lemma run_other:
  "inv st \<Longrightarrow> \<forall>p \<in> set ops. op_okay okay p \<and> op_token p \<noteq> tok \<Longrightarrow>
    get (run_ops put delete ops st) t tok = get st t tok"
proof (induction ops arbitrary: st)
  case (Cons p ops)
  show ?case
  proof (cases p)
    case (PutOp now s)
    show ?thesis
    proof (cases "put now s st")
      case (Some st')
      have "inv st'" using inv_put [OF Cons.prems(1) _ Some] Cons.prems(2) PutOp by simp
      then show ?thesis using Cons PutOp Some put_other [OF Cons.prems(1) Some, of tok] by auto
    qed (use Cons PutOp in simp)
  next
    case (DeleteOp tok')
    obtain st' where d: "delete tok' st = Some st'" using delete_some by blast
    then have "inv st'" using inv_delete Cons.prems(1) by blast
    then show ?thesis using Cons DeleteOp d delete_other [OF d, of tok] by auto
  qed
qed simp

lemma logged_out:
  assumes "inv st" "\<forall>p \<in> set ops. op_okay okay p \<and> op_token p \<noteq> tok"
  shows "get (run_ops put delete (DeleteOp tok # ops) st) t tok = Inl NotFound"
proof -
  obtain st' where d: "delete tok st = Some st'" "get st' t tok = Inl NotFound" using delete_some by blast
  then have "inv st'" using inv_delete assms(1) by blast
  then show ?thesis using run_other [OF _ assms(2), of st' t] d by simp
qed

lemma latest_put:
  assumes "inv st" "okay s" "put now s st = Some st'" "stored (se_payload s) = Some p"
    and "\<forall>q \<in> set ops. op_okay okay q \<and> op_token q \<noteq> se_token s"
  shows "micros now \<le> micros t \<Longrightarrow> micros t + slack < micros (se_expires s) \<Longrightarrow>
      \<exists>r. get (run_ops put delete (PutOp now s # ops) st) t (se_token s) = Inr r
        \<and> se_token r = se_token s \<and> se_payload r = p \<and> se_expires r = se_expires s"
    and "micros now + slack \<le> micros t \<Longrightarrow> micros (se_expires s) + slack \<le> micros t \<Longrightarrow>
      get (run_ops put delete (PutOp now s # ops) st) t (se_token s) = Inl NotFound"
proof -
  have "inv st'" by (rule inv_put [OF assms(1,2,3)])
  then have g: "get (run_ops put delete (PutOp now s # ops) st) t (se_token s) = get st' t (se_token s)"
    using run_other assms(3,5) by simp
  show "micros now \<le> micros t \<Longrightarrow> micros t + slack < micros (se_expires s) \<Longrightarrow>
      \<exists>r. get (run_ops put delete (PutOp now s # ops) st) t (se_token s) = Inr r
        \<and> se_token r = se_token s \<and> se_payload r = p \<and> se_expires r = se_expires s"
    unfolding g by (rule put_found [OF assms(1-4)])
  show "micros now + slack \<le> micros t \<Longrightarrow> micros (se_expires s) + slack \<le> micros t \<Longrightarrow>
      get (run_ops put delete (PutOp now s # ops) st) t (se_token s) = Inl NotFound"
    unfolding g by (rule put_gone [OF assms(1,3)])
qed

end

section \<open>Both stores keep the contract\<close>

definition pg_sessions_inv :: "session_table \<Rightarrow> bool" where
  "pg_sessions_inv tbl = distinct (map sr_token tbl)"

definition pg_stored :: "pg_types \<Rightarrow> json \<Rightarrow> json option" where
  "pg_stored T p = Option.bind (pg_jsonb T (dumps_default p)) session_payload"

lemma find_distinct:
  "distinct (map f xs) \<Longrightarrow> x \<in> set xs \<Longrightarrow> P x \<Longrightarrow> List.find (\<lambda>y. f y = f x \<and> P y) xs = Some x"
  by (induction xs) auto

lemma find_Some_in: "List.find P xs = Some x \<Longrightarrow> x \<in> set xs \<and> P x"
  by (auto simp: find_Some_iff)

lemma map_sr_token_upsert:
  "map sr_token (upsert u v now s tbl) = map sr_token tbl @ (if se_token s \<in> sr_token ` set tbl then [] else [se_token s])"
  by (auto simp: upsert_def)

lemma find_snoc: "\<not> P x \<Longrightarrow> List.find P (xs @ [x]) = List.find P xs"
  by (induction xs) auto

lemma find_map_same:
  "(\<And>x. x \<in> set xs \<Longrightarrow> P (f x) = P x) \<Longrightarrow> (\<And>x. x \<in> set xs \<Longrightarrow> P x \<Longrightarrow> f x = x) \<Longrightarrow> List.find P (map f xs) = List.find P xs"
  by (induction xs) auto

lemma pg_put_other:
  assumes "pg_session_put T now s tbl = Some tbl'" "tok \<noteq> se_token s"
  shows "pg_session_get ten tbl' t tok = pg_session_get ten tbl t tok"
proof -
  obtain u v where tbl': "tbl' = upsert u v now s tbl" using assms(1) by (auto simp: pg_session_put_def split: option.splits)
  have "List.find (\<lambda>r. sr_token r = tok \<and> micros t < micros (sr_expires r)) tbl' =
      List.find (\<lambda>r. sr_token r = tok \<and> micros t < micros (sr_expires r)) tbl"
    unfolding tbl' upsert_def using assms(2) by (auto intro!: find_map_same simp: find_snoc split: if_splits)
  then show ?thesis by (simp add: pg_session_get_def)
qed

lemma pg_put_row:
  assumes "pg_sessions_inv tbl"
  shows "\<exists>r \<in> set (upsert u v now s tbl). sr_token r = se_token s \<and> sr_payload r = v \<and> sr_expires r = se_expires s"
    and "r \<in> set (upsert u v now s tbl) \<Longrightarrow> sr_token r = se_token s \<Longrightarrow> sr_expires r = se_expires s"
    and "pg_sessions_inv (upsert u v now s tbl)"
proof -
  show "pg_sessions_inv (upsert u v now s tbl)"
    using assms by (simp add: pg_sessions_inv_def map_sr_token_upsert)
  show "\<exists>r \<in> set (upsert u v now s tbl). sr_token r = se_token s \<and> sr_payload r = v \<and> sr_expires r = se_expires s"
  proof (cases "se_token s \<in> sr_token ` set tbl")
    case True
    then obtain q where "q \<in> set tbl" "sr_token q = se_token s" by auto
    then have "q\<lparr>sr_payload := v, sr_expires := se_expires s\<rparr> \<in> set (upsert u v now s tbl)"
      using True by (force simp: upsert_def)
    then show ?thesis using \<open>sr_token q = se_token s\<close>
      by (intro bexI [of _ "q\<lparr>sr_payload := v, sr_expires := se_expires s\<rparr>"]) simp_all
  qed (simp add: upsert_def)
  show "r \<in> set (upsert u v now s tbl) \<Longrightarrow> sr_token r = se_token s \<Longrightarrow> sr_expires r = se_expires s"
    by (auto simp: upsert_def image_iff split: if_splits)
qed

lemma collect_ok_Inr: "collect_ok (map f xs) = Inr ys \<Longrightarrow> y \<in> set ys \<longleftrightarrow> (\<exists>x \<in> set xs. f x = Inr y)"
  by (induction xs arbitrary: ys) (auto simp: res_bind_Inr_iff)

lemma row_session_fields:
  "row_session r = Inr s \<Longrightarrow> se_token s = sr_token r \<and> se_tenant s = sr_tenant r \<and> se_expires s = sr_expires r
     \<and> session_payload (sr_payload r) = Some (se_payload s)"
  by (auto simp: row_session_def split: option.splits)

lemma pg_get_row:
  assumes "pg_sessions_inv tbl" "r \<in> set tbl" "micros t < micros (sr_expires r)"
  shows "pg_session_get None tbl t (sr_token r) = row_session r"
  using find_distinct [of sr_token tbl r "\<lambda>r. micros t < micros (sr_expires r)"] assms
  by (simp add: pg_session_get_def pg_sessions_inv_def)

interpretation pgs: session_store pg_sessions_inv "pg_session_get None" "pg_session_put T" "pg_session_delete T None"
    "pg_session_list T" "\<lambda>_. True" "pg_stored T" "pg_uuid T" 0 for T
proof unfold_locales
  fix st :: session_table and s now st'
  assume inv: "pg_sessions_inv st" and p: "pg_session_put T now s st = Some st'"
  then obtain u v where v: "pg_jsonb T (dumps_default (se_payload s)) = Some v" and st': "st' = upsert u v now s st"
    by (auto simp: pg_session_put_def split: option.splits)
  note row = pg_put_row [OF inv, where u = u and v = v and now = now and s = s, folded st']
  show "pg_sessions_inv st'" by (rule row(3))
  {
    fix q t
    assume q: "pg_stored T (se_payload s) = Some q" and "micros t + 0 < micros (se_expires s)"
    then obtain r where r: "r \<in> set st'" "sr_token r = se_token s" "sr_payload r = v" "sr_expires r = se_expires s"
      "micros t < micros (sr_expires r)"
      using row(1) by fastforce
    then have "pg_session_get None st' t (se_token s) = row_session r" using pg_get_row [OF row(3)] by fastforce
    moreover have "session_payload v = Some q" using q v by (simp add: pg_stored_def)
    ultimately show "\<exists>x. pg_session_get None st' t (se_token s) = Inr x \<and> se_token x = se_token s \<and> se_payload x = q
        \<and> se_expires x = se_expires s"
      using r by (simp add: row_session_def)
  }
  {
    fix t
    assume "micros (se_expires s) + 0 \<le> micros t"
    then have "List.find (\<lambda>r. sr_token r = se_token s \<and> micros t < micros (sr_expires r)) st' = None"
      using row(2) by (fastforce simp: find_None_iff)
    then show "pg_session_get None st' t (se_token s) = Inl NotFound" by (simp add: pg_session_get_def)
  }
  fix tok t
  assume "tok \<noteq> se_token s"
  with p show "pg_session_get None st' t tok = pg_session_get None st t tok" by (rule pg_put_other)
next
  fix st :: session_table and tok st'
  assume "pg_sessions_inv st" "pg_session_delete T None tok st = Some st'"
  then show "pg_sessions_inv st'" by (auto simp: pg_session_delete_def pg_sessions_inv_def distinct_map_filter)
next
  fix tok st t
  show "\<exists>st'. pg_session_delete T None tok st = Some st' \<and> pg_session_get None st' t tok = Inl NotFound"
  proof -
    have "List.find (\<lambda>r. sr_token r = tok \<and> micros t < micros (sr_expires r)) (filter (\<lambda>r. sr_token r \<noteq> tok) st) = None"
      by (simp add: find_None_iff)
    then show ?thesis by (simp add: pg_session_delete_def pg_session_get_def)
  qed
next
  fix tok :: pystr and st st' t tok'
  assume "pg_session_delete T None tok st = Some st'" "tok' \<noteq> tok"
  moreover from this(2) have "List.find (\<lambda>r. sr_token r = tok' \<and> micros t < micros (sr_expires r)) (filter (\<lambda>r. sr_token r \<noteq> tok) st)
      = List.find (\<lambda>r. sr_token r = tok' \<and> micros t < micros (sr_expires r)) st"
    by (induction st) auto
  ultimately show "pg_session_get None st' t tok' = pg_session_get None st t tok'"
    by (auto simp: pg_session_delete_def pg_session_get_def)
next
  fix st :: session_table and tenant u t xs and s :: session
  assume inv: "pg_sessions_inv st" and u: "pg_uuid T tenant = Some u" and xs: "pg_session_list T st t tenant = Inr xs"
  have "s \<in> set xs \<longleftrightarrow> (\<exists>r \<in> set st. sr_tenant r = u \<and> micros t < micros (sr_expires r) \<and> row_session r = Inr s)"
    using collect_ok_Inr [of row_session _ xs s] xs u by (fastforce simp: pg_session_list_def)
  also have "\<dots> \<longleftrightarrow> pg_session_get None st t (se_token s) = Inr s \<and> se_tenant s = u"
  proof
    assume "\<exists>r \<in> set st. sr_tenant r = u \<and> micros t < micros (sr_expires r) \<and> row_session r = Inr s"
    then obtain r where r: "r \<in> set st" "sr_tenant r = u" "micros t < micros (sr_expires r)" "row_session r = Inr s" by blast
    then show "pg_session_get None st t (se_token s) = Inr s \<and> se_tenant s = u"
      using pg_get_row [OF inv r(1,3)] row_session_fields [OF r(4)] by simp
  next
    assume g: "pg_session_get None st t (se_token s) = Inr s \<and> se_tenant s = u"
    then obtain r where "List.find (\<lambda>r. sr_token r = se_token s \<and> micros t < micros (sr_expires r)) st = Some r" "row_session r = Inr s"
      by (auto simp: pg_session_get_def split: option.splits)
    then show "\<exists>r \<in> set st. sr_tenant r = u \<and> micros t < micros (sr_expires r) \<and> row_session r = Inr s"
      using find_Some_in row_session_fields g by metis
  qed
  finally show "s \<in> set xs \<longleftrightarrow> pg_session_get None st t (se_token s) = Inr s \<and> se_tenant s = u" .
qed

text \<open>What \<open>json.dumps\<close> wrote with the default separators loads back from its bytes.\<close>

lemma json_loads_bytes_dumps_default:
  assumes "jwf v"
  shows "json_loads_bytes (map byte_of (dumps_default v)) = Inr v"
proof -
  have a: "ascii (dumps_default v)" using assms by (rule ascii_dumps_default)
  then have "list_all (\<lambda>b. 0 < unat b \<and> unat b < 128) (map byte_of (dumps_default v))"
    by (auto simp: list_all_iff)
  then have "detect_encoding (map byte_of (dumps_default v)) = (Utf8, 0)" by (rule detect_encoding_plain)
  moreover have "utf8_decode True (map byte_of (dumps_default v)) = Some (dumps_default v)"
    using dumps_default_sent(1) [OF assms] by (rule utf8_decode_encode)
  ultimately show ?thesis using assms by (simp add: json_loads_bytes_def decode_as_def)
qed

definition session_okay :: "session \<Rightarrow> bool" where
  "session_okay s = (list_all valid_cp (se_token s) \<and> list_all valid_cp (se_tenant s) \<and> jwf (se_payload s)
     \<and> valid_instant (se_expires s) \<and> valid_instant (se_created s))"

lemma session_json_jwf: "session_okay s \<Longrightarrow> jwf (session_json s)"
proof -
  assume s: "session_okay s"
  have "list_all valid_cp (py ''token'')" "list_all valid_cp (py ''tenant_id'')" "list_all valid_cp (py ''payload'')"
    "list_all valid_cp (py ''expires_at'')" "list_all valid_cp (py ''created_at'')"
    by (simp_all add: py_def valid_cp_def surrogate_def)
  then show ?thesis using s by (simp add: session_json_def session_okay_def)
qed

lemma read_session_json:
  assumes "session_okay s"
  shows "read_session other (map byte_of (dumps_default (session_json s))) = Some s"
proof -
  have "json_loads_bytes (map byte_of (dumps_default (session_json s))) = Inr (session_json s)"
    by (rule json_loads_bytes_dumps_default [OF session_json_jwf [OF assms]])
  then show ?thesis using assms by (simp add: read_session_def session_json_def session_okay_def)
qed

definition redis_sessions_inv :: "(pystr \<Rightarrow> instant option) \<Rightarrow> pystr \<Rightarrow> redis_sessions \<Rightarrow> bool" where
  "redis_sessions_inv other prefix st =
     (\<forall>k e b. dget st k = Some (e, b) \<longrightarrow> (\<exists>s. read_session other b = Some s \<and> k = session_key prefix (se_token s)))"

lemma session_key_inj [simp]: "session_key prefix t = session_key prefix t' \<longleftrightarrow> t = t'"
  by (simp add: session_key_def)

lemma redis_get_token:
  "redis_sessions_inv other prefix st \<Longrightarrow> redis_session_get other prefix ten st t tok = Inr s \<Longrightarrow> se_token s = tok"
  by (fastforce simp: redis_sessions_inv_def redis_session_get_def split: option.splits if_splits)

lemma session_ttl_bounds:
  assumes "d = micros (se_expires s) - micros now"
  shows "1000000 < d \<Longrightarrow> d - 1000000 < session_ttl now s * 1000000" "session_ttl now s * 1000000 \<le> max d 1000000"
proof -
  have "d < 1000000 \<Longrightarrow> trunc_seconds d < 1"
    by (auto simp: trunc_seconds_def div_pos_pos_trivial intro: order_le_less_trans [of _ 0])
  moreover have "trunc_seconds d = d div 1000000" if "0 \<le> d" using that by (simp add: trunc_seconds_def)
  moreover have "d div 1000000 * 1000000 + d mod 1000000 = d" "0 \<le> d mod 1000000" "d mod 1000000 < 1000000" by simp_all
  ultimately show "1000000 < d \<Longrightarrow> d - 1000000 < session_ttl now s * 1000000" "session_ttl now s * 1000000 \<le> max d 1000000"
    unfolding session_ttl_def Let_def assms [symmetric] by (linarith | auto)+
qed

lemma list_keys_Inr:
  "list_keys get tenant toks = Inr xs \<Longrightarrow> s \<in> set xs \<longleftrightarrow> (\<exists>tok \<in> set toks. get tok = Inr s) \<and> se_tenant s = tenant"
  by (induction toks arbitrary: xs) (auto simp: res_bind_Inr_iff split: sum.splits session_error.splits if_splits)

lemma redis_put_Some:
  "redis_session_put prefix now s st = Some st' \<Longrightarrow>
    st' = dset (session_key prefix (se_token s))
      (micros now + session_ttl now s * 1000000, map byte_of (dumps_default (session_json s))) st"
  by (simp add: redis_session_put_def split: if_splits)

interpretation rds: session_store "redis_sessions_inv other prefix" "redis_session_get other prefix None"
    "redis_session_put prefix" "\<lambda>tok st. Some (redis_session_delete prefix None tok st)"
    "redis_session_list other prefix" session_okay Some Some 1000000 for other prefix
proof unfold_locales
  fix st and s :: session and now st'
  assume inv: "redis_sessions_inv other prefix st" and s: "session_okay s" and p: "redis_session_put prefix now s st = Some st'"
  show "redis_sessions_inv other prefix st'"
    using inv read_session_json [OF s, of other] unfolding redis_put_Some [OF p]
    by (auto simp: redis_sessions_inv_def)
next
  fix st tok st'
  assume "redis_sessions_inv other prefix st" "Some (redis_session_delete prefix None tok st) = Some st'"
  then show "redis_sessions_inv other prefix st'" by (auto simp: redis_sessions_inv_def redis_session_delete_def split: if_splits)
next
  fix st :: redis_sessions and s :: session and now st' q and t :: instant
  assume s: "session_okay s" and p: "redis_session_put prefix now s st = Some st'" and q: "Some (se_payload s) = Some q"
    and t: "micros now \<le> micros t" "micros t + 1000000 < micros (se_expires s)"
  let ?d = "micros (se_expires s) - micros now"
  have "1000000 < ?d" using t by linarith
  from session_ttl_bounds(1) [OF refl this] have "micros t < micros now + session_ttl now s * 1000000" using t by linarith
  then have "redis_session_get other prefix None st' t (se_token s) = Inr s"
    using read_session_json [OF s] unfolding redis_put_Some [OF p] by (simp add: redis_session_get_def)
  with q show "\<exists>r. redis_session_get other prefix None st' t (se_token s) = Inr r \<and> se_token r = se_token s
      \<and> se_payload r = q \<and> se_expires r = se_expires s"
    by auto
next
  fix st :: redis_sessions and s :: session and now st' and t :: instant
  assume p: "redis_session_put prefix now s st = Some st'"
    and t: "micros now + 1000000 \<le> micros t" "micros (se_expires s) + 1000000 \<le> micros t"
  have "session_ttl now s * 1000000 \<le> max (micros (se_expires s) - micros now) 1000000" by (rule session_ttl_bounds(2) [OF refl])
  then have "micros now + session_ttl now s * 1000000 \<le> micros t" using t by linarith
  then show "redis_session_get other prefix None st' t (se_token s) = Inl NotFound"
    unfolding redis_put_Some [OF p] by (simp add: redis_session_get_def)
next
  fix st :: redis_sessions and s :: session and now st' tok and t :: instant
  assume "redis_session_put prefix now s st = Some st'" "tok \<noteq> se_token s"
  then show "redis_session_get other prefix None st' t tok = redis_session_get other prefix None st t tok"
    by (auto dest!: redis_put_Some simp: redis_session_get_def)
next
  fix tok st and t :: instant
  show "\<exists>st'. Some (redis_session_delete prefix None tok st) = Some st' \<and> redis_session_get other prefix None st' t tok = Inl NotFound"
    by (simp add: redis_session_delete_def redis_session_get_def)
next
  fix tok st st' tok' and t :: instant
  assume "Some (redis_session_delete prefix None tok st) = Some st'" "tok' \<noteq> tok"
  then show "redis_session_get other prefix None st' t tok' = redis_session_get other prefix None st t tok'"
    by (auto simp: redis_session_delete_def redis_session_get_def)
next
  fix st tenant u t xs and s :: session
  assume inv: "redis_sessions_inv other prefix st" and u: "Some tenant = Some u" and xs: "redis_session_list other prefix st t tenant = Inr xs"
  let ?toks = "map (drop (length prefix)) (filter (startswith prefix) (keys st))"
  have "tok \<in> set ?toks" if "redis_session_get other prefix None st t tok = Inr s'" for tok s'
  proof -
    have "session_key prefix tok \<in> set (keys st)"
    proof (rule ccontr)
      assume "\<not> ?thesis"
      then have "dget st (session_key prefix tok) = None" by (simp add: dget_None_iff)
      then show False using that by (simp add: redis_session_get_def)
    qed
    moreover have "startswith prefix (session_key prefix tok)" "drop (length prefix) (session_key prefix tok) = tok"
      by (simp_all add: session_key_def startswith_def)
    ultimately show ?thesis by force
  qed
  then have "(\<exists>tok \<in> set ?toks. redis_session_get other prefix None st t tok = Inr s) \<longleftrightarrow>
      redis_session_get other prefix None st t (se_token s) = Inr s"
    using redis_get_token [OF inv] by metis
  then show "s \<in> set xs \<longleftrightarrow> redis_session_get other prefix None st t (se_token s) = Inr s \<and> se_tenant s = u"
    using list_keys_Inr [OF xs [unfolded redis_session_list_def]] u by simp
qed

section \<open>Properties\<close>

text \<open>
  C17. After a logout the token opens nothing in either store, whatever is put or deleted under other
  tokens afterwards and at whatever time it is tried, until somebody puts it again.
\<close>

theorem logout_is_final:
  assumes "pg_sessions_inv tbl" "redis_sessions_inv other prefix st"
    and "\<forall>p \<in> set ops. op_okay session_okay p \<and> op_token p \<noteq> tok"
  shows "pg_session_get None (run_ops (pg_session_put T) (pg_session_delete T None) (DeleteOp tok # ops) tbl) t tok = Inl NotFound
    \<and> redis_session_get other prefix None
         (run_ops (redis_session_put prefix) (\<lambda>tok st. Some (redis_session_delete prefix None tok st)) (DeleteOp tok # ops) st) t tok
       = Inl NotFound"
proof
  have "op_okay (\<lambda>_. True) p" for p by (cases p) simp_all
  then show "pg_session_get None (run_ops (pg_session_put T) (pg_session_delete T None) (DeleteOp tok # ops) tbl) t tok = Inl NotFound"
    using assms(3) by (intro pgs.logged_out [OF assms(1)]) blast
  show "redis_session_get other prefix None
         (run_ops (redis_session_put prefix) (\<lambda>tok st. Some (redis_session_delete prefix None tok st)) (DeleteOp tok # ops) st) t tok
       = Inl NotFound"
    by (rule rds.logged_out [OF assms(2,3)])
qed

definition toy_session :: session where
  "toy_session = \<lparr>se_token = py ''tok'', se_tenant = uuid_text 9, se_payload = JObj [(py ''u'', JInt 1)],
     se_expires = \<lparr>in_year = 2026, in_month = 3, in_day = 1, in_second = 60, in_micro = 0\<rparr>,
     se_created = \<lparr>in_year = 2026, in_month = 3, in_day = 1, in_second = 0, in_micro = 5\<rparr>\<rparr>"

definition toy_time :: "nat \<Rightarrow> instant" where
  "toy_time sec = \<lparr>in_year = 2026, in_month = 3, in_day = 1, in_second = sec, in_micro = 0\<rparr>"

lemma toy_session_okay: "session_okay toy_session"
proof -
  have "list_all valid_cp (py ''tok'')" "list_all valid_cp (py ''u'')" "list_all valid_cp (uuid_text 9)"
    using set_uuid_text [of 9] by (auto simp: py_def valid_cp_def surrogate_def list_all_iff)
  then show ?thesis by (simp add: session_okay_def toy_session_def valid_instant_def days_in_month_def)
qed

lemma logout_is_final_witness:
  "redis_session_get (\<lambda>_. None) (py ''s:'') None
     (run_ops (redis_session_put (py ''s:'')) (\<lambda>tok st. Some (redis_session_delete (py ''s:'') None tok st))
       [DeleteOp (py ''old''), PutOp (toy_time 0) toy_session] []) (toy_time 30) (py ''old'') = Inl NotFound"
proof -
  have "\<forall>p \<in> set [PutOp (toy_time 0) toy_session]. op_okay session_okay p \<and> op_token p \<noteq> py ''old''"
    using toy_session_okay by (simp add: toy_session_def)
  moreover have "pg_sessions_inv []" "redis_sessions_inv (\<lambda>_. None) (py ''s:'') []"
    by (simp_all add: pg_sessions_inv_def redis_sessions_inv_def)
  ultimately show ?thesis using logout_is_final by blast
qed

text \<open>
  C31. The last session put under a token is the one found, with its payload and expiry, until it
  expires, and no longer: exactly so in Postgres (with the payload as jsonb returns it), up to a
  second either way in Redis, whatever happens to other tokens in between.
\<close>

theorem latest_session_wins:
  assumes "pg_sessions_inv tbl" "redis_sessions_inv other prefix st" "session_okay s"
    and "pg_session_put T now s tbl = Some tbl'" "pg_stored T (se_payload s) = Some p" "redis_session_put prefix now s st = Some st'"
    and "\<forall>q \<in> set ops. op_okay session_okay q \<and> op_token q \<noteq> se_token s" "micros now \<le> micros t"
  defines "gp \<equiv> pg_session_get None (run_ops (pg_session_put T) (pg_session_delete T None) (PutOp now s # ops) tbl) t (se_token s)"
    and "gr \<equiv> redis_session_get other prefix None (run_ops (redis_session_put prefix)
           (\<lambda>tok st. Some (redis_session_delete prefix None tok st)) (PutOp now s # ops) st) t (se_token s)"
  shows "(micros t < micros (se_expires s) \<longrightarrow> (\<exists>r. gp = Inr r \<and> se_token r = se_token s \<and> se_payload r = p \<and> se_expires r = se_expires s))
    \<and> (micros (se_expires s) \<le> micros t \<longrightarrow> gp = Inl NotFound)
    \<and> (micros t + 1000000 < micros (se_expires s) \<longrightarrow>
         (\<exists>r. gr = Inr r \<and> se_token r = se_token s \<and> se_payload r = se_payload s \<and> se_expires r = se_expires s))
    \<and> (max (micros now) (micros (se_expires s)) + 1000000 \<le> micros t \<longrightarrow> gr = Inl NotFound)"
proof -
  have "op_okay (\<lambda>_. True) q" for q by (cases q) simp_all
  then have ops: "\<forall>q \<in> set ops. op_okay (\<lambda>_. True) q \<and> op_token q \<noteq> se_token s" using assms(7) by blast
  have "micros t < micros (se_expires s) \<longrightarrow> (\<exists>r. gp = Inr r \<and> se_token r = se_token s \<and> se_payload r = p \<and> se_expires r = se_expires s)"
    using pgs.latest_put(1) [OF assms(1) TrueI assms(4,5) ops assms(8)] by (simp add: gp_def)
  moreover have "micros (se_expires s) \<le> micros t \<longrightarrow> gp = Inl NotFound"
    using pgs.latest_put(2) [OF assms(1) TrueI assms(4,5) ops, of t] assms(8) by (simp add: gp_def)
  moreover have "micros t + 1000000 < micros (se_expires s) \<longrightarrow>
         (\<exists>r. gr = Inr r \<and> se_token r = se_token s \<and> se_payload r = se_payload s \<and> se_expires r = se_expires s)"
    using rds.latest_put(1) [OF assms(2,3,6) refl assms(7,8)] by (simp add: gr_def)
  moreover have "max (micros now) (micros (se_expires s)) + 1000000 \<le> micros t \<longrightarrow> gr = Inl NotFound"
    using rds.latest_put(2) [OF assms(2,3,6) refl assms(7), of t] by (simp add: gr_def)
  ultimately show ?thesis by blast
qed

definition echo_types :: pg_types where
  "echo_types = \<lparr>pg_uuid = (\<lambda>u. if valid_uuid u then Some u else None), pg_jsonb = (\<lambda>t. Some (RawS t))\<rparr>"

lemma toy_uuid: "valid_uuid (uuid_text 9)"
  by (simp add: valid_uuid_def uuid_parse_text)

lemma toy_puts:
  "\<exists>tbl'. pg_session_put echo_types now toy_session tbl = Some tbl'"
  "pg_stored echo_types (se_payload toy_session) = Some (se_payload toy_session)"
  "\<exists>st'. redis_session_put (py ''s:'') now toy_session st = Some st'"
proof -
  show "\<exists>tbl'. pg_session_put echo_types now toy_session tbl = Some tbl'"
    using toy_uuid by (simp add: pg_session_put_def echo_types_def toy_session_def)
  have "jwf (se_payload toy_session)" using toy_session_okay by (simp add: session_okay_def)
  then show "pg_stored echo_types (se_payload toy_session) = Some (se_payload toy_session)"
    by (simp add: pg_stored_def echo_types_def session_payload_def)
  show "\<exists>st'. redis_session_put (py ''s:'') now toy_session st = Some st'"
    by (simp add: redis_session_put_def session_key_def toy_session_def py_def utf8_enc1_def)
qed

lemma toy_micros: "micros (toy_time a) + 1000000 < micros (toy_time b) \<longleftrightarrow> a + 1 < b"
    "micros (toy_time a) \<le> micros (toy_time b) \<longleftrightarrow> a \<le> b" "se_expires toy_session = toy_time 60"
  by (auto simp: micros_def toy_time_def toy_session_def)

lemma latest_session_wins_witness:
  "\<exists>r. redis_session_get (\<lambda>_. None) (py ''s:'') None (run_ops (redis_session_put (py ''s:''))
       (\<lambda>tok st. Some (redis_session_delete (py ''s:'') None tok st)) [PutOp (toy_time 0) toy_session, DeleteOp (py ''x'')] [])
     (toy_time 30) (py ''tok'') = Inr r \<and> se_payload r = JObj [(py ''u'', JInt 1)]"
proof -
  obtain tbl' st' where p: "pg_session_put echo_types (toy_time 0) toy_session [] = Some tbl'"
    "redis_session_put (py ''s:'') (toy_time 0) toy_session [] = Some st'"
    using toy_puts by blast
  have inv: "pg_sessions_inv []" "redis_sessions_inv (\<lambda>_. None) (py ''s:'') []"
    by (simp_all add: pg_sessions_inv_def redis_sessions_inv_def)
  have ops: "\<forall>q \<in> set [DeleteOp (py ''x'')]. op_okay session_okay q \<and> op_token q \<noteq> se_token toy_session"
    by (simp add: toy_session_def)
  have t: "micros (toy_time 0) \<le> micros (toy_time 30)" by (simp add: toy_micros)
  have "micros (toy_time 30) + 1000000 < micros (se_expires toy_session)" by (simp only: toy_micros)
  then show ?thesis
    using latest_session_wins [OF inv toy_session_okay p(1) toy_puts(2) p(2) ops t]
    by (auto simp: toy_session_def)
qed

text \<open>
  A tenant's list holds exactly the sessions of that tenant that a get by their token finds, in both
  stores: none of another tenant, none that has expired.
\<close>

theorem session_list_exact:
  assumes "pg_sessions_inv tbl" "redis_sessions_inv other prefix st" "pg_uuid T tenant = Some u"
    and "pg_session_list T tbl t tenant = Inr xs" "redis_session_list other prefix st t tenant = Inr ys"
  shows "(s \<in> set xs \<longleftrightarrow> pg_session_get None tbl t (se_token s) = Inr s \<and> se_tenant s = u)
    \<and> (s \<in> set ys \<longleftrightarrow> redis_session_get other prefix None st t (se_token s) = Inr s \<and> se_tenant s = tenant)"
  using pgs.list_exact [OF assms(1,3,4)] rds.list_exact [OF assms(2) refl assms(5)] by blast

lemma session_list_exact_witness:
  "\<exists>xs. pg_session_list echo_types [\<lparr>sr_token = py ''a'', sr_tenant = uuid_text 9, sr_payload = RawJ JNull,
       sr_created = toy_time 0, sr_expires = toy_time 60\<rparr>] (toy_time 30) (uuid_text 9) = Inr xs
     \<and> \<lparr>se_token = py ''a'', se_tenant = uuid_text 9, se_payload = JObj [], se_expires = toy_time 60, se_created = toy_time 0\<rparr> \<in> set xs"
proof -
  let ?tbl = "[\<lparr>sr_token = py ''a'', sr_tenant = uuid_text 9, sr_payload = RawJ JNull, sr_created = toy_time 0, sr_expires = toy_time 60\<rparr>]"
  let ?s = "\<lparr>se_token = py ''a'', se_tenant = uuid_text 9, se_payload = JObj [], se_expires = toy_time 60, se_created = toy_time 0\<rparr>"
  have u: "pg_uuid echo_types (uuid_text 9) = Some (uuid_text 9)" using toy_uuid by (simp add: echo_types_def)
  have lt: "micros (toy_time 30) < micros (toy_time 60)" using toy_micros(1) [of 30 60] by linarith
  have row: "row_session (hd ?tbl) = Inr ?s" by (simp add: row_session_def session_payload_def json_truthy_def)
  then have "pg_session_list echo_types ?tbl (toy_time 30) (uuid_text 9) = Inr [?s]"
    using u lt by (simp add: pg_session_list_def)
  moreover have "pg_session_get None ?tbl (toy_time 30) (se_token ?s) = Inr ?s"
    using row lt by (simp add: pg_session_get_def)
  moreover have "redis_session_list (\<lambda>_. None) [] [] (toy_time 30) (uuid_text 9) = Inr []" by (simp add: redis_session_list_def)
  moreover have "pg_sessions_inv ?tbl" "redis_sessions_inv (\<lambda>_. None) [] []"
    by (simp_all add: pg_sessions_inv_def redis_sessions_inv_def)
  ultimately show ?thesis using session_list_exact [OF _ _ u, of ?tbl "\<lambda>_. None" "[]" "[]"] by fastforce
qed

text \<open>
  A tenant given to the Postgres store is enforced: a get finds only that tenant's session, a delete
  removes only that tenant's row. The Redis store ignores it: it returns and deletes the session of
  whichever tenant the token belongs to.
\<close>

theorem session_tenant_scope:
  shows "(pg_session_get (Some tn) tbl t tok = Inr s \<longrightarrow> se_tenant s = tn \<and> pg_session_get None tbl t tok = Inr s)
    \<and> (pg_session_delete T (Some tn) tok tbl = Some tbl' \<longrightarrow>
        (\<exists>u. pg_uuid T tn = Some u \<and> (\<forall>r \<in> set tbl. r \<in> set tbl' \<longleftrightarrow> \<not> (sr_token r = tok \<and> sr_tenant r = u))))
    \<and> redis_session_get other prefix (Some tn) st t tok = redis_session_get other prefix None st t tok
    \<and> redis_session_delete prefix (Some tn) tok st = redis_session_delete prefix None tok st"
  by (auto simp: pg_session_get_def pg_session_delete_def redis_session_get_def redis_session_delete_def
      dest: row_session_fields split: option.splits if_splits)

lemma session_tenant_scope_witness:
  "\<forall>s. pg_session_get (Some (uuid_text 8)) [\<lparr>sr_token = py ''a'', sr_tenant = uuid_text 9, sr_payload = RawJ JNull,
       sr_created = toy_time 0, sr_expires = toy_time 60\<rparr>] (toy_time 30) (py ''a'') \<noteq> Inr s \<or> se_tenant s = uuid_text 8"
  using session_tenant_scope by blast

end
