(* ===== verification/Registry.thy ===== *)
theory Registry
  imports Json Complex_Main
begin

text \<open>
  \<open>omkit/provider/registry.py\<close>: the registry that keeps one asyncio task per enabled provider row.  A
  task is what the registry remembers of it, its configuration and whether it still runs, and beside
  the registry's own dictionary the state records every task that is running, so that tasks which run
  without being tracked can be told.  Provider classes are the functions of \<open>provider_kit\<close>.
\<close>

section \<open>State\<close>

datatype task_status = TaskRunning | TaskFinished

record ptask =
  pt_config :: json
  pt_status :: task_status

text \<open>The classes by name; a constructor may raise on a configuration.\<close>

record provider_kit =
  pk_known :: "pystr \<Rightarrow> bool"
  pk_constructs :: "pystr \<Rightarrow> json \<Rightarrow> bool"

record prov_row =
  pv_tenant :: pystr
  pv_name :: pystr
  pv_config :: json

record registry =
  rg_tasks :: "(pystr, ptask) dict"
  rg_running :: "(pystr \<times> json) list"
  rg_stopped :: bool

definition registry_init :: registry where
  "registry_init = \<lparr>rg_tasks = [], rg_running = [], rg_stopped = False\<rparr>"

definition registry_backend :: "pystr option \<Rightarrow> pystr option \<Rightarrow> pystr" where
  "registry_backend backend var =
     (case or_none backend of
        Some b \<Rightarrow> b
      | None \<Rightarrow>
          (let v = (case var of None \<Rightarrow> py ''postgres'' | Some v \<Rightarrow> v)
           in if v \<notin> {py ''postgres'', py ''redis''} then py ''postgres'' else v))"

definition task_key :: "pystr \<Rightarrow> pystr \<Rightarrow> pystr" where
  "task_key tenant name = tenant @ py '':'' @ name"

abbreviation row_key :: "prov_row \<Rightarrow> pystr" where
  "row_key r \<equiv> task_key (pv_tenant r) (pv_name r)"

section \<open>Tasks\<close>

text \<open>The flag tells that the assertion or the constructor raised.\<close>

definition start_task :: "provider_kit \<Rightarrow> prov_row \<Rightarrow> registry \<Rightarrow> registry \<times> bool" where
  "start_task K row s =
     (if \<not> pk_known K (pv_name row) then (s, False)
      else let key = row_key row in
        if key \<in> set (keys (rg_tasks s)) then (s, True)
        else if \<not> pk_constructs K (pv_name row) (pv_config row) then (s, True)
        else (s\<lparr>rg_tasks := dset key \<lparr>pt_config = pv_config row, pt_status = TaskRunning\<rparr> (rg_tasks s),
                rg_running := rg_running s @ [(key, pv_config row)]\<rparr>, False))"

fun start_tasks :: "provider_kit \<Rightarrow> prov_row list \<Rightarrow> registry \<Rightarrow> registry \<times> bool" where
  "start_tasks K [] s = (s, False)"
| "start_tasks K (r # rs) s = (case start_task K r s of (s', True) \<Rightarrow> (s', True) | (s', False) \<Rightarrow> start_tasks K rs s')"

text \<open>A task of the registry ends: by an exception it leaves the dictionary, by returning it stays.\<close>

definition task_ends :: "bool \<Rightarrow> pystr \<Rightarrow> registry \<Rightarrow> registry" where
  "task_ends crashed key s =
     (case dget (rg_tasks s) key of
        Some t \<Rightarrow>
          if pt_status t = TaskRunning then
            s\<lparr>rg_tasks := (if crashed then dpop key (rg_tasks s) else dset key (t\<lparr>pt_status := TaskFinished\<rparr>) (rg_tasks s)),
              rg_running := remove1 (key, pt_config t) (rg_running s)\<rparr>
          else s
      | None \<Rightarrow> s)"

definition cancel_one :: "pystr \<Rightarrow> registry \<Rightarrow> registry" where
  "cancel_one key s =
     (case dget (rg_tasks s) key of
        None \<Rightarrow> s
      | Some t \<Rightarrow>
          s\<lparr>rg_tasks := dpop key (rg_tasks s),
            rg_running := (if pt_status t = TaskRunning then remove1 (key, pt_config t) (rg_running s) else rg_running s)\<rparr>)"

definition cancel_tasks :: "pystr list \<Rightarrow> registry \<Rightarrow> registry" where
  "cancel_tasks ks s = foldl (\<lambda>s k. cancel_one k s) s ks"

section \<open>Operations\<close>

text \<open>
  \<open>fetched\<close> is what the query returned, None when it raised; a missing table returns no rows.  The
  set of new keys is visited in some order: \<open>order\<close> is a permutation of it.
\<close>

definition registry_start :: "provider_kit \<Rightarrow> prov_row list option \<Rightarrow> registry \<Rightarrow> registry \<times> bool" where
  "registry_start K fetched s = start_tasks K (case fetched of None \<Rightarrow> [] | Some rows \<Rightarrow> rows) s"

definition desired_rows :: "prov_row list \<Rightarrow> (pystr, prov_row) dict" where
  "desired_rows rows = dict_of (map (\<lambda>r. (row_key r, r)) rows)"

definition reconcile_all :: "provider_kit \<Rightarrow> prov_row list option \<Rightarrow> pystr list \<Rightarrow> registry \<Rightarrow> registry \<times> bool" where
  "reconcile_all K fetched order s =
     (case fetched of
        None \<Rightarrow> (s, True)
      | Some rows \<Rightarrow>
          let desired = desired_rows rows;
              s' = cancel_tasks (filter (\<lambda>k. k \<notin> set (keys desired)) (keys (rg_tasks s))) s
          in start_tasks K (map (\<lambda>k. the (dget desired k)) order) s')"

definition new_keys :: "prov_row list \<Rightarrow> registry \<Rightarrow> pystr set" where
  "new_keys rows s = set (keys (desired_rows rows)) - set (keys (rg_tasks s))"

definition reload_tenant :: "provider_kit \<Rightarrow> pystr \<Rightarrow> prov_row list option \<Rightarrow> registry \<Rightarrow> registry \<times> bool" where
  "reload_tenant K tenant_id fetched s =
     (if length tenant_id < 36 then (s, False)
      else let s' = cancel_tasks (filter (startswith (tenant_id @ py '':'')) (keys (rg_tasks s))) s
        in case fetched of None \<Rightarrow> (s', True) | Some rows \<Rightarrow> start_tasks K rows s')"

definition registry_stop :: "registry \<Rightarrow> registry" where
  "registry_stop s = (cancel_tasks (keys (rg_tasks s)) s)\<lparr>rg_stopped := True\<rparr>"

text \<open>\<open>channel.split(":")[-1]\<close>, and the wait before the next attempt to connect.\<close>

definition channel_tenant :: "pystr \<Rightarrow> pystr" where
  "channel_tenant channel = rev (takeWhile (\<lambda>c. c \<noteq> 58) (rev channel))"

definition next_backoff :: "rat \<Rightarrow> rat" where
  "next_backoff b = min (b * 2) 60"

text \<open>Reconciles, reloads, tasks that end by themselves and a stop, in any order; exceptions are caught by the loops.\<close>

inductive registry_step :: "provider_kit \<Rightarrow> registry \<Rightarrow> registry \<Rightarrow> bool" for K where
  reg_start: "registry_step K s (fst (registry_start K f s))"
| reg_reconcile: "\<not> rg_stopped s \<Longrightarrow> f = Some rows \<Longrightarrow> distinct order \<Longrightarrow> set order = new_keys rows s \<Longrightarrow>
    registry_step K s (fst (reconcile_all K f order s))"
| reg_reload: "\<not> rg_stopped s \<Longrightarrow> registry_step K s (fst (reload_tenant K tn f s))"
| reg_ends: "registry_step K s (task_ends crashed key s)"
| reg_stop: "registry_step K s (registry_stop s)"

section \<open>Tracking\<close>

declare map_of_eq_Some_iff [simp del]

text \<open>Every running task is a tracked one, with its configuration, and no key runs twice.\<close>

definition tracked :: "registry \<Rightarrow> bool" where
  "tracked s = (distinct (keys (rg_tasks s)) \<and> distinct (keys (rg_running s))
     \<and> (\<forall>k c. (k, c) \<in> set (rg_running s) \<longleftrightarrow> (\<exists>t. dget (rg_tasks s) k = Some t \<and> pt_status t = TaskRunning \<and> pt_config t = c)))"

lemma tracked_init: "tracked registry_init"
  by (simp add: tracked_def registry_init_def)

lemma distinct_keys_remove1: "distinct (keys xs) \<Longrightarrow> distinct (keys (remove1 x xs))"
  by (induction xs) (force dest: subsetD [OF set_remove1_subset])+

lemma in_remove1: "distinct (keys xs) \<Longrightarrow> p \<in> set (remove1 (k, c) xs) \<longleftrightarrow> p \<in> set xs \<and> p \<noteq> (k, c)"
  by (simp add: distinct_map set_remove1_eq)

lemma tracked_key: "tracked s \<Longrightarrow> k \<in> set (keys (rg_running s)) \<Longrightarrow> k \<in> set (keys (rg_tasks s))"
  unfolding tracked_def by (metis (no_types, lifting) dget_None_iff fst_conv imageE list.set_map option.distinct(1) surj_pair)

lemma tracked_add:
  assumes "tracked s" "k \<notin> set (keys (rg_tasks s))"
  shows "tracked (s\<lparr>rg_tasks := dset k \<lparr>pt_config = c, pt_status = TaskRunning\<rparr> (rg_tasks s), rg_running := rg_running s @ [(k, c)]\<rparr>)"
proof -
  have new: "k \<notin> set (keys (rg_running s))" using tracked_key [OF assms(1)] assms(2) by blast
  have none: "dget (rg_tasks s) k = None" using assms(2) by (simp add: dget_None_iff)
  have "distinct (keys (dset k \<lparr>pt_config = c, pt_status = TaskRunning\<rparr> (rg_tasks s)))"
    using assms(1) by (simp add: tracked_def distinct_update)
  then show ?thesis using assms(1) new none unfolding tracked_def by (auto split: if_splits)
qed

lemma tracked_drop:
  assumes "tracked s" "dget (rg_tasks s) k = Some t"
  shows "tracked (s\<lparr>rg_tasks := dpop k (rg_tasks s),
    rg_running := (if pt_status t = TaskRunning then remove1 (k, pt_config t) (rg_running s) else rg_running s)\<rparr>)"
proof -
  have d: "distinct (keys (rg_running s))" "distinct (keys (rg_tasks s))" using assms(1) by (simp_all add: tracked_def)
  have iff: "(j, c) \<in> set (rg_running s) \<longleftrightarrow> (\<exists>t. dget (rg_tasks s) j = Some t \<and> pt_status t = TaskRunning \<and> pt_config t = c)" for j c
    using assms(1) by (simp add: tracked_def)
  show ?thesis
  proof (cases "pt_status t = TaskRunning")
    case True
    have "(j, c) \<in> set (remove1 (k, pt_config t) (rg_running s)) \<longleftrightarrow>
        (\<exists>t. dget (dpop k (rg_tasks s)) j = Some t \<and> pt_status t = TaskRunning \<and> pt_config t = c)" for j c
      using in_remove1 [OF d(1)] iff [of j c] assms(2) True by auto
    then show ?thesis using d True by (simp add: tracked_def distinct_keys_remove1 distinct_removeAll)
  next
    case False
    have "(j, c) \<in> set (rg_running s) \<longleftrightarrow>
        (\<exists>t. dget (dpop k (rg_tasks s)) j = Some t \<and> pt_status t = TaskRunning \<and> pt_config t = c)" for j c
      using iff [of j c] assms(2) False by auto
    then show ?thesis using d False by (simp add: tracked_def distinct_removeAll)
  qed
qed

lemma tracked_cancel_one: "tracked s \<Longrightarrow> tracked (cancel_one k s)"
  using tracked_drop [of s k] by (auto simp: cancel_one_def split: option.split)

lemma tracked_cancel: "tracked s \<Longrightarrow> tracked (cancel_tasks ks s)"
  unfolding cancel_tasks_def by (induction ks arbitrary: s) (simp_all add: tracked_cancel_one)

lemma tracked_start: "tracked s \<Longrightarrow> tracked (fst (start_task K r s))"
  using tracked_add [of s "row_key r" "pv_config r"] by (simp add: start_task_def Let_def)

lemma tracked_starts: "tracked s \<Longrightarrow> tracked (fst (start_tasks K rs s))"
proof (induction rs arbitrary: s)
  case (Cons r rs)
  have "tracked (fst (start_task K r s))" using Cons.prems by (rule tracked_start)
  then show ?case using Cons.IH by (auto split: prod.split bool.split)
qed simp

lemma tracked_ends: "tracked s \<Longrightarrow> tracked (task_ends crashed key s)"
proof -
  assume s: "tracked s"
  show ?thesis
  proof (cases "dget (rg_tasks s) key")
    case (Some t)
    show ?thesis
    proof (cases "pt_status t = TaskRunning \<and> \<not> crashed")
      case True
      have d: "distinct (keys (rg_running s))" "distinct (keys (rg_tasks s))" using s by (simp_all add: tracked_def)
      have iff: "(j, c) \<in> set (rg_running s) \<longleftrightarrow> (\<exists>t. dget (rg_tasks s) j = Some t \<and> pt_status t = TaskRunning \<and> pt_config t = c)" for j c
        using s by (simp add: tracked_def)
      have "(j, c) \<in> set (remove1 (key, pt_config t) (rg_running s)) \<longleftrightarrow>
          (\<exists>t'. dget (dset key (t\<lparr>pt_status := TaskFinished\<rparr>) (rg_tasks s)) j = Some t' \<and> pt_status t' = TaskRunning \<and> pt_config t' = c)" for j c
        using in_remove1 [OF d(1)] iff [of j c] Some True by auto
      moreover have "distinct (keys (dset key (t\<lparr>pt_status := TaskFinished\<rparr>) (rg_tasks s)))" using d(2) by (rule distinct_update)
      ultimately show ?thesis using d True Some by (simp add: tracked_def task_ends_def distinct_keys_remove1)
    next
      case False
      then show ?thesis using tracked_drop [OF s Some] s Some by (auto simp: task_ends_def)
    qed
  qed (use s in \<open>simp add: task_ends_def\<close>)
qed

lemma tracked_stopped [simp]: "tracked (s\<lparr>rg_stopped := b\<rparr>) = tracked s"
  by (simp add: tracked_def)

lemma tracked_step: "registry_step K s s' \<Longrightarrow> tracked s \<Longrightarrow> tracked s'"
proof (induction rule: registry_step.induct)
  case (reg_reload s tn f)
  then show ?case by (auto simp: reload_tenant_def Let_def tracked_cancel tracked_starts split: option.split)
qed (auto simp: registry_start_def reconcile_all_def registry_stop_def Let_def tracked_cancel tracked_starts tracked_ends)

section \<open>What the operations leave\<close>

lemma dget_cancel_one: "dget (rg_tasks (cancel_one k s)) j = (if j = k then None else dget (rg_tasks s) j)"
  by (auto simp: cancel_one_def split: option.split)

lemma dget_cancel: "dget (rg_tasks (cancel_tasks ks s)) j = (if j \<in> set ks then None else dget (rg_tasks s) j)"
  unfolding cancel_tasks_def by (induction ks arbitrary: s) (auto simp: dget_cancel_one)

lemma image_fst_dset [simp]: "fst ` set (dset k v d) = insert k (fst ` set d)"
  using set_keys_dset [of k v d] by simp

abbreviation known_rows :: "provider_kit \<Rightarrow> prov_row list \<Rightarrow> (pystr, prov_row) dict" where
  "known_rows K rs \<equiv> map (\<lambda>r. (row_key r, r)) (filter (\<lambda>r. pk_known K (pv_name r)) rs)"

lemma start_task_cases:
  obtains "\<not> pk_known K (pv_name r)" "start_task K r s = (s, False)"
  | "pk_known K (pv_name r)" "row_key r \<in> set (keys (rg_tasks s)) \<or> \<not> pk_constructs K (pv_name r) (pv_config r)"
    "start_task K r s = (s, True)"
  | "pk_known K (pv_name r)" "row_key r \<notin> set (keys (rg_tasks s))" "pk_constructs K (pv_name r) (pv_config r)"
    "start_task K r s = (s\<lparr>rg_tasks := dset (row_key r) \<lparr>pt_config = pv_config r, pt_status = TaskRunning\<rparr> (rg_tasks s),
        rg_running := rg_running s @ [(row_key r, pv_config r)]\<rparr>, False)"
  by (cases "pk_known K (pv_name r)"; cases "row_key r \<in> set (keys (rg_tasks s))"; cases "pk_constructs K (pv_name r) (pv_config r)")
    (auto simp: start_task_def Let_def)

lemma start_tasks_raises_iff:
  "snd (start_tasks K rs s) \<longleftrightarrow> \<not> (distinct (keys (known_rows K rs))
     \<and> set (keys (known_rows K rs)) \<inter> set (keys (rg_tasks s)) = {}
     \<and> (\<forall>r \<in> set rs. pk_known K (pv_name r) \<longrightarrow> pk_constructs K (pv_name r) (pv_config r)))"
proof (induction rs arbitrary: s)
  case (Cons r rs)
  show ?case
  proof (cases rule: start_task_cases [where K = K and r = r and s = s])
    case 1
    then show ?thesis using Cons.IH [of s] by simp
  next
    case 2
    then show ?thesis by auto
  next
    case 3
    then show ?thesis using Cons.IH [of "fst (start_task K r s)"] by (auto simp del: map_map)
  qed
qed simp

lemma start_tasks_ok:
  assumes "start_tasks K rs s = (s', False)"
  shows "dget (rg_tasks s') j = (case dget (known_rows K rs) j of
      Some r \<Rightarrow> Some \<lparr>pt_config = pv_config r, pt_status = TaskRunning\<rparr>
    | None \<Rightarrow> dget (rg_tasks s) j)"
  using assms
proof (induction rs arbitrary: s)
  case (Cons r rs)
  show ?case
  proof (cases rule: start_task_cases [where K = K and r = r and s = s])
    case 1
    then show ?thesis using Cons.IH [of s] Cons.prems by simp
  next
    case 2
    then show ?thesis using Cons.prems by simp
  next
    case 3
    let ?s = "fst (start_task K r s)"
    have rest: "start_tasks K rs ?s = (s', False)" using 3 Cons.prems by simp
    have "\<not> snd (start_tasks K rs ?s)" unfolding rest by simp
    then have "row_key r \<notin> set (keys (known_rows K rs))" unfolding start_tasks_raises_iff using 3 by auto
    then have "dget (known_rows K rs) (row_key r) = None" by (simp only: dget_None_iff not_False_eq_True)
    then show ?thesis using Cons.IH [OF rest] 3 by (simp split: option.split)
  qed
qed simp

lemma dget_dict_of_SomeD: "dget (dict_of kvs) k = Some v \<Longrightarrow> (k, v) \<in> set kvs"
  by (auto simp: dget_dict_of dest: map_of_SomeD)

lemma desired_row: "dget (desired_rows rows) k = Some r \<Longrightarrow> r \<in> set rows \<and> row_key r = k"
  by (auto simp: desired_rows_def dest: dget_dict_of_SomeD)

lemma keys_known_rows: "set (keys (known_rows K rs)) = row_key ` {r \<in> set rs. pk_known K (pv_name r)}"
  by auto

lemma distinct_map_filter_comp: "distinct (map f xs) \<Longrightarrow> distinct (map f (filter P xs))"
  by (induction xs) auto

lemma distinct_keys_known: "distinct (map row_key rs) \<Longrightarrow> distinct (keys (known_rows K rs))"
  using distinct_map_filter_comp [of row_key rs "\<lambda>r. pk_known K (pv_name r)"] by (simp add: comp_def)

lemma dget_known_rows:
  assumes "distinct (map row_key rs)" "r \<in> set rs" "pk_known K (pv_name r)"
  shows "dget (known_rows K rs) (row_key r) = Some r"
  using distinct_keys_known [OF assms(1), of K] assms(2,3) by (intro map_of_is_SomeI) auto

text \<open>The rows a reconcile starts: those of the new keys, each found again under its key.\<close>

abbreviation order_rows :: "prov_row list \<Rightarrow> pystr list \<Rightarrow> prov_row list" where
  "order_rows rows order \<equiv> map (\<lambda>k. the (dget (desired_rows rows) k)) order"

lemma order_row:
  assumes "set order = new_keys rows s" "k \<in> set order"
  shows "\<exists>r. dget (desired_rows rows) k = Some r \<and> r \<in> set rows \<and> row_key r = k"
proof -
  have "k \<in> set (keys (desired_rows rows))" using assms by (auto simp: new_keys_def)
  then obtain r where "dget (desired_rows rows) k = Some r" by (metis dget_None_iff not_None_eq)
  then show ?thesis using desired_row by blast
qed

lemma order_rows_keys: "set order = new_keys rows s \<Longrightarrow> map row_key (order_rows rows order) = order"
proof -
  assume o: "set order = new_keys rows s"
  have "row_key (the (dget (desired_rows rows) k)) = k" if "k \<in> set order" for k
    using order_row [OF o that] by auto
  then show ?thesis by (simp add: map_idI)
qed

lemma dget_order_rows:
  assumes "distinct order" "set order = new_keys rows s"
  shows "dget (known_rows K (order_rows rows order)) k =
    (if k \<in> set order \<and> pk_known K (pv_name (the (dget (desired_rows rows) k))) then dget (desired_rows rows) k else None)"
proof (cases "k \<in> set order \<and> pk_known K (pv_name (the (dget (desired_rows rows) k)))")
  case True
  then obtain r where r: "dget (desired_rows rows) k = Some r" "row_key r = k" using order_row [OF assms(2)] by blast
  have "distinct (map row_key (order_rows rows order))" using assms(1) order_rows_keys [OF assms(2)] by simp
  moreover have "r \<in> set (order_rows rows order)" using True r(1) by force
  ultimately have "dget (known_rows K (order_rows rows order)) (row_key r) = Some r"
    using True r(1) by (intro dget_known_rows) simp_all
  then show ?thesis using True r by simp
next
  case False
  have "k \<notin> set (keys (known_rows K (order_rows rows order)))" unfolding keys_known_rows
  proof
    assume "k \<in> row_key ` {r \<in> set (order_rows rows order). pk_known K (pv_name r)}"
    then obtain j where j: "j \<in> set order" "k = row_key (the (dget (desired_rows rows) j))"
        "pk_known K (pv_name (the (dget (desired_rows rows) j)))" by auto
    then have "j = k" using order_row [OF assms(2) j(1)] by auto
    then show False using j False by blast
  qed
  then show ?thesis using False by (simp only: dget_None_iff not_False_eq_True if_False)
qed

lemma order_rows_start:
  assumes "distinct order" "set order = new_keys rows s"
    and "\<forall>r \<in> set rows. pk_known K (pv_name r) \<longrightarrow> pk_constructs K (pv_name r) (pv_config r)"
  shows "\<exists>s'. start_tasks K (order_rows rows order) (cancel_tasks ks s) = (s', False)"
proof -
  have dist: "distinct (map row_key (order_rows rows order))" using assms(1) order_rows_keys [OF assms(2)] by simp
  have "row_key r \<notin> set (keys (rg_tasks (cancel_tasks ks s)))" if "r \<in> set (order_rows rows order)" for r
  proof -
    have "row_key r \<in> set order" using that order_row [OF assms(2)] by force
    then have "dget (rg_tasks s) (row_key r) = None" using assms(2) by (auto simp: new_keys_def dget_None_iff)
    then have "dget (rg_tasks (cancel_tasks ks s)) (row_key r) = None" by (simp add: dget_cancel)
    then show ?thesis by (simp only: dget_None_iff not_False_eq_True)
  qed
  then have "set (keys (known_rows K (order_rows rows order))) \<inter> set (keys (rg_tasks (cancel_tasks ks s))) = {}"
    unfolding keys_known_rows by blast
  moreover have "\<forall>r \<in> set (order_rows rows order). pk_known K (pv_name r) \<longrightarrow> pk_constructs K (pv_name r) (pv_config r)"
    using order_row [OF assms(2)] assms(3) by force
  ultimately have "\<not> snd (start_tasks K (order_rows rows order) (cancel_tasks ks s))"
    unfolding start_tasks_raises_iff using distinct_keys_known [OF dist] by blast
  then show ?thesis by (metis (full_types) prod.collapse)
qed

section \<open>Properties\<close>

text \<open>
  C18. Whatever reconciles, reloads, crashes, returns and stops follow each other, and however many of them
  raise half way, every running task is tracked under its key with the configuration it was started
  with, no provider runs twice, and a stop leaves no task running.
\<close>

theorem one_task_per_provider:
  assumes "(registry_step K)\<^sup>*\<^sup>* registry_init s"
  shows "distinct (keys (rg_running s))
    \<and> (\<forall>k c. (k, c) \<in> set (rg_running s) \<longleftrightarrow> (\<exists>t. dget (rg_tasks s) k = Some t \<and> pt_status t = TaskRunning \<and> pt_config t = c))
    \<and> rg_running (registry_stop s) = [] \<and> rg_tasks (registry_stop s) = []"
proof -
  have t: "tracked s"
    using assms by (induction rule: rtranclp_induct) (auto intro: tracked_init tracked_step)
  have "dget (rg_tasks (cancel_tasks (keys (rg_tasks s)) s)) k = None" for k by (simp add: dget_cancel dget_None_iff)
  then have "set (keys (rg_tasks (cancel_tasks (keys (rg_tasks s)) s))) = {}" by (metis dget_None_iff equals0I)
  then have none: "rg_tasks (cancel_tasks (keys (rg_tasks s)) s) = []" by simp
  moreover have "rg_running (cancel_tasks (keys (rg_tasks s)) s) = []"
    using tracked_cancel [OF t, of "keys (rg_tasks s)"] none unfolding tracked_def
    by (cases "rg_running (cancel_tasks (keys (rg_tasks s)) s)") fastforce+
  ultimately show ?thesis using t unfolding tracked_def registry_stop_def by simp
qed

definition toy_kit :: provider_kit where
  "toy_kit = \<lparr>pk_known = (\<lambda>n. n = py ''imap''), pk_constructs = (\<lambda>n c. c \<noteq> JNull)\<rparr>"

definition toy_prov :: "nat \<Rightarrow> prov_row" where
  "toy_prov n = \<lparr>pv_tenant = uuid_text n, pv_name = py ''imap'', pv_config = JInt (int n)\<rparr>"

lemma one_task_per_provider_witness:
  "\<exists>s. (registry_step toy_kit)\<^sup>*\<^sup>* registry_init s \<and> length (rg_running s) = 1 \<and> rg_running (registry_stop s) = []"
proof -
  let ?s = "fst (registry_start toy_kit (Some [toy_prov 1]) registry_init)"
  have "(registry_step toy_kit)\<^sup>*\<^sup>* registry_init ?s" by (intro r_into_rtranclp reg_start)
  moreover have "length (rg_running ?s) = 1"
    by (simp add: registry_start_def registry_init_def start_task_def toy_kit_def toy_prov_def Let_def)
  ultimately show ?thesis using one_task_per_provider by blast
qed

text \<open>
  A reconcile whose query succeeds and whose classes construct leaves exactly the tasks of enabled
  providers: a key that is not desired is gone, a new one of a known class runs with its row's
  configuration, and one that was there is left alone, so neither a changed configuration nor a task
  that has returned is ever taken up.
\<close>

theorem reconcile_leaves_desired:
  assumes "distinct order" "set order = new_keys rows s"
    and "\<forall>r \<in> set rows. pk_known K (pv_name r) \<longrightarrow> pk_constructs K (pv_name r) (pv_config r)"
  shows "\<exists>s'. reconcile_all K (Some rows) order s = (s', False)
    \<and> (\<forall>k. dget (rg_tasks s') k =
        (case dget (desired_rows rows) k of
           None \<Rightarrow> None
         | Some r \<Rightarrow> (case dget (rg_tasks s) k of
             Some t \<Rightarrow> Some t
           | None \<Rightarrow> if pk_known K (pv_name r) then Some \<lparr>pt_config = pv_config r, pt_status = TaskRunning\<rparr> else None)))"
proof -
  let ?d = "desired_rows rows"
  let ?s = "cancel_tasks (filter (\<lambda>k. k \<notin> set (keys ?d)) (keys (rg_tasks s))) s"
  obtain s' where s': "start_tasks K (order_rows rows order) ?s = (s', False)" using order_rows_start [OF assms] by blast
  have "dget (rg_tasks s') k = (case dget ?d k of None \<Rightarrow> None
     | Some r \<Rightarrow> (case dget (rg_tasks s) k of Some t \<Rightarrow> Some t
       | None \<Rightarrow> if pk_known K (pv_name r) then Some \<lparr>pt_config = pv_config r, pt_status = TaskRunning\<rparr> else None))" for k
  proof -
    have old: "dget (rg_tasks ?s) k = (if dget ?d k = None then None else dget (rg_tasks s) k)"
      by (auto simp: dget_cancel dget_None_iff)
    have new: "k \<in> set order \<longleftrightarrow> dget ?d k \<noteq> None \<and> dget (rg_tasks s) k = None"
      unfolding assms(2) new_keys_def dget_None_iff by blast
    show ?thesis
      using start_tasks_ok [OF s', of k] old new unfolding dget_order_rows [OF assms(1,2)]
      by (cases "dget ?d k"; cases "dget (rg_tasks s) k") simp_all
  qed
  then show ?thesis using s' by (auto simp: reconcile_all_def Let_def)
qed

lemma toy_prov_keys: "row_key (toy_prov 1) \<noteq> row_key (toy_prov 2)"
proof
  assume "row_key (toy_prov 1) = row_key (toy_prov 2)"
  then have "uuid_parse (uuid_text 1) = uuid_parse (uuid_text 2)" by (simp add: task_key_def toy_prov_def)
  then show False by (simp add: uuid_parse_text)
qed

lemma reconcile_leaves_desired_witness:
  "\<exists>s'. reconcile_all toy_kit (Some [toy_prov 1, toy_prov 2]) [row_key (toy_prov 2), row_key (toy_prov 1)] registry_init = (s', False)
     \<and> dget (rg_tasks s') (row_key (toy_prov 2)) = Some \<lparr>pt_config = JInt 2, pt_status = TaskRunning\<rparr>"
proof -
  let ?rows = "[toy_prov 1, toy_prov 2]" and ?order = "[row_key (toy_prov 2), row_key (toy_prov 1)]"
  have d: "desired_rows ?rows = [(row_key (toy_prov 1), toy_prov 1), (row_key (toy_prov 2), toy_prov 2)]"
    using toy_prov_keys by (simp add: desired_rows_def dict_of_def)
  have "distinct ?order" "set ?order = new_keys ?rows registry_init"
    unfolding new_keys_def d using toy_prov_keys by (auto simp: registry_init_def)
  moreover have "\<forall>r \<in> set ?rows. pk_known toy_kit (pv_name r) \<longrightarrow> pk_constructs toy_kit (pv_name r) (pv_config r)"
    by (simp add: toy_kit_def toy_prov_def)
  ultimately have "\<exists>s'. reconcile_all toy_kit (Some ?rows) ?order registry_init = (s', False)
      \<and> (\<forall>k. dget (rg_tasks s') k = (case dget (desired_rows ?rows) k of None \<Rightarrow> None
         | Some r \<Rightarrow> (case dget (rg_tasks registry_init) k of Some t \<Rightarrow> Some t
           | None \<Rightarrow> if pk_known toy_kit (pv_name r) then Some \<lparr>pt_config = pv_config r, pt_status = TaskRunning\<rparr> else None)))"
    by (rule reconcile_leaves_desired)
  then obtain s' where s': "reconcile_all toy_kit (Some ?rows) ?order registry_init = (s', False)"
    "dget (rg_tasks s') (row_key (toy_prov 2)) = (case dget (desired_rows ?rows) (row_key (toy_prov 2)) of None \<Rightarrow> None
         | Some r \<Rightarrow> (case dget (rg_tasks registry_init) (row_key (toy_prov 2)) of Some t \<Rightarrow> Some t
           | None \<Rightarrow> if pk_known toy_kit (pv_name r) then Some \<lparr>pt_config = pv_config r, pt_status = TaskRunning\<rparr> else None))"
    by blast
  moreover have "dget (desired_rows ?rows) (row_key (toy_prov 2)) = Some (toy_prov 2)"
    unfolding d using toy_prov_keys by simp
  moreover have "pk_known toy_kit (pv_name (toy_prov 2))" "pv_config (toy_prov 2) = JInt 2" "rg_tasks registry_init = []"
    by (simp_all add: toy_kit_def toy_prov_def registry_init_def)
  ultimately show ?thesis by (intro exI [of _ s']) simp
qed

text \<open>
  A reload replaces exactly the tasks of its tenant: when the query returns the tenant's own rows
  under distinct names, the tasks under its prefix are those rows' with their current configuration,
  and no other task is touched. When the rows come back under another spelling of the tenant than
  the channel's, a row whose task is tracked makes the reload raise.
\<close>

theorem reload_replaces_tenant:
  assumes "36 \<le> length tn" "distinct (map row_key rows)"
    and "\<forall>r \<in> set rows. pk_known K (pv_name r) \<longrightarrow> pk_constructs K (pv_name r) (pv_config r)"
  shows "((\<forall>r \<in> set rows. pv_tenant r = tn) \<longrightarrow>
      (\<exists>s'. reload_tenant K tn (Some rows) s = (s', False)
        \<and> (\<forall>k. dget (rg_tasks s') k =
            (if startswith (tn @ py '':'') k
             then map_option (\<lambda>r. \<lparr>pt_config = pv_config r, pt_status = TaskRunning\<rparr>) (dget (known_rows K rows) k)
             else dget (rg_tasks s) k))))
    \<and> ((\<exists>r \<in> set rows. pk_known K (pv_name r) \<and> dget (rg_tasks s) (row_key r) \<noteq> None
        \<and> \<not> startswith (tn @ py '':'') (row_key r)) \<longrightarrow> snd (reload_tenant K tn (Some rows) s))"
proof (intro conjI impI)
  let ?p = "startswith (tn @ py '':'')"
  let ?s = "cancel_tasks (filter ?p (keys (rg_tasks s))) s"
  have eq: "reload_tenant K tn (Some rows) s = start_tasks K rows ?s" using assms(1) by (simp add: reload_tenant_def Let_def)
  have old: "dget (rg_tasks ?s) k = (if ?p k then None else dget (rg_tasks s) k)" for k
    by (auto simp: dget_cancel dget_None_iff)
  {
    assume tn: "\<forall>r \<in> set rows. pv_tenant r = tn"
    then have p: "?p (row_key r)" if "r \<in> set rows" for r using that by (simp add: task_key_def startswith_def)
    have "set (keys (known_rows K rows)) \<inter> set (keys (rg_tasks ?s)) = {}"
    proof -
      have "dget (rg_tasks ?s) (row_key r) = None" if "r \<in> set rows" for r using p [OF that] old by simp
      then show ?thesis unfolding keys_known_rows dget_None_iff by blast
    qed
    then have "\<not> snd (start_tasks K rows ?s)"
      unfolding start_tasks_raises_iff using distinct_keys_known [OF assms(2)] assms(3) by blast
    then obtain s' where s': "start_tasks K rows ?s = (s', False)" by (metis (full_types) prod.collapse)
    have "dget (known_rows K rows) k = None" if "\<not> ?p k" for k
    proof -
      have "k \<notin> set (keys (known_rows K rows))" unfolding keys_known_rows using p that by blast
      then show ?thesis by (simp only: dget_None_iff not_False_eq_True)
    qed
    then have "dget (rg_tasks s') k = (if ?p k
             then map_option (\<lambda>r. \<lparr>pt_config = pv_config r, pt_status = TaskRunning\<rparr>) (dget (known_rows K rows) k)
             else dget (rg_tasks s) k)" for k
      using start_tasks_ok [OF s', of k] old [of k] by (cases "?p k"; cases "dget (known_rows K rows) k") simp_all
    then show "\<exists>s'. reload_tenant K tn (Some rows) s = (s', False)
        \<and> (\<forall>k. dget (rg_tasks s') k = (if ?p k
             then map_option (\<lambda>r. \<lparr>pt_config = pv_config r, pt_status = TaskRunning\<rparr>) (dget (known_rows K rows) k)
             else dget (rg_tasks s) k))"
      unfolding eq using s' by blast
  }
  {
    assume "\<exists>r \<in> set rows. pk_known K (pv_name r) \<and> dget (rg_tasks s) (row_key r) \<noteq> None \<and> \<not> ?p (row_key r)"
    then obtain r where r: "r \<in> set rows" "pk_known K (pv_name r)" "dget (rg_tasks s) (row_key r) \<noteq> None" "\<not> ?p (row_key r)" by blast
    then have "dget (rg_tasks ?s) (row_key r) \<noteq> None" using old by simp
    then have "row_key r \<in> set (keys (rg_tasks ?s))" by (simp only: dget_None_iff not_not)
    moreover have "row_key r \<in> set (keys (known_rows K rows))" unfolding keys_known_rows using r by blast
    ultimately show "snd (reload_tenant K tn (Some rows) s)" unfolding eq start_tasks_raises_iff by blast
  }
qed

lemma reload_replaces_tenant_witness:
  "\<exists>s'. reload_tenant toy_kit (uuid_text 1) (Some [toy_prov 1]) registry_init = (s', False)"
proof -
  have "36 \<le> length (uuid_text 1)" by (simp add: uuid_text_def Let_def)
  then show ?thesis using reload_replaces_tenant [of "uuid_text 1" "[toy_prov 1]" toy_kit registry_init]
    by (auto simp: toy_kit_def toy_prov_def)
qed

end
