(* ===== verification/Settings.thy ===== *)
theory Settings
  imports EventBus Encryption
begin

text \<open>
  \<open>omkit/settings.py\<close>: the settings cache of a service, loaded from the database (or from its own cache
  file when the database fails) and kept up to date by polling or by pub/sub messages.  A callback is
  a number; the calls made are recorded in the state, and what a callback raises is swallowed.
\<close>

section \<open>State\<close>

record setting_row =
  st_key :: pystr
  st_value :: raw_value
  st_secret :: bool
  st_updated :: int

record settings =
  sm_cache :: "(pystr, json) dict"
  sm_secret_keys :: "pystr list"
  sm_listeners :: "(pystr, nat list) dict"
  sm_called :: "(nat \<times> pystr \<times> json) list"
  sm_seen :: "int option"
  sm_file :: "pystr option"

definition settings_init :: "pystr option \<Rightarrow> settings" where
  "settings_init file =
     \<lparr>sm_cache = [], sm_secret_keys = [], sm_listeners = [], sm_called = [], sm_seen = None, sm_file = file\<rparr>"

definition setting_get :: "settings \<Rightarrow> pystr \<Rightarrow> json \<Rightarrow> json" where
  "setting_get s key def = (case dget (sm_cache s) key of None \<Rightarrow> def | Some v \<Rightarrow> v)"

definition on_change :: "pystr \<Rightarrow> nat \<Rightarrow> settings \<Rightarrow> settings" where
  "on_change key callback s =
     s\<lparr>sm_listeners := dset key ((case dget (sm_listeners s) key of None \<Rightarrow> [] | Some cs \<Rightarrow> cs) @ [callback]) (sm_listeners s)\<rparr>"

definition listeners :: "settings \<Rightarrow> pystr \<Rightarrow> nat list" where
  "listeners s key = (case dget (sm_listeners s) key of None \<Rightarrow> [] | Some cs \<Rightarrow> cs)"

definition notify :: "pystr \<Rightarrow> json \<Rightarrow> settings \<Rightarrow> settings" where
  "notify key value s = s\<lparr>sm_called := sm_called s @ map (\<lambda>c. (c, key, value)) (listeners s key)\<rparr>"

text \<open>The row of a secret: its value's text and whether it is marked secret.\<close>

definition get_secret :: "aesgcm \<Rightarrow> pystr \<Rightarrow> (pystr \<times> bool) option \<Rightarrow> pystr option" where
  "get_secret G encryption_key row =
     (case row of
        None \<Rightarrow> None
      | Some (value, is_secret) \<Rightarrow>
          if \<not> is_secret then None
          else (case decrypt_value G value encryption_key of Inl _ \<Rightarrow> None | Inr plain \<Rightarrow> Some plain))"

section \<open>Loading and polling\<close>

text \<open>None is the \<open>UnicodeDecodeError\<close> of bytes; a text that is not JSON stays a text.\<close>

definition text_setting :: "pystr \<Rightarrow> json" where
  "text_setting t = (case loads t of None \<Rightarrow> JStr t | Some v \<Rightarrow> v)"

definition decode_setting :: "raw_value \<Rightarrow> json option" where
  "decode_setting v =
     (case v of
        RawB bs \<Rightarrow> map_option text_setting (utf8_decode False bs)
      | RawS t \<Rightarrow> Some (text_setting t)
      | RawJ (JStr t) \<Rightarrow> Some (text_setting t)
      | RawJ j \<Rightarrow> Some j)"

definition bump :: "int option \<Rightarrow> int \<Rightarrow> int option" where
  "bump latest u = (case latest of None \<Rightarrow> Some u | Some l \<Rightarrow> Some (if u > l then u else l))"

text \<open>The loop over the loaded rows: the state, the latest time stamp, and whether a row raised.\<close>

fun load_rows :: "setting_row list \<Rightarrow> int option \<Rightarrow> settings \<Rightarrow> settings \<times> int option \<times> bool" where
  "load_rows [] latest s = (s, latest, False)"
| "load_rows (r # rs) latest s =
     (let latest' = bump latest (st_updated r) in
      if st_secret r then load_rows rs latest' (s\<lparr>sm_secret_keys := st_key r # sm_secret_keys s\<rparr>)
      else (case decode_setting (st_value r) of
              None \<Rightarrow> (s, latest', True)
            | Some v \<Rightarrow> load_rows rs latest' (s\<lparr>sm_cache := dset (st_key r) v (sm_cache s)\<rparr>)))"

definition set_seen :: "settings \<times> int option \<times> bool \<Rightarrow> settings" where
  "set_seen res = (case res of (s, latest, raised) \<Rightarrow>
     if raised then s else (case latest of None \<Rightarrow> s | Some l \<Rightarrow> s\<lparr>sm_seen := Some l\<rparr>))"

text \<open>\<open>fetched\<close> is the table, None when the query raises.\<close>

definition load_from_pool_rows :: "setting_row list option \<Rightarrow> settings \<Rightarrow> settings" where
  "load_from_pool_rows fetched s =
     (case fetched of None \<Rightarrow> s | Some rows \<Rightarrow> set_seen (load_rows rows (sm_seen s) s))"

text \<open>\<open>updated_at > $1\<close>: no row when the parameter is NULL.\<close>

definition changed_rows :: "int option \<Rightarrow> setting_row list \<Rightarrow> setting_row list" where
  "changed_rows seen table =
     (case seen of None \<Rightarrow> [] | Some t \<Rightarrow> sort_key st_updated (filter (\<lambda>r. t < st_updated r) table))"

fun poll_rows :: "setting_row list \<Rightarrow> int option \<Rightarrow> settings \<Rightarrow> settings \<times> int option \<times> bool" where
  "poll_rows [] latest s = (s, latest, False)"
| "poll_rows (r # rs) latest s =
     (let latest' = bump latest (st_updated r) in
      if st_secret r then poll_rows rs latest' s
      else (case decode_setting (st_value r) of
              None \<Rightarrow> (s, latest', True)
            | Some v \<Rightarrow> poll_rows rs latest' (notify (st_key r) v (s\<lparr>sm_cache := dset (st_key r) v (sm_cache s)\<rparr>))))"

definition settings_poll :: "setting_row list option \<Rightarrow> settings \<Rightarrow> settings" where
  "settings_poll table s =
     (case table of None \<Rightarrow> s | Some rows \<Rightarrow> set_seen (poll_rows (changed_rows (sm_seen s) rows) (sm_seen s) s))"

section \<open>The cache file\<close>

definition cache_data :: "settings \<Rightarrow> (pystr, json) dict" where
  "cache_data s = filter (\<lambda>(k, v). k \<notin> set (sm_secret_keys s)) (sm_cache s)"

text \<open>\<open>io\<close> tells whether the file could be written and moved in place; it is replaced as a whole or not at all.\<close>

definition write_cache :: "bool \<Rightarrow> settings \<Rightarrow> settings" where
  "write_cache io s = (if io then s\<lparr>sm_file := Some (dumps_default (JObj (cache_data s)))\<rparr> else s)"

text \<open>A file that does not hold an object is not taken up (\<open>dict.update\<close> of anything but pairs raises).\<close>

definition read_cache :: "settings \<Rightarrow> settings" where
  "read_cache s =
     (case sm_file s of
        None \<Rightarrow> s
      | Some f \<Rightarrow> (case loads f of
            Some (JObj kvs) \<Rightarrow> s\<lparr>sm_cache := foldl (\<lambda>d (k, v). dset k v d) (sm_cache s) kvs\<rparr>
          | _ \<Rightarrow> s))"

fun db_rows :: "(pystr \<times> json \<times> bool) list \<Rightarrow> settings \<Rightarrow> settings" where
  "db_rows [] s = s"
| "db_rows ((k, v, secret) # rs) s =
     db_rows rs (if secret then s\<lparr>sm_secret_keys := k # sm_secret_keys s\<rparr> else s\<lparr>sm_cache := dset k v (sm_cache s)\<rparr>)"

definition load_from_db :: "bool \<Rightarrow> (pystr \<times> json \<times> bool) list option \<Rightarrow> settings \<Rightarrow> settings" where
  "load_from_db io fetched s = (case fetched of None \<Rightarrow> read_cache s | Some rows \<Rightarrow> write_cache io (db_rows rows s))"

section \<open>Messages\<close>

text \<open>
  The flag tells that the message raised, which ends the subscription until it is made again: a
  payload that is not an object, or a key that cannot be hashed.  A number as a key is left out.
\<close>

definition message_changed :: "(pystr \<times> json) list \<Rightarrow> bool" where
  "message_changed payload = (case dget payload (py ''changed'') of None \<Rightarrow> False | Some c \<Rightarrow> json_truthy c)"

definition unhashable_key :: "bool \<Rightarrow> (pystr \<times> json) list \<Rightarrow> settings \<Rightarrow> settings" where
  "unhashable_key io payload s =
     (if dget payload (py ''value'') = None \<and> \<not> message_changed payload then write_cache io s else s)"

definition handle_message :: "bool \<Rightarrow> pystr \<Rightarrow> settings \<Rightarrow> settings \<times> bool" where
  "handle_message io data s =
     (case loads data of
        None \<Rightarrow> (s, False)
      | Some (JObj payload) \<Rightarrow>
          (case dget payload (py ''key'') of
             Some (JStr key) \<Rightarrow>
               if key = [] then (s, False)
               else let s1 = (case dget payload (py ''value'') of
                        Some v \<Rightarrow> s\<lparr>sm_cache := dset key v (sm_cache s)\<rparr>
                      | None \<Rightarrow>
                          if message_changed payload then s\<lparr>sm_cache := dpop key (sm_cache s)\<rparr> else s)
                 in (notify key (case dget payload (py ''value'') of None \<Rightarrow> JNull | Some v \<Rightarrow> v) (write_cache io s1), False)
           | Some (JArr xs) \<Rightarrow> if xs = [] then (s, False) else (unhashable_key io payload s, True)
           | Some (JObj kvs) \<Rightarrow> if kvs = [] then (s, False) else (unhashable_key io payload s, True)
           | _ \<Rightarrow> (s, False))
      | Some _ \<Rightarrow> (s, True))"

section \<open>Starting and checking\<close>

datatype live_update = Subscriber | Poller | NoUpdates

text \<open>None is the \<open>ValueError\<close> of an unknown \<open>SETTINGS_BACKEND\<close>, which is only read with a pool.\<close>

definition settings_backend_from_env :: "pystr option \<Rightarrow> pystr option" where
  "settings_backend_from_env var =
     (let v = (case var of None \<Rightarrow> py ''postgres'' | Some v \<Rightarrow> v)
      in if v \<notin> {py ''postgres'', py ''redis''} then None else Some v)"

definition live_update_of :: "bool \<Rightarrow> pystr option \<Rightarrow> pystr \<Rightarrow> live_update option" where
  "live_update_of has_pool var url =
     (let backend = (if has_pool then settings_backend_from_env var
                     else Some (if url \<noteq> [] then py ''redis'' else py ''postgres''))
      in case backend of
           None \<Rightarrow> None
         | Some b \<Rightarrow> Some (if b = py ''redis'' \<and> url \<noteq> [] then Subscriber else if has_pool then Poller else NoUpdates))"

datatype setting_warning = NullSetting pystr | EmptySetting pystr | BadJsonSetting pystr

definition contains :: "pystr \<Rightarrow> pystr \<Rightarrow> bool" where
  "contains sub t = list_ex (\<lambda>i. startswith sub (drop i t)) [0..<Suc (length t)]"

definition endswith :: "nat \<Rightarrow> pystr \<Rightarrow> bool" where
  "endswith c t = (t \<noteq> [] \<and> last t = c)"

definition validate_setting :: "pystr \<times> json \<Rightarrow> setting_warning list" where
  "validate_setting kv =
     (case kv of (key, value) \<Rightarrow>
       (case value of
          JNull \<Rightarrow> [NullSetting key]
        | JStr v \<Rightarrow>
            let stripped = strip v in
            if stripped = [] \<and> \<not> contains (py ''api_key'') key \<and> \<not> contains (py ''token'') key then [EmptySetting key]
            else if (startswith (py ''{'') stripped \<and> endswith 125 stripped) \<or> (startswith (py ''['') stripped \<and> endswith 93 stripped)
              then (if loads stripped = None then [BadJsonSetting key] else [])
            else []
        | _ \<Rightarrow> []))"

definition validate_settings :: "settings \<Rightarrow> setting_warning list" where
  "validate_settings s = concat (map validate_setting (sm_cache s))"

section \<open>Lemmas\<close>

declare map_of_eq_Some_iff [simp del]

abbreviation plain_rows :: "setting_row list \<Rightarrow> setting_row list" where
  "plain_rows rs \<equiv> filter (\<lambda>r. \<not> st_secret r) rs"

abbreviation row_value :: "setting_row \<Rightarrow> json" where
  "row_value r \<equiv> the (decode_setting (st_value r))"

definition decodable :: "setting_row list \<Rightarrow> bool" where
  "decodable rs = (\<forall>r \<in> set rs. \<not> st_secret r \<longrightarrow> decode_setting (st_value r) \<noteq> None)"

lemma listeners_update [simp]:
  "listeners (s\<lparr>sm_cache := c\<rparr>) = listeners s" "listeners (s\<lparr>sm_called := d\<rparr>) = listeners s"
  by (simp_all add: listeners_def fun_eq_iff)

lemma poll_rows_ok:
  "decodable rs \<Longrightarrow> poll_rows rs latest s =
    (s\<lparr>sm_cache := foldl (\<lambda>d (k, v). dset k v d) (sm_cache s) (map (\<lambda>r. (st_key r, row_value r)) (plain_rows rs)),
       sm_called := sm_called s @ concat (map (\<lambda>r. map (\<lambda>c. (c, st_key r, row_value r)) (listeners s (st_key r))) (plain_rows rs))\<rparr>,
     foldl bump latest (map st_updated rs), False)"
proof (induction rs arbitrary: latest s)
  case (Cons r rs)
  have IH: "decodable rs" using Cons.prems by (simp add: decodable_def)
  show ?case
  proof (cases "st_secret r")
    case False
    then obtain v where "decode_setting (st_value r) = Some v" using Cons.prems by (auto simp: decodable_def)
    then show ?thesis using False by (simp add: Cons.IH [OF IH] Let_def notify_def)
  qed (simp add: Cons.IH [OF IH] Let_def)
qed simp

lemma foldl_bump:
  "\<exists>l. foldl bump (Some t) us = Some l \<and> t \<le> l \<and> (\<forall>u \<in> set us. u \<le> l) \<and> (l = t \<or> l \<in> set us)"
proof (induction us arbitrary: t)
  case (Cons u us)
  obtain l where "foldl bump (Some (if u > t then u else t)) us = Some l" "(if u > t then u else t) \<le> l" "\<forall>u \<in> set us. u \<le> l"
    "l = (if u > t then u else t) \<or> l \<in> set us"
    using Cons.IH [of "if u > t then u else t"] by blast
  moreover have "bump (Some t) u = Some (if u > t then u else t)" by (simp add: bump_def)
  ultimately show ?case by (cases "t < u") auto
qed simp

lemma in_changed_rows: "r \<in> set (changed_rows (Some t) table) \<longleftrightarrow> r \<in> set table \<and> t < st_updated r"
  by (auto simp: changed_rows_def)

lemma dget_foldl_rows:
  assumes "distinct (map st_key rs)"
  shows "dget (foldl (\<lambda>d (k, v). dset k v d) d (map (\<lambda>r. (st_key r, f r)) rs)) k =
    (case List.find (\<lambda>r. st_key r = k) rs of None \<Rightarrow> dget d k | Some r \<Rightarrow> Some (f r))"
proof -
  have "distinct (map fst (map (\<lambda>r. (st_key r, f r)) rs))" using assms by (simp add: comp_def)
  then have "dget (rev (map (\<lambda>r. (st_key r, f r)) rs)) k = dget (map (\<lambda>r. (st_key r, f r)) rs) k"
    by (intro fun_cong [OF map_of_inject_set [THEN iffD2]]) (simp_all add: rev_map [symmetric] comp_def)
  moreover have "dget (map (\<lambda>r. (st_key r, f r)) rs) k = map_option f (List.find (\<lambda>r. st_key r = k) rs)"
    by (induction rs) auto
  ultimately show ?thesis by (simp add: foldl_dset_lookup split: option.split)
qed

lemma filter_filter_distinct: "distinct (map f xs) \<Longrightarrow> distinct (map f (filter P xs))"
  by (induction xs) auto

lemma distinct_changed:
  assumes "distinct (map st_key table)"
  shows "distinct (map st_key (plain_rows (changed_rows seen table)))"
proof -
  have "distinct (map st_key (changed_rows seen table))"
  proof (cases seen)
    case (Some t)
    have "distinct (map st_key (filter (\<lambda>r. t < st_updated r) table))" using assms by (rule filter_filter_distinct)
    then show ?thesis unfolding Some changed_rows_def by (simp add: distinct_map)
  qed (simp add: changed_rows_def)
  then show ?thesis by (rule filter_filter_distinct)
qed

lemma find_distinct_key:
  "distinct (map st_key rs) \<Longrightarrow> r \<in> set rs \<Longrightarrow> List.find (\<lambda>q. st_key q = st_key r) rs = Some r"
  by (induction rs) auto

section \<open>Properties\<close>

text \<open>
  C19. A poll takes up exactly what changed: over a manager in step with the rows up to the last time stamp
  it has seen, every row that is not secret is cached with its current value afterwards, no other
  cache entry changes, each callback of a changed key is called once, in the order of the time
  stamps, and a second poll of the same table does nothing.
\<close>

theorem poll_takes_up_changes:
  assumes "sm_seen s = Some t" "distinct (map st_key table)" "decodable table"
    and "\<forall>r \<in> set table. \<not> st_secret r \<and> st_updated r \<le> t \<longrightarrow> dget (sm_cache s) (st_key r) = decode_setting (st_value r)"
  defines "changed \<equiv> plain_rows (changed_rows (Some t) table)" and "s' \<equiv> settings_poll (Some table) s"
  shows "(\<forall>r \<in> set table. \<not> st_secret r \<longrightarrow> dget (sm_cache s') (st_key r) = decode_setting (st_value r))
    \<and> (\<forall>k. k \<notin> st_key ` set changed \<longrightarrow> dget (sm_cache s') k = dget (sm_cache s) k)
    \<and> sm_called s' = sm_called s @ concat (map (\<lambda>r. map (\<lambda>c. (c, st_key r, row_value r)) (listeners s (st_key r))) changed)
    \<and> settings_poll (Some table) s' = s'"
proof -
  let ?rows = "changed_rows (Some t) table"
  have dec: "decodable ?rows" using assms(3) by (auto simp: decodable_def in_changed_rows)
  obtain l where l: "foldl bump (Some t) (map st_updated ?rows) = Some l" "t \<le> l" "\<forall>u \<in> set (map st_updated ?rows). u \<le> l"
    using foldl_bump by blast
  let ?kvs = "map (\<lambda>r. (st_key r, row_value r)) changed"
  have s': "s' = s\<lparr>sm_cache := foldl (\<lambda>d (k, v). dset k v d) (sm_cache s) ?kvs,
      sm_called := sm_called s @ concat (map (\<lambda>r. map (\<lambda>c. (c, st_key r, row_value r)) (listeners s (st_key r))) changed),
      sm_seen := Some l\<rparr>"
    by (simp add: s'_def settings_poll_def assms(1) poll_rows_ok [OF dec] l(1) set_seen_def changed_def)
  have dist: "distinct (map st_key changed)" unfolding changed_def by (rule distinct_changed [OF assms(2)])
  have cache: "dget (sm_cache s') k = (case List.find (\<lambda>r. st_key r = k) changed of None \<Rightarrow> dget (sm_cache s) k | Some r \<Rightarrow> Some (row_value r))" for k
    unfolding s' using dget_foldl_rows [OF dist] by simp
  have in_table: "r \<in> set changed \<longleftrightarrow> r \<in> set table \<and> t < st_updated r \<and> \<not> st_secret r" for r
    by (auto simp: changed_def in_changed_rows)
  have "dget (sm_cache s') (st_key r) = decode_setting (st_value r)" if r: "r \<in> set table" "\<not> st_secret r" for r
  proof (cases "t < st_updated r")
    case True
    then have "List.find (\<lambda>q. st_key q = st_key r) changed = Some r" using r in_table find_distinct_key [OF dist] by blast
    moreover have "decode_setting (st_value r) \<noteq> None" using assms(3) r by (auto simp: decodable_def)
    ultimately show ?thesis using cache by simp
  next
    case False
    have "List.find (\<lambda>q. st_key q = st_key r) changed = None"
    proof -
      have "st_key q \<noteq> st_key r" if "q \<in> set changed" for q
        using that False r(1) assms(2) unfolding in_table by (auto dest: map_of_is_SomeI simp: distinct_map inj_on_def)
      then show ?thesis by (simp add: find_None_iff)
    qed
    then show ?thesis using cache assms(4) r False by simp
  qed
  moreover have "dget (sm_cache s') k = dget (sm_cache s) k" if "k \<notin> st_key ` set changed" for k
  proof -
    have "List.find (\<lambda>r. st_key r = k) changed = None" using that by (auto simp: find_None_iff)
    then show ?thesis using cache by simp
  qed
  moreover have "changed_rows (Some l) table = []"
  proof -
    have "st_updated r \<le> l" if "r \<in> set table" for r
      using that l(2,3) in_changed_rows [of r t table] by (cases "t < st_updated r") auto
    then have "r \<notin> set (changed_rows (Some l) table)" for r by (auto simp: in_changed_rows dest: leD)
    then show ?thesis by (cases "changed_rows (Some l) table") auto
  qed
  then have "settings_poll (Some table) s' = s'" unfolding s' by (simp add: settings_poll_def set_seen_def)
  ultimately show ?thesis unfolding s' by simp
qed

definition toy_setting :: "nat \<Rightarrow> int \<Rightarrow> setting_row" where
  "toy_setting n t = \<lparr>st_key = py ''k'', st_value = RawJ (JInt (int n)), st_secret = False, st_updated = t\<rparr>"

lemma poll_takes_up_changes_witness:
  "dget (sm_cache (settings_poll (Some [toy_setting 2 20]) ((on_change (py ''k'') 7 (settings_init None))\<lparr>sm_seen := Some 10\<rparr>))) (py ''k'') = Some (JInt 2)
   \<and> sm_called (settings_poll (Some [toy_setting 2 20]) ((on_change (py ''k'') 7 (settings_init None))\<lparr>sm_seen := Some 10\<rparr>)) = [(7, py ''k'', JInt 2)]"
proof -
  let ?s = "(on_change (py ''k'') 7 (settings_init None))\<lparr>sm_seen := Some 10\<rparr>"
  have "plain_rows (changed_rows (Some 10) [toy_setting 2 20]) = [toy_setting 2 20]" by (simp add: changed_rows_def toy_setting_def)
  moreover have "listeners ?s (py ''k'') = [7]" by (simp add: listeners_def on_change_def settings_init_def)
  moreover have "sm_called ?s = []" by (simp add: on_change_def settings_init_def)
  moreover have "decode_setting (st_value (toy_setting 2 20)) = Some (JInt 2)" "st_key (toy_setting 2 20) = py ''k''" "\<not> st_secret (toy_setting 2 20)"
    by (simp_all add: toy_setting_def decode_setting_def)
  moreover have "\<forall>r \<in> set [toy_setting 2 20]. \<not> st_secret r \<and> st_updated r \<le> 10 \<longrightarrow> dget (sm_cache ?s) (st_key r) = decode_setting (st_value r)"
    by (simp add: toy_setting_def)
  moreover have "decodable [toy_setting 2 20]" by (simp add: decodable_def toy_setting_def decode_setting_def)
  ultimately show ?thesis using poll_takes_up_changes [of ?s 10 "[toy_setting 2 20]"] by simp
qed

text \<open>
  The poller starts from the time stamp of the first load: after a load that failed, or found no row,
  no poll ever changes anything, whatever the table holds later; and a row that has become a secret
  is passed over, so the plain value cached before stays readable.
\<close>

theorem poll_never_starts:
  shows "(\<forall>s' \<in> {load_from_pool_rows None (settings_init f), load_from_pool_rows (Some []) (settings_init f)}.
        settings_poll table s' = s')
    \<and> (sm_seen s = Some t \<and> st_secret r \<and> t < st_updated r \<longrightarrow>
        sm_cache (settings_poll (Some [r]) s) = sm_cache s \<and> sm_secret_keys (settings_poll (Some [r]) s) = sm_secret_keys s)"
  by (auto simp: load_from_pool_rows_def settings_poll_def settings_init_def changed_rows_def set_seen_def bump_def
      split: option.split)

lemma poll_never_starts_witness:
  "sm_cache (settings_poll (Some [(toy_setting 1 20)\<lparr>st_secret := True\<rparr>])
     ((settings_init None)\<lparr>sm_seen := Some 10, sm_cache := [(py ''k'', JInt 1)]\<rparr>)) = [(py ''k'', JInt 1)]"
  using poll_never_starts [of None None "(settings_init None)\<lparr>sm_seen := Some 10, sm_cache := [(py ''k'', JInt 1)]\<rparr>" 10
      "(toy_setting 1 20)\<lparr>st_secret := True\<rparr>"]
  by (simp add: toy_setting_def)

text \<open>
  A service that starts while the database is down gets back what was cached: after a load that was
  written out, a new manager on the same file whose load fails holds exactly the settings of the
  first one whose keys are not known to be secret, with their values.
\<close>

theorem cache_file_restores:
  assumes "jwf (JObj (cache_data (db_rows rows (settings_init f))))"
  defines "s \<equiv> load_from_db True (Some rows) (settings_init f)"
  shows "sm_cache (load_from_db io None (settings_init (sm_file s))) = cache_data s
    \<and> (\<forall>k v. (k, v) \<in> set (cache_data s) \<longrightarrow> (k, v) \<in> set (sm_cache s) \<and> (\<forall>(k', v', secret) \<in> set rows. secret \<longrightarrow> k' \<noteq> k))"
proof -
  let ?d = "db_rows rows (settings_init f)"
  have data: "cache_data s = cache_data ?d" and cache: "sm_cache s = sm_cache ?d"
    by (simp_all add: s_def load_from_db_def write_cache_def cache_data_def)
  have fl: "sm_file s = Some (dumps_default (JObj (cache_data ?d)))" by (simp add: s_def load_from_db_def write_cache_def)
  have "distinct (keys (cache_data ?d))" using assms(1) by simp
  then have "foldl (\<lambda>d (k, v). dset k v d) [] (cache_data ?d) = cache_data ?d"
    using foldl_dset_distinct [of "[]" "cache_data ?d"] by simp
  then have "sm_cache (load_from_db io None (settings_init (sm_file s))) = cache_data s"
    unfolding fl data using assms(1) by (simp add: load_from_db_def read_cache_def settings_init_def del: jwf.simps)
  moreover have "set (sm_secret_keys (db_rows rows s0)) = {k. \<exists>v. (k, v, True) \<in> set rows} \<union> set (sm_secret_keys s0)" for s0
    by (induction rows s0 rule: db_rows.induct) (auto split: if_splits)
  then have "\<forall>(k', v', secret) \<in> set rows. secret \<longrightarrow> k' \<in> set (sm_secret_keys ?d)" by auto
  ultimately show ?thesis unfolding data cache by (fastforce simp: cache_data_def)
qed

lemma cache_file_restores_witness:
  "sm_cache (load_from_db False None (settings_init (sm_file (load_from_db True
     (Some [(py ''a'', JInt 1, False), (py ''pw'', JStr (py ''x''), True)]) (settings_init None))))) = [(py ''a'', JInt 1)]"
proof -
  let ?rows = "[(py ''a'', JInt 1, False), (py ''pw'', JStr (py ''x''), True)]"
  have d: "cache_data (db_rows ?rows (settings_init None)) = [(py ''a'', JInt 1)]"
    by (simp add: cache_data_def settings_init_def)
  moreover have "list_all valid_cp (py ''a'')" by (simp add: py_def valid_cp_def surrogate_def)
  ultimately have "jwf (JObj (cache_data (db_rows ?rows (settings_init None))))" by simp
  from cache_file_restores [OF this, of False] d show ?thesis
    by (simp add: load_from_db_def write_cache_def cache_data_def)
qed

text \<open>
  A message with a key sets or removes exactly that key, and calls exactly its callbacks with the
  value, null for a removal; one that is not JSON, has no key or names an unknown change does not
  touch the cache. It raises exactly for a payload that is not an object, or a key that is a
  non-empty array or object.
\<close>

theorem message_updates_cache:
  fixes s :: settings and io :: bool
  assumes "loads data = Some (JObj payload)" "dget payload (py ''key'') = Some (JStr key)" "key \<noteq> []"
  defines "s' \<equiv> fst (handle_message io data s)"
  shows "dget (sm_cache s') key = (case dget payload (py ''value'') of Some v \<Rightarrow> Some v
        | None \<Rightarrow> if message_changed payload then None else dget (sm_cache s) key)
    \<and> (\<forall>k. k \<noteq> key \<longrightarrow> dget (sm_cache s') k = dget (sm_cache s) k)
    \<and> sm_called s' = sm_called s @ map (\<lambda>c. (c, key, case dget payload (py ''value'') of Some v \<Rightarrow> v | None \<Rightarrow> JNull)) (listeners s key)
    \<and> (\<forall>data'. snd (handle_message io data' s) \<longleftrightarrow>
        (\<exists>v. loads data' = Some v \<and> (case v of
            JObj p \<Rightarrow> (case dget p (py ''key'') of Some (JArr xs) \<Rightarrow> xs \<noteq> [] | Some (JObj kvs) \<Rightarrow> kvs \<noteq> [] | _ \<Rightarrow> False)
          | _ \<Rightarrow> True)))"
proof (intro conjI allI)
  fix data'
  show "snd (handle_message io data' s) \<longleftrightarrow>
        (\<exists>v. loads data' = Some v \<and> (case v of
            JObj p \<Rightarrow> (case dget p (py ''key'') of Some (JArr xs) \<Rightarrow> xs \<noteq> [] | Some (JObj kvs) \<Rightarrow> kvs \<noteq> [] | _ \<Rightarrow> False)
          | _ \<Rightarrow> True))"
    by (auto simp: handle_message_def split: option.split json.split)
qed (use assms(3) in \<open>auto simp: s'_def handle_message_def assms(1,2) notify_def write_cache_def listeners_def Let_def split: option.split\<close>)

lemma message_updates_cache_witness:
  "dget (sm_cache (fst (handle_message True (dumps_default (JObj [(py ''key'', JStr (py ''k'')), (py ''value'', JInt 3)]))
     (settings_init None)))) (py ''k'') = Some (JInt 3)"
proof -
  let ?p = "[(py ''key'', JStr (py ''k'')), (py ''value'', JInt 3)]"
  have "list_all valid_cp (py ''key'')" "list_all valid_cp (py ''value'')" "list_all valid_cp (py ''k'')"
    by (simp_all add: py_def valid_cp_def surrogate_def)
  then have "loads (dumps_default (JObj ?p)) = Some (JObj ?p)" by (intro loads_dumps_default) simp
  from message_updates_cache [OF this, where key = "py ''k''" and io = True and s = "settings_init None"] show ?thesis by simp
qed

end
