(* ===== verification/Lifecycle.thy ===== *)
theory Lifecycle
  imports OmPrelude Complex_Main
begin

text \<open>
  \<open>omkit/model_lifecycle.py\<close>: one model loaded on demand under its lock, as a state machine whose
  executor calls are two steps (so that what is visible while a load or an unload runs is a state),
  and the registry with the reaper's sweep and the unloading of all models.  A loaded object is a
  number, and the objects in memory are part of the state.
\<close>

section \<open>One lifecycle\<close>

datatype phase = Resting | Loading | Unloading

record lifecycle =
  lc_model :: "nat option"
  lc_last_used :: rat
  lc_phase :: phase
  lc_gauge :: bool
  lc_errors :: nat
  lc_memory :: "nat list"

definition lifecycle_init :: lifecycle where
  "lifecycle_init = \<lparr>lc_model = None, lc_last_used = 0, lc_phase = Resting, lc_gauge = False, lc_errors = 0, lc_memory = []\<rparr>"

definition is_loaded :: "lifecycle \<Rightarrow> bool" where
  "is_loaded l = (lc_model l \<noteq> None)"

definition touch :: "rat \<Rightarrow> lifecycle \<Rightarrow> lifecycle" where
  "touch now l = l\<lparr>lc_last_used := now\<rparr>"

text \<open>\<open>ensure_loaded\<close>: with a model only its use is recorded; without one \<open>_do_load\<close> runs, holding the lock.\<close>

definition begin_ensure :: "rat \<Rightarrow> lifecycle \<Rightarrow> lifecycle" where
  "begin_ensure now l = (if lc_model l \<noteq> None then l\<lparr>lc_last_used := now\<rparr> else l\<lparr>lc_phase := Loading\<rparr>)"

text \<open>\<open>_do_load\<close> raises (None) or returns an object.\<close>

definition end_load :: "rat \<Rightarrow> nat option \<Rightarrow> lifecycle \<Rightarrow> lifecycle" where
  "end_load now result l =
     (case result of
        None \<Rightarrow> l\<lparr>lc_errors := lc_errors l + 1, lc_phase := Resting\<rparr>
      | Some m \<Rightarrow> l\<lparr>lc_model := Some m, lc_last_used := now, lc_gauge := True, lc_phase := Resting, lc_memory := m # lc_memory l\<rparr>)"

definition begin_unload :: "lifecycle \<Rightarrow> lifecycle" where
  "begin_unload l = (if lc_model l = None then l else l\<lparr>lc_gauge := False, lc_phase := Unloading\<rparr>)"

text \<open>\<open>_do_unload\<close> returns, having released the object, or raises.\<close>

definition end_unload :: "bool \<Rightarrow> lifecycle \<Rightarrow> lifecycle" where
  "end_unload ok l =
     (if ok then l\<lparr>lc_model := None, lc_last_used := 0, lc_phase := Resting,
                   lc_memory := (case lc_model l of None \<Rightarrow> lc_memory l | Some m \<Rightarrow> removeAll m (lc_memory l))\<rparr>
      else l\<lparr>lc_phase := Resting\<rparr>)"

text \<open>Callers in any order; the lock lets an \<open>ensure_loaded\<close> or an \<open>unload\<close> begin only at rest, a touch needs no lock.\<close>

inductive lifecycle_step :: "lifecycle \<Rightarrow> lifecycle \<Rightarrow> bool" where
  ensure: "lc_phase l = Resting \<Longrightarrow> lifecycle_step l (begin_ensure now l)"
| loaded: "lc_phase l = Loading \<Longrightarrow> (case r of None \<Rightarrow> True | Some m \<Rightarrow> m \<notin> set (lc_memory l)) \<Longrightarrow> lifecycle_step l (end_load now r l)"
| unload: "lc_phase l = Resting \<Longrightarrow> lifecycle_step l (begin_unload l)"
| unloaded: "lc_phase l = Unloading \<Longrightarrow> lifecycle_step l (end_unload ok l)"
| touched: "lifecycle_step l (touch now l)"

section \<open>The registry\<close>

record model_registry =
  mr_models :: "(pystr, lifecycle) dict"
  mr_ttl :: rat
  mr_unloads :: "(pystr \<times> string) list"
  mr_reaper :: bool

definition model_registry_init :: model_registry where
  "model_registry_init = \<lparr>mr_models = [], mr_ttl = 300, mr_unloads = [], mr_reaper = False\<rparr>"

definition register_model :: "pystr \<Rightarrow> lifecycle \<Rightarrow> model_registry \<Rightarrow> model_registry" where
  "register_model name l s = s\<lparr>mr_models := dset name l (mr_models s)\<rparr>"

definition model_status :: "model_registry \<Rightarrow> (pystr, bool) dict" where
  "model_status s = map (\<lambda>(n, l). (n, is_loaded l)) (mr_models s)"

definition set_ttl :: "rat \<Rightarrow> model_registry \<Rightarrow> model_registry" where
  "set_ttl ttl s = s\<lparr>mr_ttl := ttl\<rparr>"

definition start_reaper :: "rat \<Rightarrow> model_registry \<Rightarrow> model_registry" where
  "start_reaper ttl s = s\<lparr>mr_ttl := ttl, mr_reaper := True\<rparr>"

definition stop_reaper :: "model_registry \<Rightarrow> model_registry" where
  "stop_reaper s = s\<lparr>mr_reaper := False\<rparr>"

definition unload_model :: "bool \<Rightarrow> lifecycle \<Rightarrow> lifecycle" where
  "unload_model ok l = (if lc_model l = None then l else end_unload ok (begin_unload l))"

definition is_idle :: "rat \<Rightarrow> rat \<Rightarrow> lifecycle \<Rightarrow> bool" where
  "is_idle now ttl l = (is_loaded l \<and> now - lc_last_used l \<ge> ttl)"

definition unload_named :: "string \<Rightarrow> bool \<Rightarrow> pystr \<Rightarrow> model_registry \<Rightarrow> model_registry" where
  "unload_named reason ok n s =
     (case dget (mr_models s) n of
        None \<Rightarrow> s
      | Some l \<Rightarrow> s\<lparr>mr_unloads := mr_unloads s @ [(n, reason)], mr_models := dset n (unload_model ok l) (mr_models s)\<rparr>)"

text \<open>One pass of the reaper; \<open>returns\<close> tells which \<open>_do_unload\<close> return, and an exception goes to the next model.\<close>

fun reap_models :: "rat \<Rightarrow> (pystr \<Rightarrow> bool) \<Rightarrow> pystr list \<Rightarrow> model_registry \<Rightarrow> model_registry" where
  "reap_models now returns [] s = s"
| "reap_models now returns (n # ns) s =
     reap_models now returns ns
       (case dget (mr_models s) n of
          None \<Rightarrow> s
        | Some l \<Rightarrow> if is_idle now (mr_ttl s) l then unload_named ''idle'' (returns n) n s else s)"

definition reap_sweep :: "rat \<Rightarrow> (pystr \<Rightarrow> bool) \<Rightarrow> model_registry \<Rightarrow> model_registry" where
  "reap_sweep now returns s = (if mr_ttl s \<le> 0 then s else reap_models now returns (keys (mr_models s)) s)"

text \<open>Unloading all: an exception leaves the loop; the flag tells it.\<close>

fun unload_models :: "(pystr \<Rightarrow> bool) \<Rightarrow> pystr list \<Rightarrow> model_registry \<Rightarrow> model_registry \<times> bool" where
  "unload_models returns [] s = (s, False)"
| "unload_models returns (n # ns) s =
     (case dget (mr_models s) n of
        None \<Rightarrow> unload_models returns ns s
      | Some l \<Rightarrow>
          if \<not> is_loaded l then unload_models returns ns s
          else if returns n then unload_models returns ns (unload_named ''shutdown'' True n s)
          else (unload_named ''shutdown'' False n s, True))"

definition unload_all :: "(pystr \<Rightarrow> bool) \<Rightarrow> model_registry \<Rightarrow> model_registry \<times> bool" where
  "unload_all returns s = unload_models returns (keys (mr_models s)) (stop_reaper s)"

section \<open>Lemmas\<close>

text \<open>At most the visible model is in memory, loads run only without one and unloads only with one.\<close>

definition lifecycle_ok :: "lifecycle \<Rightarrow> bool" where
  "lifecycle_ok l =
     (lc_memory l = (case lc_model l of None \<Rightarrow> [] | Some m \<Rightarrow> [m])
    \<and> (lc_phase l = Loading \<longrightarrow> lc_model l = None)
    \<and> (lc_phase l = Unloading \<longrightarrow> lc_model l \<noteq> None)
    \<and> (lc_gauge l \<longrightarrow> lc_model l \<noteq> None \<and> lc_phase l = Resting))"

lemma lifecycle_ok_init: "lifecycle_ok lifecycle_init"
  by (simp add: lifecycle_ok_def lifecycle_init_def)

lemma lifecycle_ok_step: "lifecycle_step l l' \<Longrightarrow> lifecycle_ok l \<Longrightarrow> lifecycle_ok l'"
  by (induction rule: lifecycle_step.induct)
    (auto simp: lifecycle_ok_def begin_ensure_def end_load_def begin_unload_def end_unload_def touch_def split: option.splits)

declare map_of_eq_Some_iff [simp del]

lemma unload_named_simps [simp]:
  "mr_ttl (unload_named reason ok n s) = mr_ttl s"
  "keys (mr_models s) = ks \<Longrightarrow> keys (mr_models (unload_named reason ok n s)) = ks"
  "dget (mr_models (unload_named reason ok n s)) k =
     (if k = n then map_option (unload_model ok) (dget (mr_models s) n) else dget (mr_models s) k)"
proof -
  show "keys (mr_models s) = ks \<Longrightarrow> keys (mr_models (unload_named reason ok n s)) = ks"
  proof (cases "dget (mr_models s) n")
    case (Some l)
    then have "n \<in> set (keys (mr_models s))" by (metis dget_None_iff option.distinct(1))
    then show "keys (mr_models s) = ks \<Longrightarrow> keys (mr_models (unload_named reason ok n s)) = ks"
      using Some by (simp add: unload_named_def keys_dset)
  qed (simp add: unload_named_def)
qed (simp_all add: unload_named_def split: option.split)

lemma reap_models_other: "k \<notin> set ns \<Longrightarrow> dget (mr_models (reap_models now returns ns s)) k = dget (mr_models s) k"
  by (induction ns arbitrary: s) (auto split: option.split)

lemma reap_models_exact:
  "distinct ns \<Longrightarrow> k \<in> set ns \<Longrightarrow>
    dget (mr_models (reap_models now returns ns s)) k =
      map_option (\<lambda>l. if is_idle now (mr_ttl s) l then unload_model (returns k) l else l) (dget (mr_models s) k)"
proof (induction ns arbitrary: s)
  case (Cons n ns)
  let ?s = "case dget (mr_models s) n of None \<Rightarrow> s
    | Some l \<Rightarrow> if is_idle now (mr_ttl s) l then unload_named ''idle'' (returns n) n s else s"
  have ttl: "mr_ttl ?s = mr_ttl s" by (simp split: option.split)
  show ?case
  proof (cases "k = n")
    case True
    then have "k \<notin> set ns" using Cons.prems(1) by simp
    then show ?thesis using True reap_models_other [of k ns now returns ?s] by (auto split: option.split)
  next
    case False
    then have "dget (mr_models ?s) k = dget (mr_models s) k" by (simp split: option.split)
    then show ?thesis using Cons.IH [of ?s] Cons.prems False ttl by simp
  qed
qed simp

lemma unload_models_raises:
  "distinct ns \<Longrightarrow> snd (unload_models returns ns s) \<longleftrightarrow>
    (\<exists>n \<in> set ns. \<exists>l. dget (mr_models s) n = Some l \<and> is_loaded l \<and> \<not> returns n)"
proof (induction ns arbitrary: s)
  case (Cons n ns)
  have "(\<exists>m \<in> set ns. \<exists>l. dget (mr_models (unload_named ''shutdown'' True n s)) m = Some l \<and> is_loaded l \<and> \<not> returns m) \<longleftrightarrow>
      (\<exists>m \<in> set ns. \<exists>l. dget (mr_models s) m = Some l \<and> is_loaded l \<and> \<not> returns m)"
    using Cons.prems by (intro bex_cong refl) auto
  then show ?case using Cons.IH [of s] Cons.IH [of "unload_named ''shutdown'' True n s"] Cons.prems
    by (auto split: option.split)
qed simp

lemma not_loaded_unload: "\<not> is_loaded (unload_model True l)"
  by (simp add: unload_model_def is_loaded_def end_unload_def begin_unload_def split: option.split)

lemma unload_models_all:
  "distinct ns \<Longrightarrow> unload_models returns ns s = (s', False) \<Longrightarrow>
    (\<forall>n \<in> set ns. \<forall>l. dget (mr_models s') n = Some l \<longrightarrow> \<not> is_loaded l) \<and> (\<forall>n. n \<notin> set ns \<longrightarrow> dget (mr_models s') n = dget (mr_models s) n)"
proof (induction ns arbitrary: s)
  case (Cons n ns)
  have d: "distinct ns" "n \<notin> set ns" using Cons.prems(1) by simp_all
  show ?case
  proof (cases "dget (mr_models s) n")
    case None
    then show ?thesis using Cons.IH [OF d(1), of s] Cons.prems(2) d(2) by auto
  next
    case (Some l)
    show ?thesis
    proof (cases "is_loaded l")
      case False
      then show ?thesis using Cons.IH [OF d(1), of s] Cons.prems(2) d(2) Some by auto
    next
      case True
      then have "unload_models returns ns (unload_named ''shutdown'' True n s) = (s', False)"
        using Cons.prems(2) Some by (auto split: if_splits)
      then show ?thesis using Cons.IH [OF d(1)] d(2) Some by (auto simp: not_loaded_unload)
    qed
  qed
qed simp

section \<open>Properties\<close>

text \<open>
  However callers interleave, at most one object of a model is in memory, and it is the one that is
  visible: no call loads a second copy, and none is lost by an unload. The gauge shows a model only
  when one is there at rest, but an unload that raises leaves the model loaded with the gauge at 0.
  No caller is cancelled here; \<open>ModelTasks\<close> has those that are.
\<close>

theorem at_most_one_model:
  assumes "lifecycle_step\<^sup>*\<^sup>* lifecycle_init l"
  shows "lc_memory l = (case lc_model l of None \<Rightarrow> [] | Some m \<Rightarrow> [m])
    \<and> (lc_phase l = Loading \<longrightarrow> lc_memory l = [])
    \<and> (lc_gauge l \<longrightarrow> is_loaded l)
    \<and> (lc_phase l = Unloading \<longrightarrow> is_loaded (end_unload False l) \<and> \<not> lc_gauge (end_unload False l)
         \<and> lc_memory (end_unload False l) = lc_memory l \<and> lc_memory (end_unload True l) = [])"
proof -
  have "lifecycle_ok l"
    using assms by (induction rule: rtranclp_induct) (auto intro: lifecycle_ok_init lifecycle_ok_step)
  then show ?thesis by (auto simp: lifecycle_ok_def is_loaded_def end_unload_def)
qed

lemma at_most_one_model_witness:
  "\<exists>l. lifecycle_step\<^sup>*\<^sup>* lifecycle_init l \<and> lc_memory l = [4] \<and> lc_phase l = Unloading \<and> is_loaded (end_unload False l)"
proof -
  let ?l1 = "begin_ensure 1 lifecycle_init"
  let ?l2 = "end_load 2 (Some 4) ?l1" and ?l3 = "begin_unload (end_load 2 (Some 4) (begin_ensure 1 lifecycle_init))"
  have "lifecycle_step lifecycle_init ?l1" by (rule ensure) (simp add: lifecycle_init_def)
  moreover have "lifecycle_step ?l1 ?l2" by (rule loaded) (simp_all add: begin_ensure_def lifecycle_init_def)
  moreover have "lifecycle_step ?l2 ?l3" by (rule unload) (simp add: end_load_def begin_ensure_def lifecycle_init_def)
  ultimately have r: "lifecycle_step\<^sup>*\<^sup>* lifecycle_init ?l3" by (meson converse_rtranclp_into_rtranclp rtranclp.rtrancl_refl)
  moreover have "lc_memory ?l3 = [4]" "lc_phase ?l3 = Unloading"
    by (simp_all add: begin_unload_def end_load_def begin_ensure_def lifecycle_init_def)
  ultimately show ?thesis using at_most_one_model [OF r] by blast
qed

text \<open>
  A sweep of the reaper unloads exactly the models that are loaded and have not been used for the ttl,
  whichever of their unloads raise, leaves every other one as it is, and does nothing when the ttl is
  not positive. Unloading all raises exactly when the unload of some loaded model does, leaving the
  models after it loaded, and otherwise no model stays loaded.
\<close>

theorem reaper_unloads_idle:
  assumes "distinct (keys (mr_models s))"
  shows "dget (mr_models (reap_sweep now returns s)) n =
      map_option (\<lambda>l. if 0 < mr_ttl s \<and> is_idle now (mr_ttl s) l then unload_model (returns n) l else l) (dget (mr_models s) n)
    \<and> (snd (unload_all returns s) \<longleftrightarrow> (\<exists>k l. dget (mr_models s) k = Some l \<and> is_loaded l \<and> \<not> returns k))
    \<and> (\<not> snd (unload_all returns s) \<longrightarrow> (\<forall>k l. dget (mr_models (fst (unload_all returns s))) k = Some l \<longrightarrow> \<not> is_loaded l))"
proof (intro conjI)
  show "dget (mr_models (reap_sweep now returns s)) n =
      map_option (\<lambda>l. if 0 < mr_ttl s \<and> is_idle now (mr_ttl s) l then unload_model (returns n) l else l) (dget (mr_models s) n)"
  proof (cases "n \<in> set (keys (mr_models s))")
    case True
    then show ?thesis using reap_models_exact [OF assms True, of now returns s]
      by (cases "0 < mr_ttl s"; cases "dget (mr_models s) n") (simp_all add: reap_sweep_def)
  next
    case False
    then have "dget (mr_models s) n = None" by (simp only: dget_None_iff not_False_eq_True)
    then show ?thesis using reap_models_other [OF False, of now returns s] by (simp add: reap_sweep_def)
  qed
  have stop: "mr_models (stop_reaper s) = mr_models s" by (simp add: stop_reaper_def)
  have key: "dget (mr_models s) k = Some l \<Longrightarrow> k \<in> set (keys (mr_models s))" for k l
    by (metis dget_None_iff option.distinct(1))
  show "snd (unload_all returns s) \<longleftrightarrow> (\<exists>k l. dget (mr_models s) k = Some l \<and> is_loaded l \<and> \<not> returns k)"
    unfolding unload_all_def unload_models_raises [OF assms] stop using key by blast
  show "\<not> snd (unload_all returns s) \<longrightarrow> (\<forall>k l. dget (mr_models (fst (unload_all returns s))) k = Some l \<longrightarrow> \<not> is_loaded l)"
  proof
    assume "\<not> snd (unload_all returns s)"
    then obtain s' where s': "unload_models returns (keys (mr_models s)) (stop_reaper s) = (s', False)"
      by (metis (full_types) prod.collapse unload_all_def)
    have "\<not> is_loaded l" if "dget (mr_models s') k = Some l" for k l
      using unload_models_all [OF assms s'] that key stop by (metis option.distinct(1) dget_None_iff)
    then show "\<forall>k l. dget (mr_models (fst (unload_all returns s))) k = Some l \<longrightarrow> \<not> is_loaded l"
      unfolding unload_all_def s' by simp
  qed
qed

definition toy_models :: model_registry where
  "toy_models = register_model (py ''stt'') (end_load 10 (Some 1) lifecycle_init)
     (register_model (py ''llm'') (end_load 200 (Some 2) lifecycle_init) model_registry_init)"

lemma reaper_unloads_idle_witness:
  "map_option is_loaded (dget (mr_models (reap_sweep 400 (\<lambda>_. True) toy_models)) (py ''stt'')) = Some False
   \<and> map_option is_loaded (dget (mr_models (reap_sweep 400 (\<lambda>_. True) toy_models)) (py ''llm'')) = Some True"
proof -
  have "distinct (keys (mr_models toy_models))" by (simp add: toy_models_def register_model_def model_registry_init_def)
  from reaper_unloads_idle [OF this, of 400 "\<lambda>_. True"] show ?thesis
    by (simp add: toy_models_def register_model_def model_registry_init_def is_idle_def is_loaded_def unload_model_def
        end_load_def end_unload_def begin_unload_def)
qed

end
