(* ===== verification/HttpClient.thy ===== *)
theory HttpClient
  imports Tenant
begin

text \<open>
  \<open>omkit/httpclient.py\<close>: the request hook that puts the tenant, the service token and the request
  id on every outgoing request, and the factory that attaches it to a client.  The headers of a
  request are httpx's: a parameter, with what its documentation says of reading and setting a header
  as \<open>httpx_ok\<close>.
\<close>

section \<open>The headers of a request\<close>

record 'h httpx =
  hx_has :: "'h \<Rightarrow> pystr \<Rightarrow> bool"
  hx_set :: "'h \<Rightarrow> pystr \<Rightarrow> pystr \<Rightarrow> 'h option"
  hx_raw :: "'h \<Rightarrow> header list"

definition ascii :: "pystr \<Rightarrow> bool" where
  "ascii s = list_all (\<lambda>c. c < 128) s"

text \<open>The name of a header as an ASGI server gives it.\<close>

definition wire_name :: "pystr \<Rightarrow> bytes" where
  "wire_name k = bytes_lower (map byte_of k)"

text \<open>
  Names are compared without regard to case; setting a header replaces its values, changes no other
  header, and does not fail for ASCII text.
\<close>

definition httpx_ok :: "'h httpx \<Rightarrow> bool" where
  "httpx_ok api =
     ((\<forall>h k. ascii k \<longrightarrow> (hx_has api h k \<longleftrightarrow> get_header (hx_raw api h) (wire_name k) \<noteq> None))
      \<and> (\<forall>h k v. ascii k \<longrightarrow> ascii v \<longrightarrow> (\<exists>h'. hx_set api h k v = Some h'
            \<and> get_header (hx_raw api h') (wire_name k) = Some v
            \<and> (\<forall>n. n \<noteq> wire_name k \<longrightarrow> get_header (hx_raw api h') n = get_header (hx_raw api h) n))))"

section \<open>The hook\<close>

definition TENANT_HEADER :: pystr where "TENANT_HEADER = py ''X-Tenant-ID''"
definition TOKEN_HEADER :: pystr where "TOKEN_HEADER = py ''X-Service-Token''"
definition REQUEST_HEADER :: pystr where "REQUEST_HEADER = py ''X-Request-ID''"

text \<open>\<open>if name not in request.headers: if v: request.headers[name] = v\<close>, None when the assignment raises.\<close>

definition set_default :: "'h httpx \<Rightarrow> pystr \<Rightarrow> pystr option \<Rightarrow> 'h \<Rightarrow> 'h option" where
  "set_default api name v h =
     (if hx_has api h name then Some h
      else (case or_none v of None \<Rightarrow> Some h | Some w \<Rightarrow> hx_set api h name w))"

definition request_hook :: "'h httpx \<Rightarrow> pystr option \<Rightarrow> tenant_ctx \<Rightarrow> 'h \<Rightarrow> 'h option" where
  "request_hook api service_token ctx h =
     Option.bind (set_default api TENANT_HEADER (current_or_none ctx) h) (\<lambda>h1.
     Option.bind (set_default api TOKEN_HEADER service_token h1) (\<lambda>h2.
       set_default api REQUEST_HEADER (request_id ctx) h2))"

section \<open>The client\<close>

text \<open>
  A hook is one of the SDK, with the service token it was made for, or one of the caller.  The hooks
  come in a dict that the caller may have made: the factory writes the extended list into that very
  dict, and the client copies it.  The result is the caller's dict and the client's request hooks.
\<close>

datatype hook = SdkHook "pystr option" | CallerHook nat

definition build_tenant_client :: "pystr option \<Rightarrow> (pystr, hook list) dict option \<Rightarrow> (pystr, hook list) dict \<times> hook list" where
  "build_tenant_client service_token kwargs_hooks =
     (let event_hooks = (case kwargs_hooks of None \<Rightarrow> [(py ''request'', [])] | Some d \<Rightarrow> d);
          request_hooks = (case dget event_hooks (py ''request'') of None \<Rightarrow> [] | Some l \<Rightarrow> l);
          request_hooks' = request_hooks @ [SdkHook service_token];
          event_hooks' = dset (py ''request'') request_hooks' event_hooks
      in (event_hooks', request_hooks'))"

text \<open>The client calls its hooks in order before it sends the request; one that raises stops it.\<close>

fun run_hooks :: "'h httpx \<Rightarrow> (nat \<Rightarrow> 'h \<Rightarrow> 'h option) \<Rightarrow> tenant_ctx \<Rightarrow> hook list \<Rightarrow> 'h \<Rightarrow> 'h option" where
  "run_hooks api callers ctx [] h = Some h"
| "run_hooks api callers ctx (SdkHook tok # hs) h = Option.bind (request_hook api tok ctx h) (run_hooks api callers ctx hs)"
| "run_hooks api callers ctx (CallerHook n # hs) h = Option.bind (callers n h) (run_hooks api callers ctx hs)"

section \<open>Lemmas\<close>

lemma header_names [simp]:
  "ascii TENANT_HEADER" "ascii TOKEN_HEADER" "ascii REQUEST_HEADER"
  "wire_name TENANT_HEADER = X_TENANT_ID" "wire_name REQUEST_HEADER = X_REQUEST_ID"
  "wire_name TOKEN_HEADER = bstr ''x-service-token''"
  by (simp_all add: TENANT_HEADER_def TOKEN_HEADER_def REQUEST_HEADER_def ascii_def wire_name_def X_TENANT_ID_def
      X_REQUEST_ID_def py_def bstr_def bytes_lower_def byte_of_def)

lemma header_names_distinct [simp]:
  "X_TENANT_ID \<noteq> X_REQUEST_ID" "X_REQUEST_ID \<noteq> X_TENANT_ID" "X_TENANT_ID \<noteq> bstr ''x-service-token''"
  "bstr ''x-service-token'' \<noteq> X_TENANT_ID" "X_REQUEST_ID \<noteq> bstr ''x-service-token''" "bstr ''x-service-token'' \<noteq> X_REQUEST_ID"
  by (simp_all add: X_TENANT_ID_def X_REQUEST_ID_def bstr_def)

text \<open>What one header is after \<open>set_default\<close>: the caller's value first, then the default.\<close>

definition header_or :: "pystr option \<Rightarrow> pystr option \<Rightarrow> pystr option" where
  "header_or old v = (case old of Some w \<Rightarrow> Some w | None \<Rightarrow> or_none v)"

lemma header_or_simps [simp]:
  "header_or (Some w) v = Some w" "header_or None v = or_none v"
  "header_or (header_or o1 v) v' = header_or o1 (case or_none v of None \<Rightarrow> v' | Some w \<Rightarrow> Some w)"
  by (auto simp: header_or_def or_none_def split: option.splits)

lemma set_default_header:
  assumes "httpx_ok api" "ascii k" "\<forall>w. or_none v = Some w \<longrightarrow> ascii w"
  shows "\<exists>h'. set_default api k v h = Some h'
    \<and> (\<forall>n. get_header (hx_raw api h') n = (if n = wire_name k then header_or (get_header (hx_raw api h) n) v else get_header (hx_raw api h) n))"
proof (cases "get_header (hx_raw api h) (wire_name k)")
  case (Some w)
  then have "hx_has api h k" using assms(1,2) by (simp add: httpx_ok_def)
  then show ?thesis using Some by (auto simp: set_default_def)
next
  case None
  then have none: "\<not> hx_has api h k" using assms(1,2) by (simp add: httpx_ok_def)
  show ?thesis
  proof (cases "or_none v")
    case None
    then show ?thesis using none \<open>get_header _ _ = None\<close> by (auto simp: set_default_def)
  next
    case (Some w)
    then have "\<exists>h'. hx_set api h k w = Some h' \<and> get_header (hx_raw api h') (wire_name k) = Some w
        \<and> (\<forall>n. n \<noteq> wire_name k \<longrightarrow> get_header (hx_raw api h') n = get_header (hx_raw api h) n)"
      using assms unfolding httpx_ok_def by blast
    then show ?thesis using none Some \<open>get_header _ _ = None\<close> by (auto simp: set_default_def)
  qed
qed

text \<open>The three headers a hook leaves.\<close>

lemma request_hook_headers:
  assumes "httpx_ok api" "\<forall>w. or_none (ctx_tenant ctx) = Some w \<longrightarrow> ascii w"
    "\<forall>w. or_none tok = Some w \<longrightarrow> ascii w" "\<forall>w. or_none (ctx_request ctx) = Some w \<longrightarrow> ascii w"
  shows "\<exists>h'. request_hook api tok ctx h = Some h'
    \<and> (\<forall>n. get_header (hx_raw api h') n =
        (if n = X_TENANT_ID then header_or (get_header (hx_raw api h) n) (ctx_tenant ctx)
         else if n = bstr ''x-service-token'' then header_or (get_header (hx_raw api h) n) tok
         else if n = X_REQUEST_ID then header_or (get_header (hx_raw api h) n) (ctx_request ctx)
         else get_header (hx_raw api h) n))"
proof -
  obtain h1 where h1: "set_default api TENANT_HEADER (current_or_none ctx) h = Some h1"
    "\<forall>n. get_header (hx_raw api h1) n = (if n = X_TENANT_ID then header_or (get_header (hx_raw api h) n) (ctx_tenant ctx) else get_header (hx_raw api h) n)"
    using set_default_header [OF assms(1) header_names(1), of "ctx_tenant ctx" h] assms(2) by (auto simp: current_or_none_def)
  obtain h2 where h2: "set_default api TOKEN_HEADER tok h1 = Some h2"
    "\<forall>n. get_header (hx_raw api h2) n = (if n = bstr ''x-service-token'' then header_or (get_header (hx_raw api h1) n) tok else get_header (hx_raw api h1) n)"
    using set_default_header [OF assms(1) header_names(2), of tok h1] assms(3) by auto
  obtain h3 where h3: "set_default api REQUEST_HEADER (request_id ctx) h2 = Some h3"
    "\<forall>n. get_header (hx_raw api h3) n = (if n = X_REQUEST_ID then header_or (get_header (hx_raw api h2) n) (ctx_request ctx) else get_header (hx_raw api h2) n)"
    using set_default_header [OF assms(1) header_names(3), of "ctx_request ctx" h2] assms(4) by (auto simp: request_id_def)
  show ?thesis using h1 h2 h3 by (simp add: request_hook_def)
qed

lemma run_hooks_append:
  "run_hooks api callers ctx (xs @ ys) h = Option.bind (run_hooks api callers ctx xs h) (run_hooks api callers ctx ys)"
proof (induction xs arbitrary: h)
  case (Cons x xs)
  show ?case
    by (cases x) (use Cons in \<open>auto split: Option.bind_split\<close>)
qed simp

section \<open>Properties\<close>

text \<open>
  C6. From one service to the next: a request that a client made by \<open>build_tenant_client\<close> sends in a
  tenant's context, with no tenant header of its own, passes the next service's gate, whose
  application runs under exactly that tenant and under the caller's request id (a header set by the
  caller comes first, and a fresh id is made only when there is neither).
\<close>

theorem tenant_crosses_services:
  assumes "httpx_ok api" "ctx_tenant ctx = Some t" "validate_uuid t" "t \<noteq> []" "ascii t"
    and "\<forall>w. or_none tok = Some w \<longrightarrow> ascii w" "\<forall>w. or_none (ctx_request ctx) = Some w \<longrightarrow> ascii w"
    and "\<not> hx_has api h TENANT_HEADER"
    and "sc_type sc = py ''http''" "scope_path sc \<notin> set (excluded_paths ex)"
  shows "\<exists>h'. run_hooks api callers ctx (snd (build_tenant_client tok None)) h = Some h'
    \<and> (scope_headers sc = hx_raw api h' \<longrightarrow>
        (let rid = (case or_none (header_or (get_header (hx_raw api h) X_REQUEST_ID) (ctx_request ctx)) of None \<Rightarrow> u | Some r \<Rightarrow> r)
         in tenant_call ex app sc u snd_fn ctx0 s =
              (case run_prog (send_with_request_id rid snd_fn) (app sc) \<lparr>ctx_tenant = Some t, ctx_request = Some rid\<rparr> s of
                 (_, s', out) \<Rightarrow> (ctx0, s', out))))"
proof -
  have "\<forall>w. or_none (ctx_tenant ctx) = Some w \<longrightarrow> ascii w" using assms(2,5) by (auto simp: or_none_def split: if_splits)
  from request_hook_headers [OF assms(1) this assms(6,7), of h]
  obtain h' where h': "request_hook api tok ctx h = Some h'"
    "get_header (hx_raw api h') X_TENANT_ID = header_or (get_header (hx_raw api h) X_TENANT_ID) (ctx_tenant ctx)"
    "get_header (hx_raw api h') X_REQUEST_ID = header_or (get_header (hx_raw api h) X_REQUEST_ID) (ctx_request ctx)"
    by auto
  have "get_header (hx_raw api h) X_TENANT_ID = None"
    using assms(1,8) header_names(1,4) unfolding httpx_ok_def by metis
  then have t: "get_header (hx_raw api h') X_TENANT_ID = Some t" using h'(2) assms(2,4) by (simp add: or_none_def)
  have run: "run_hooks api callers ctx (snd (build_tenant_client tok None)) h = Some h'"
    using h'(1) by (simp add: build_tenant_client_def Let_def)
  have "tenant_call ex app sc u snd_fn ctx0 s =
      (case run_prog (send_with_request_id rid snd_fn) (app sc) \<lparr>ctx_tenant = Some t, ctx_request = Some rid\<rparr> s of
         (_, s', out) \<Rightarrow> (ctx0, s', out))"
    if sc: "scope_headers sc = hx_raw api h'"
      and rid: "rid = (case or_none (header_or (get_header (hx_raw api h) X_REQUEST_ID) (ctx_request ctx)) of None \<Rightarrow> u | Some r \<Rightarrow> r)" for rid
  proof -
    have "raw_tenant sc = Some t" using t assms(3,4) sc by (simp add: raw_tenant_def)
    moreover have "raw_request_id sc u = rid" using h'(3) sc rid by (simp add: raw_request_id_def)
    ultimately show ?thesis using tenant_call_bound [OF assms(9,10), of t app u snd_fn ctx0 s] by simp
  qed
  then show ?thesis using run by (auto simp: Let_def)
qed

text \<open>Headers as the list of lower-case names and values that go over the wire.\<close>

definition list_httpx :: "header list httpx" where
  "list_httpx = \<lparr>
     hx_has = (\<lambda>h k. get_header h (wire_name k) \<noteq> None),
     hx_set = (\<lambda>h k v. if ascii v then Some (filter (\<lambda>(n, _). bytes_lower n \<noteq> wire_name k) h @ [(wire_name k, map byte_of v)]) else None),
     hx_raw = (\<lambda>h. h)\<rparr>"

lemma bytes_lower_idem [simp]: "bytes_lower (bytes_lower n) = bytes_lower n"
proof -
  have "65 \<le> unat b \<Longrightarrow> unat b \<le> 90 \<Longrightarrow> \<not> unat (byte_of (unat b + 32)) \<le> 90" for b :: byte by simp
  then show ?thesis by (auto simp: bytes_lower_def)
qed

lemma latin1_ascii: "ascii v \<Longrightarrow> latin1_decode (map byte_of v) = v"
proof -
  assume "ascii v"
  then have "list_all (\<lambda>c. c < 256) v" by (auto simp: ascii_def list_all_iff)
  then show ?thesis using map_unat_byte_of [of v] by (simp add: latin1_decode_def)
qed

lemma list_httpx_ok: "httpx_ok list_httpx"
proof -
  have other: "m \<noteq> wire_name k \<Longrightarrow> get_header (filter (\<lambda>(n, _). bytes_lower n \<noteq> wire_name k) h @ [(wire_name k, w)]) m = get_header h m" for h k m w
    by (induction h) (auto simp: wire_name_def)
  have same: "get_header (filter (\<lambda>(n, _). bytes_lower n \<noteq> wire_name k) h @ [(wire_name k, w)]) (wire_name k) = Some (latin1_decode w)" for h k w
    by (induction h) (auto simp: wire_name_def)
  show ?thesis using other same latin1_ascii by (auto simp: httpx_ok_def list_httpx_def)
qed

lemma tenant_crosses_services_witness:
  "\<exists>h'. run_hooks list_httpx (\<lambda>_. Some) \<lparr>ctx_tenant = Some (uuid_text 7), ctx_request = Some (py ''r1'')\<rparr>
        (snd (build_tenant_client (Some (py ''tok'')) None)) [] = Some h'
     \<and> tenant_call None (\<lambda>_. AskCtx (\<lambda>c. if ctx_tenant c = Some (uuid_text 7) then Finish else Throw 1)) (example_scope h') (uuid_text 0) recorder no_ctx []
        = (no_ctx, [], Returned)"
proof -
  let ?ctx = "\<lparr>ctx_tenant = Some (uuid_text 7), ctx_request = Some (py ''r1'')\<rparr>"
  let ?hs = "snd (build_tenant_client (Some (py ''tok'')) None)"
  let ?h = "the (run_hooks list_httpx (\<lambda>_. Some) ?ctx ?hs [])"
  have a: "ascii (uuid_text 7)" using set_uuid_text [of 7] by (force simp: ascii_def list_all_iff)
  have v: "validate_uuid (uuid_text 7)" by (simp add: validate_uuid_def valid_uuid_def uuid_parse_text)
  have ne: "uuid_text 7 \<noteq> []" by (simp add: uuid_text_def Let_def)
  have h: "\<not> hx_has list_httpx [] TENANT_HEADER" by (simp add: list_httpx_def)
  have r: "\<forall>w. or_none (Some (py ''tok'')) = Some w \<longrightarrow> ascii w" "\<forall>w. or_none (ctx_request ?ctx) = Some w \<longrightarrow> ascii w"
    by (simp_all add: or_none_def ascii_def py_def)
  have p: "sc_type (example_scope hs) = py ''http''" "scope_path (example_scope hs) \<notin> set (excluded_paths None)"
      "scope_headers (example_scope hs) = hs" for hs
    by (simp_all add: example_scope_def scope_path_def excluded_paths_def DEFAULT_EXCLUDE_def scope_headers_def)
  have raw: "hx_raw list_httpx hs = hs" for hs by (simp add: list_httpx_def)
  show ?thesis
    using tenant_crosses_services [OF list_httpx_ok _ v ne a r h p(1,2), of "\<lambda>_. Some" ?h
      "uuid_text 0" "\<lambda>_. AskCtx (\<lambda>c. if ctx_tenant c = Some (uuid_text 7) then Finish else Throw 1)" recorder no_ctx "[]"]
    by (auto simp: p(3) raw or_none_def Let_def)
qed

text \<open>
  The hooks a caller passes are written back into its own dict, so two clients made from one dict
  share them: the second client runs the first one's hook before its own and sends the first one's
  service token, whatever token it was made with; without a dict it sends its own.
\<close>

theorem shared_hooks_send_first_token:
  assumes "httpx_ok api" "ascii a" "ascii b" "a \<noteq> []" "b \<noteq> []"
    and "\<forall>w. or_none (ctx_tenant ctx) = Some w \<longrightarrow> ascii w" "\<forall>w. or_none (ctx_request ctx) = Some w \<longrightarrow> ascii w"
    and "\<not> hx_has api h TOKEN_HEADER"
  shows "\<exists>h1 h2. run_hooks api callers ctx (snd (build_tenant_client (Some b) (Some (fst (build_tenant_client (Some a) (Some [])))))) h = Some h1
    \<and> get_header (hx_raw api h1) (wire_name TOKEN_HEADER) = Some a
    \<and> run_hooks api callers ctx (snd (build_tenant_client (Some b) None)) h = Some h2
    \<and> get_header (hx_raw api h2) (wire_name TOKEN_HEADER) = Some b"
proof -
  note hook = request_hook_headers [OF assms(1,6) _ assms(7)]
  have none: "get_header (hx_raw api h) (bstr ''x-service-token'') = None"
    using assms(1,8) header_names(2,6) unfolding httpx_ok_def by metis
  have asc: "\<forall>w. or_none (Some a) = Some w \<longrightarrow> ascii w" "\<forall>w. or_none (Some b) = Some w \<longrightarrow> ascii w"
    using assms(2-5) by (simp_all add: or_none_def)
  obtain ha where ha: "request_hook api (Some a) ctx h = Some ha" "get_header (hx_raw api ha) (bstr ''x-service-token'') = Some a"
    using hook [OF asc(1), of h] none assms(4) by (auto simp: or_none_def)
  obtain h1 where h1: "request_hook api (Some b) ctx ha = Some h1" "get_header (hx_raw api h1) (bstr ''x-service-token'') = Some a"
    using hook [OF asc(2), of ha] ha(2) by auto
  obtain h2 where h2: "request_hook api (Some b) ctx h = Some h2" "get_header (hx_raw api h2) (bstr ''x-service-token'') = Some b"
    using hook [OF asc(2), of h] none assms(5) by (auto simp: or_none_def)
  show ?thesis using ha h1 h2 by (simp add: build_tenant_client_def Let_def)
qed

lemma shared_hooks_send_first_token_witness:
  "\<exists>h1. run_hooks list_httpx (\<lambda>_. Some) no_ctx
       (snd (build_tenant_client (Some (py ''b'')) (Some (fst (build_tenant_client (Some (py ''a'')) (Some [])))))) [] = Some h1
     \<and> get_header h1 (wire_name TOKEN_HEADER) = Some (py ''a'')"
proof -
  have "ascii (py ''a'')" "ascii (py ''b'')" by (simp_all add: ascii_def py_def)
  moreover have "\<forall>w. or_none (ctx_tenant no_ctx) = Some w \<longrightarrow> ascii w" "\<forall>w. or_none (ctx_request no_ctx) = Some w \<longrightarrow> ascii w"
    by (simp_all add: no_ctx_def or_none_def)
  ultimately show ?thesis
    using shared_hooks_send_first_token [OF list_httpx_ok, of "py ''a''" "py ''b''" no_ctx "[]" "\<lambda>_. Some"]
    by (auto simp: list_httpx_def)
qed


end
