(* ===== verification/Streams.thy ===== *)
theory Streams
  imports EventBus "HOL-Library.Sublist"
begin

text \<open>
  \<open>omkit/valkeystream.py\<close> and \<open>omkit/valkeysub.py\<close>: producers and consumers of a Redis stream with
  consumer groups, and the pub/sub subscriber that reconnects.  The server is the documented one: a
  stream keeps its entries, a group keeps how far it was given entries and the pending ones with
  their consumer and the time they were last given.
\<close>

section \<open>Entry ids\<close>

text \<open>\<open>1700000000000-0\<close>: milliseconds and a sequence number.\<close>

type_synonym entry_id = "nat \<times> nat"

definition id_text :: "entry_id \<Rightarrow> pystr" where
  "id_text i = nat_digits (fst i) @ py ''-'' @ nat_digits (snd i)"

definition id_less :: "entry_id \<Rightarrow> entry_id \<Rightarrow> bool" where
  "id_less i j \<longleftrightarrow> fst i < fst j \<or> fst i = fst j \<and> snd i < snd j"

lemma id_text_inj [simp]: "id_text i = id_text j \<longleftrightarrow> i = j"
proof -
  have d: "takeWhile is_digit (nat_digits n @ py ''-'' @ r) = nat_digits n" for n r
    using nat_digits_digits [of _ n] by (subst takeWhile_append2) (auto simp: py_def is_digit_def)
  show ?thesis
  proof
    assume e: "id_text i = id_text j"
    then have "nat_digits (fst i) = nat_digits (fst j)" unfolding id_text_def by (metis d)
    with e have "i = (fst j, snd j)" by (cases i) (simp add: id_text_def nat_digits_inj)
    then show "i = j" by simp
  qed simp
qed

lemma id_less_irrefl [simp]: "\<not> id_less i i"
  by (simp add: id_less_def)

section \<open>The server\<close>

record stream_entry =
  se_id :: entry_id
  se_fields :: "(bytes, bytes) dict"

record pending_entry =
  pe_entry :: stream_entry
  pe_consumer :: pystr
  pe_since :: nat

record consumer_group =
  cg_given :: nat
  cg_pending :: "pending_entry list"

record redis_server =
  rv_entries :: "stream_entry list"
  rv_groups :: "(pystr, consumer_group) dict"

definition xadd :: "entry_id \<Rightarrow> (bytes, bytes) dict \<Rightarrow> redis_server \<Rightarrow> redis_server" where
  "xadd i fs s = s\<lparr>rv_entries := rv_entries s @ [\<lparr>se_id = i, se_fields = fs\<rparr>]\<rparr>"

definition BUSYGROUP :: pystr where
  "BUSYGROUP = py ''BUSYGROUP Consumer Group name already exists''"

definition xgroup_create :: "pystr \<Rightarrow> redis_server \<Rightarrow> pystr + redis_server" where
  "xgroup_create g s =
     (if dget (rv_groups s) g \<noteq> None then Inl BUSYGROUP
      else Inr (s\<lparr>rv_groups := dset g \<lparr>cg_given = 0, cg_pending = []\<rparr> (rv_groups s)\<rparr>))"

text \<open>\<open>XREADGROUP ... >\<close>: entries the group was never given; None when there is no such group.\<close>

definition give :: "pystr \<Rightarrow> nat \<Rightarrow> stream_entry \<Rightarrow> pending_entry" where
  "give consumer now e = \<lparr>pe_entry = e, pe_consumer = consumer, pe_since = now\<rparr>"

definition xreadgroup :: "pystr \<Rightarrow> pystr \<Rightarrow> nat \<Rightarrow> nat \<Rightarrow> redis_server \<Rightarrow> (redis_server \<times> stream_entry list) option" where
  "xreadgroup g consumer cnt now s =
     (case dget (rv_groups s) g of
        None \<Rightarrow> None
      | Some cg \<Rightarrow>
          let es = take cnt (drop (cg_given cg) (rv_entries s));
              cg' = \<lparr>cg_given = cg_given cg + length es, cg_pending = cg_pending cg @ map (give consumer now) es\<rparr>
          in Some (s\<lparr>rv_groups := dset g cg' (rv_groups s)\<rparr>, es))"

definition xack :: "pystr \<Rightarrow> pystr \<Rightarrow> redis_server \<Rightarrow> redis_server" where
  "xack g msg_id s =
     (case dget (rv_groups s) g of
        None \<Rightarrow> s
      | Some cg \<Rightarrow>
          s\<lparr>rv_groups := dset g (cg\<lparr>cg_pending := filter (\<lambda>p. id_text (se_id (pe_entry p)) \<noteq> msg_id) (cg_pending cg)\<rparr>) (rv_groups s)\<rparr>)"

text \<open>
  \<open>XAUTOCLAIM\<close> from the start of the pending list: it looks at no more than ten times \<open>COUNT\<close>
  pending entries, takes the idle ones among them up to \<open>COUNT\<close>, and gives them to the consumer.
\<close>

definition idle :: "nat \<Rightarrow> nat \<Rightarrow> pending_entry \<Rightarrow> bool" where
  "idle min_idle now p \<longleftrightarrow> pe_since p + min_idle \<le> now"

definition claimable :: "nat \<Rightarrow> nat \<Rightarrow> nat \<Rightarrow> pending_entry list \<Rightarrow> pending_entry list" where
  "claimable min_idle cnt now ps = take cnt (filter (idle min_idle now) (take (10 * cnt) ps))"

definition reassign :: "pystr \<Rightarrow> nat \<Rightarrow> pending_entry list \<Rightarrow> pending_entry list \<Rightarrow> pending_entry list" where
  "reassign consumer now cs ps =
     map (\<lambda>p. if p \<in> set cs then give consumer now (pe_entry p) else p) ps"

definition xautoclaim ::
    "pystr \<Rightarrow> pystr \<Rightarrow> nat \<Rightarrow> nat \<Rightarrow> nat \<Rightarrow> redis_server \<Rightarrow> (redis_server \<times> stream_entry list) option" where
  "xautoclaim g consumer min_idle cnt now s =
     (case dget (rv_groups s) g of
        None \<Rightarrow> None
      | Some cg \<Rightarrow>
          let cs = claimable min_idle cnt now (cg_pending cg);
              cg' = cg\<lparr>cg_pending := reassign consumer now cs (cg_pending cg)\<rparr>
          in Some (s\<lparr>rv_groups := dset g cg' (rv_groups s)\<rparr>, map pe_entry cs))"

section \<open>The client library\<close>

text \<open>A text is sent as UTF-8; what comes back is bytes, or text when the client decodes.  None is an exception.\<close>

fun encode_value :: "rvalue \<Rightarrow> bytes option" where
  "encode_value (RBytes bs) = Some bs"
| "encode_value (RText t) = utf8_encode t"

definition reply_value :: "bool \<Rightarrow> bytes \<Rightarrow> rvalue option" where
  "reply_value decodes bs = (if decodes then map_option RText (utf8_decode False bs) else Some (RBytes bs))"

fun all_some :: "'a option list \<Rightarrow> 'a list option" where
  "all_some [] = Some []"
| "all_some (None # xs) = None"
| "all_some (Some x # xs) = map_option (Cons x) (all_some xs)"

definition pair_some :: "'a option \<times> 'b option \<Rightarrow> ('a \<times> 'b) option" where
  "pair_some p = (case p of (Some a, Some b) \<Rightarrow> Some (a, b) | _ \<Rightarrow> None)"

definition reply_fields :: "bool \<Rightarrow> (bytes, bytes) dict \<Rightarrow> rfields option" where
  "reply_fields decodes fs =
     map_option dict_of (all_some (map (\<lambda>(k, v). pair_some (reply_value decodes k, reply_value decodes v)) fs))"

definition reply_entry :: "bool \<Rightarrow> stream_entry \<Rightarrow> (rvalue \<times> rfields) option" where
  "reply_entry decodes e =
     pair_some (reply_value decodes (map byte_of (id_text (se_id e))), reply_fields decodes (se_fields e))"

section \<open>StreamProducer and StreamConsumer\<close>

record message =
  mg_id :: pystr
  mg_fields :: "(pystr, bytes) dict"

text \<open>Decoding of bytes, encoding of text; the branch for other values is never taken on a reply.\<close>

definition normalize_fields :: "rfields \<Rightarrow> (pystr, bytes) dict option" where
  "normalize_fields raw =
     map_option dict_of (all_some (map (\<lambda>(k, v).
        pair_some (case k of RBytes bs \<Rightarrow> utf8_decode False bs | RText t \<Rightarrow> Some t, encode_value v)) raw))"

definition coerce_id :: "rvalue \<Rightarrow> pystr option" where
  "coerce_id v = (case v of RBytes bs \<Rightarrow> utf8_decode False bs | RText t \<Rightarrow> Some t)"

definition message_from_pair :: "rvalue \<times> rfields \<Rightarrow> message option" where
  "message_from_pair item =
     (case (coerce_id (fst item), normalize_fields (snd item)) of
        (Some i, Some fs) \<Rightarrow> Some \<lparr>mg_id = i, mg_fields = fs\<rparr>
      | _ \<Rightarrow> None)"

definition flatten :: "(rvalue \<times> (rvalue \<times> rfields) list) list option \<Rightarrow> message list option" where
  "flatten resp =
     (case resp of
        None \<Rightarrow> Some []
      | Some rs \<Rightarrow> map_option concat (all_some (map (\<lambda>(_, entries). all_some (map message_from_pair entries)) rs)))"

text \<open>\<open>add\<close>: the client refuses an entry without fields and a text it cannot encode.\<close>

definition stream_add :: "bool \<Rightarrow> entry_id \<Rightarrow> (pystr, rvalue) dict \<Rightarrow> redis_server \<Rightarrow> (redis_server \<times> pystr) option" where
  "stream_add decodes i kvs s =
     (if kvs = [] then None
      else (case all_some (map (\<lambda>(k, v). pair_some (utf8_encode k, encode_value v)) kvs) of
          None \<Rightarrow> None
        | Some fs \<Rightarrow>
            (case Option.bind (reply_value decodes (map byte_of (id_text i))) coerce_id of
               None \<Rightarrow> None
             | Some t \<Rightarrow> Some (xadd i fs s, t))))"

record stream_consumer =
  sc_stream :: pystr
  sc_group :: pystr
  sc_consumer :: pystr
  sc_block_ms :: nat
  sc_count :: nat

text \<open>\<open>ensure_group\<close>: an error of the connection, as its text, or the server's answer; only \<open>BUSYGROUP\<close> is swallowed.\<close>

definition ensure_group :: "stream_consumer \<Rightarrow> pystr option \<Rightarrow> redis_server \<Rightarrow> redis_server \<times> pystr option" where
  "ensure_group c outage s =
     (case (case outage of Some msg \<Rightarrow> Inl msg | None \<Rightarrow> xgroup_create (sc_group c) s) of
        Inr s' \<Rightarrow> (s', None)
      | Inl msg \<Rightarrow> (s, if sublist (py ''BUSYGROUP'') msg then None else Some msg))"

text \<open>
  What a read comes back with: an exception, nothing yet (with \<open>block=0\<close> the server waits for an
  entry without limit), or the messages.
\<close>

datatype read_result = ReadRaises | ReadWaits | ReadGot "message list"

definition got :: "message list option \<Rightarrow> read_result" where
  "got ms = (case ms of None \<Rightarrow> ReadRaises | Some l \<Rightarrow> ReadGot l)"

definition read_response :: "bool \<Rightarrow> pystr \<Rightarrow> stream_entry list \<Rightarrow> (rvalue \<times> (rvalue \<times> rfields) list) list option option" where
  "read_response decodes stream es =
     (if es = [] then Some None
      else (case pair_some (encode_value (RText stream), all_some (map (reply_entry decodes) es)) of
          None \<Rightarrow> None
        | Some (n, entries) \<Rightarrow> map_option (\<lambda>name. Some [(name, entries)]) (reply_value decodes n)))"

definition stream_read :: "bool \<Rightarrow> stream_consumer \<Rightarrow> nat \<Rightarrow> redis_server \<Rightarrow> redis_server \<times> read_result" where
  "stream_read decodes c now s =
     (case xreadgroup (sc_group c) (sc_consumer c) (sc_count c) now s of
        None \<Rightarrow> (s, ReadRaises)
      | Some (s', es) \<Rightarrow>
          (s', if es = [] \<and> sc_block_ms c = 0 then ReadWaits
               else got (Option.bind (read_response decodes (sc_stream c) es) flatten)))"

definition stream_ack :: "stream_consumer \<Rightarrow> pystr \<Rightarrow> redis_server \<Rightarrow> redis_server" where
  "stream_ack c msg_id s = xack (sc_group c) msg_id s"

definition claim_stale :: "bool \<Rightarrow> stream_consumer \<Rightarrow> nat \<Rightarrow> nat \<Rightarrow> redis_server \<Rightarrow> redis_server \<times> message list option" where
  "claim_stale decodes c idle_ms now s =
     (case xautoclaim (sc_group c) (sc_consumer c) idle_ms (sc_count c) now s of
        None \<Rightarrow> (s, None)
      | Some (s', es) \<Rightarrow>
          (s', Option.bind (all_some (map (reply_entry decodes) es)) (\<lambda>claimed. all_some (map message_from_pair claimed))))"

section \<open>Lemmas\<close>

lemma all_some_map: "(\<And>x. x \<in> set xs \<Longrightarrow> f x = Some (g x)) \<Longrightarrow> all_some (map f xs) = Some (map g xs)"
  by (induction xs) auto

lemma all_some_SomeD: "all_some (map f xs) = Some ys \<Longrightarrow> (\<forall>x \<in> set xs. f x \<noteq> None) \<and> ys = map (the \<circ> f) xs"
proof (induction xs arbitrary: ys)
  case (Cons x xs)
  then show ?case by (cases "f x") auto
qed simp

lemma pair_some_Some [simp]: "pair_some (Some a, Some b) = Some (a, b)"
  by (simp add: pair_some_def)

lemma pair_some_None_iff [simp]: "pair_some (x, y) \<noteq> None \<longleftrightarrow> x \<noteq> None \<and> y \<noteq> None"
  by (auto simp: pair_some_def split: option.splits)

lemma id_text_ascii: "list_all (\<lambda>c. c < 128) (id_text i)"
proof -
  have "c \<in> set (nat_digits n) \<Longrightarrow> c < 128" for c n using nat_digits_digits [of c n] by (simp add: is_digit_def)
  then show ?thesis by (auto simp: id_text_def list_all_iff py_def)
qed

lemma coerce_reply_id: "Option.bind (reply_value decodes (map byte_of (id_text i))) coerce_id = Some (id_text i)"
proof -
  have "utf8_decode False (map byte_of (id_text i)) = Some (id_text i)"
    by (rule utf8_decode_encode) (rule utf8_encode_ascii [OF id_text_ascii])
  then show ?thesis by (simp add: reply_value_def coerce_id_def)
qed

text \<open>A value survives the server: what was encoded is what \<open>normalize_fields\<close> gives back.\<close>

definition readable :: "bool \<Rightarrow> rvalue \<Rightarrow> bool" where
  "readable decodes v = (case v of RText t \<Rightarrow> True | RBytes bs \<Rightarrow> decodes \<longrightarrow> utf8_decode False bs \<noteq> None)"

definition reply_of :: "bool \<Rightarrow> bytes \<Rightarrow> rvalue" where
  "reply_of decodes bs = (if decodes then RText (the (utf8_decode False bs)) else RBytes bs)"

lemma value_back:
  assumes "encode_value v = Some bs" "readable decodes v"
  shows "reply_value decodes bs = Some (reply_of decodes bs)" "encode_value (reply_of decodes bs) = Some bs"
proof -
  have "reply_value decodes bs = Some (reply_of decodes bs) \<and> encode_value (reply_of decodes bs) = Some bs"
  proof (cases decodes)
    case True
    have "utf8_decode False bs \<noteq> None"
      using assms True utf8_decode_encode [of _ bs False] by (cases v) (auto simp: readable_def)
    then obtain t where "utf8_decode False bs = Some t" by blast
    then show ?thesis using True utf8_encode_decode [of bs t] by (simp add: reply_value_def reply_of_def)
  qed (simp add: reply_value_def reply_of_def)
  then show "reply_value decodes bs = Some (reply_of decodes bs)" "encode_value (reply_of decodes bs) = Some bs" by blast+
qed

lemma key_back:
  assumes "utf8_encode k = Some bs"
  shows "reply_value decodes bs = Some (reply_of decodes bs)" "coerce_id (reply_of decodes bs) = Some k"
  using utf8_decode_encode [OF assms] by (simp_all add: reply_value_def reply_of_def coerce_id_def)

lemma message_back:
  assumes "distinct (keys kvs)" "\<forall>(k, v) \<in> set kvs. readable decodes v"
    and "all_some (map (\<lambda>(k, v). pair_some (utf8_encode k, encode_value v)) kvs) = Some fs"
  shows "Option.bind (reply_entry decodes \<lparr>se_id = i, se_fields = fs\<rparr>) message_from_pair
    = Some \<lparr>mg_id = id_text i, mg_fields = map (\<lambda>(k, v). (k, the (encode_value v))) kvs\<rparr>"
proof -
  let ?enc = "\<lambda>(k, v). (the (utf8_encode k), the (encode_value v))"
  let ?rep = "\<lambda>(k, v). (reply_of decodes (the (utf8_encode k)), reply_of decodes (the (encode_value v)))"
  have ok: "utf8_encode k = Some (the (utf8_encode k)) \<and> encode_value v = Some (the (encode_value v)) \<and> readable decodes v"
    if "(k, v) \<in> set kvs" for k v
  proof -
    have "pair_some (utf8_encode k, encode_value v) \<noteq> None" using all_some_SomeD [OF assms(3)] that by (auto dest: bspec)
    moreover have "readable decodes v" using assms(2) that by (auto dest: bspec)
    ultimately show ?thesis by (auto simp: pair_some_def split: option.splits)
  qed
  have fs: "fs = map ?enc kvs"
  proof -
    have "pair_some (utf8_encode k, encode_value v) = Some (the (utf8_encode k), the (encode_value v))" if "(k, v) \<in> set kvs" for k v
      using ok [OF that] pair_some_Some by metis
    then show ?thesis using all_some_SomeD [OF assms(3)] by (auto simp: case_prod_unfold)
  qed
  have "all_some (map (\<lambda>(k, v). pair_some (reply_value decodes k, reply_value decodes v)) fs) = Some (map ?rep kvs)"
    unfolding fs map_map
  proof (rule all_some_map)
    fix x assume in_kvs: "x \<in> set kvs"
    obtain k v where "x = (k, v)" by (cases x)
    with in_kvs have x: "x = (k, v)" "(k, v) \<in> set kvs" by simp_all
    show "((\<lambda>(k, v). pair_some (reply_value decodes k, reply_value decodes v)) \<circ> ?enc) x = Some (?rep x)"
      using key_back(1) [of k "the (utf8_encode k)" decodes] value_back(1) [of v "the (encode_value v)" decodes] ok [OF x(2)] x(1) by simp
  qed
  moreover have "inj_on (\<lambda>k. reply_of decodes (the (utf8_encode k))) (set (keys kvs))"
  proof (rule inj_onI)
    fix a b assume ab: "a \<in> set (keys kvs)" "b \<in> set (keys kvs)" "reply_of decodes (the (utf8_encode a)) = reply_of decodes (the (utf8_encode b))"
    have decoded: "coerce_id (reply_of decodes (the (utf8_encode c))) = Some c" if c: "c \<in> set (keys kvs)" for c
    proof -
      obtain p where "p \<in> set kvs" "c = fst p" using c by auto
      then have "(c, snd p) \<in> set kvs" by simp
      then show ?thesis using ok [of c "snd p"] key_back(2) by blast
    qed
    show "a = b" using decoded [OF ab(1)] decoded [OF ab(2)] ab(3) by (metis option.inject)
  qed
  then have "distinct (keys (map ?rep kvs))"
    using assms(1) by (simp add: distinct_map comp_def case_prod_unfold) (auto simp: inj_on_def)
  ultimately have rf: "reply_fields decodes fs = Some (map ?rep kvs)" by (simp add: reply_fields_def dict_of_distinct)
  have "all_some (map (\<lambda>(k, v). pair_some (case k of RBytes bs \<Rightarrow> utf8_decode False bs | RText t \<Rightarrow> Some t, encode_value v)) (map ?rep kvs))
      = Some (map (\<lambda>(k, v). (k, the (encode_value v))) kvs)"
    unfolding map_map
  proof (rule all_some_map)
    fix x assume in_kvs: "x \<in> set kvs"
    obtain k v where "x = (k, v)" by (cases x)
    with in_kvs have x: "x = (k, v)" "(k, v) \<in> set kvs" by simp_all
    show "((\<lambda>(k, v). pair_some (case k of RBytes bs \<Rightarrow> utf8_decode False bs | RText t \<Rightarrow> Some t, encode_value v)) \<circ> ?rep) x
        = Some ((\<lambda>(k, v). (k, the (encode_value v))) x)"
    proof -
      have "coerce_id (reply_of decodes (the (utf8_encode k))) = Some k"
        and "encode_value (reply_of decodes (the (encode_value v))) = Some (the (encode_value v))"
        using key_back(2) [of k "the (utf8_encode k)" decodes] value_back(2) [of v "the (encode_value v)" decodes] ok [OF x(2)] by blast+
      then show ?thesis unfolding x(1) coerce_id_def by (simp only: comp_apply prod.case pair_some_Some)
    qed
  qed
  moreover have "distinct (keys (map (\<lambda>(k, v). (k, the (encode_value v))) kvs))"
    using assms(1) by (simp add: case_prod_unfold comp_def)
  ultimately have "normalize_fields (map ?rep kvs) = Some (map (\<lambda>(k, v). (k, the (encode_value v))) kvs)"
    by (simp add: normalize_fields_def dict_of_distinct)
  then show ?thesis using rf coerce_reply_id [of decodes i]
    by (auto simp: reply_entry_def message_from_pair_def bind_eq_Some_conv)
qed


section \<open>Producers and consumers on one stream\<close>

text \<open>The server together with every acknowledgement that was made, as the group and the text of the id.\<close>

record stream_world =
  sw_server :: redis_server
  sw_acked :: "(pystr \<times> pystr) list"

definition stream_init :: stream_world where
  "stream_init = \<lparr>sw_server = \<lparr>rv_entries = [], rv_groups = []\<rparr>, sw_acked = []\<rparr>"

inductive stream_step :: "stream_world \<Rightarrow> stream_world \<Rightarrow> bool" where
  s_add: "\<forall>e \<in> set (rv_entries (sw_server w)). id_less (se_id e) i \<Longrightarrow> stream_add decodes i kvs (sw_server w) = Some (s', t) \<Longrightarrow>
    stream_step w (w\<lparr>sw_server := s'\<rparr>)"
| s_group: "stream_step w (w\<lparr>sw_server := fst (ensure_group c outage (sw_server w))\<rparr>)"
| s_read: "stream_step w (w\<lparr>sw_server := fst (stream_read decodes c now (sw_server w))\<rparr>)"
| s_ack: "stream_step w (w\<lparr>sw_server := stream_ack c m (sw_server w), sw_acked := (sc_group c, m) # sw_acked w\<rparr>)"
| s_claim: "stream_step w (w\<lparr>sw_server := fst (claim_stale decodes c idle_ms now (sw_server w))\<rparr>)"

text \<open>A group accounts for every entry it was given: it is pending, once, or was acknowledged.\<close>

definition group_ok :: "stream_entry list \<Rightarrow> (pystr \<times> pystr) list \<Rightarrow> pystr \<Rightarrow> consumer_group \<Rightarrow> bool" where
  "group_ok es acked g cg \<longleftrightarrow>
     cg_given cg \<le> length es
     \<and> distinct (map pe_entry (cg_pending cg))
     \<and> pe_entry ` set (cg_pending cg) \<subseteq> set (take (cg_given cg) es)
     \<and> (\<forall>e \<in> set (take (cg_given cg) es). e \<in> pe_entry ` set (cg_pending cg) \<or> (g, id_text (se_id e)) \<in> set acked)"

definition stream_ok :: "stream_world \<Rightarrow> bool" where
  "stream_ok w \<longleftrightarrow> distinct (map se_id (rv_entries (sw_server w)))
     \<and> (\<forall>g cg. dget (rv_groups (sw_server w)) g = Some cg \<longrightarrow> group_ok (rv_entries (sw_server w)) (sw_acked w) g cg)"

text \<open>Each call of the server changes at most one group.\<close>

lemma stream_ok_group:
  assumes "stream_ok w" "group_ok (rv_entries (sw_server w)) (sw_acked w) g cg"
  shows "stream_ok (w\<lparr>sw_server := (sw_server w)\<lparr>rv_groups := dset g cg (rv_groups (sw_server w))\<rparr>\<rparr>)"
  using assms by (auto simp: stream_ok_def)

lemma pe_entry_give [simp]: "pe_entry (give c now e) = e"
  by (simp add: give_def)

lemma pe_entry_reassign [simp]: "map pe_entry (reassign c now cs ps) = map pe_entry ps"
  by (simp add: reassign_def)

lemma group_ok_give:
  fixes n :: nat
  assumes "distinct (map se_id es)" "group_ok es acked g cg"
  defines "new \<equiv> take n (drop (cg_given cg) es)"
  shows "group_ok es acked g \<lparr>cg_given = cg_given cg + length new, cg_pending = cg_pending cg @ map (give c now) new\<rparr>"
proof -
  have tk: "take (cg_given cg + length new) es = take (cg_given cg) es @ new"
    unfolding new_def by (simp add: take_add min_def)
  have de: "distinct es" using assms(1) by (rule distinct_map [THEN iffD1, THEN conjunct1])
  then have d: "distinct (take (cg_given cg) es @ new)" by (simp add: tk [symmetric])
  have "set new \<inter> pe_entry ` set (cg_pending cg) = {}" using d assms(2) unfolding group_ok_def by auto
  then have "distinct (map pe_entry (cg_pending cg @ map (give c now) new))"
    using assms(2) d by (auto simp: group_ok_def comp_def)
  moreover have "cg_given cg + length new \<le> length es" using assms(2) by (auto simp: new_def group_ok_def)
  ultimately show ?thesis using assms(2) unfolding group_ok_def by (auto simp: tk image_image image_Un)
qed

lemma group_ok_drop:
  assumes "group_ok es acked g cg"
  shows "group_ok es ((g, m) # acked) g (cg\<lparr>cg_pending := filter (\<lambda>p. id_text (se_id (pe_entry p)) \<noteq> m) (cg_pending cg)\<rparr>)"
  using assms unfolding group_ok_def by (auto simp: distinct_map inj_on_def image_iff)

lemma group_ok_more_acks: "group_ok es acked g cg \<Longrightarrow> group_ok es (a # acked) g cg"
  by (auto simp: group_ok_def)

lemma group_ok_reassign:
  assumes "group_ok es acked g cg"
  shows "group_ok es acked g (cg\<lparr>cg_pending := reassign c now cs (cg_pending cg)\<rparr>)"
proof -
  have "pe_entry ` set (reassign c now cs ps) = pe_entry ` set ps" for ps
    by (metis list.set_map pe_entry_reassign)
  then show ?thesis using assms by (simp add: group_ok_def)
qed

lemma group_ok_add: "group_ok es acked g cg \<Longrightarrow> group_ok (es @ [e]) acked g cg"
  by (auto simp: group_ok_def)

lemma stream_ok_step:
  assumes "stream_step w w'" "stream_ok w"
  shows "stream_ok w'"
  using assms(1)
proof (cases rule: stream_step.cases)
  case (s_add i decodes kvs s' t)
  then obtain fs where "s' = xadd i fs (sw_server w)" by (auto simp: stream_add_def split: if_splits option.splits)
  moreover have "i \<notin> se_id ` set (rv_entries (sw_server w))" using s_add(2) id_less_irrefl by blast
  ultimately show ?thesis using assms(2) s_add(1) by (auto simp: stream_ok_def xadd_def group_ok_add)
next
  case (s_group c outage)
  have "group_ok es acked g \<lparr>cg_given = 0, cg_pending = []\<rparr>" for es acked g by (simp add: group_ok_def)
  then show ?thesis using s_group assms(2) stream_ok_group [OF assms(2)]
    by (auto simp: ensure_group_def xgroup_create_def split: sum.splits option.splits if_splits)
next
  case (s_read decodes c now)
  show ?thesis
  proof (cases "dget (rv_groups (sw_server w)) (sc_group c)")
    case None
    then show ?thesis using s_read assms(2) by (simp add: stream_read_def xreadgroup_def)
  next
    case (Some cg)
    then have "group_ok (rv_entries (sw_server w)) (sw_acked w) (sc_group c) cg" "distinct (map se_id (rv_entries (sw_server w)))"
      using assms(2) unfolding stream_ok_def by blast+
    from stream_ok_group [OF assms(2) group_ok_give [OF this(2,1)]] show ?thesis
      using s_read Some by (simp add: stream_read_def xreadgroup_def Let_def)
  qed
next
  case (s_ack c m)
  have ok: "\<And>g cg. dget (rv_groups (sw_server w)) g = Some cg \<Longrightarrow> group_ok (rv_entries (sw_server w)) (sw_acked w) g cg"
    using assms(2) unfolding stream_ok_def by blast
  show ?thesis
    using s_ack assms(2) by (auto simp: stream_ok_def stream_ack_def xack_def intro!: group_ok_more_acks group_ok_drop dest: ok
        split: option.splits if_splits)
next
  case (s_claim decodes c idle_ms now)
  show ?thesis
  proof (cases "dget (rv_groups (sw_server w)) (sc_group c)")
    case None
    then show ?thesis using s_claim assms(2) by (simp add: claim_stale_def xautoclaim_def)
  next
    case (Some cg)
    then have "group_ok (rv_entries (sw_server w)) (sw_acked w) (sc_group c) cg"
      using assms(2) unfolding stream_ok_def by blast
    from stream_ok_group [OF assms(2) group_ok_reassign [OF this]] show ?thesis
      using s_claim Some by (simp add: claim_stale_def xautoclaim_def Let_def)
  qed
qed

lemma stream_ok_reach: "stream_step\<^sup>*\<^sup>* stream_init w \<Longrightarrow> stream_ok w"
proof (induction rule: rtranclp_induct)
  case base
  show ?case by (simp add: stream_ok_def stream_init_def)
qed (rule stream_ok_step)

section \<open>Properties\<close>


text \<open>
  Taking over stale messages: a claim returns to this consumer the first idle pending entries among
  the oldest ten batches, at most a batch of them, makes this consumer their owner as of now, and
  changes no other pending entry; so with at most a batch pending it takes all idle ones.  But it
  always starts at the oldest pending entry: while ten batches of younger deliveries precede them,
  idle entries are never claimed, however often it is called.
\<close>

theorem claim_takes_over:
  fixes idle_ms now :: nat
  assumes "dget (rv_groups s) (sc_group c) = Some cg"
  defines "cs \<equiv> claimable idle_ms (sc_count c) now (cg_pending cg)"
  shows "dget (rv_groups (fst (claim_stale decodes c idle_ms now s))) (sc_group c)
        = Some (cg\<lparr>cg_pending := map (\<lambda>p. if p \<in> set cs then \<lparr>pe_entry = pe_entry p, pe_consumer = sc_consumer c, pe_since = now\<rparr> else p) (cg_pending cg)\<rparr>)
    \<and> snd (claim_stale decodes c idle_ms now s) = all_some (map (\<lambda>p. Option.bind (reply_entry decodes (pe_entry p)) message_from_pair) cs)
    \<and> length cs \<le> sc_count c \<and> set cs \<subseteq> {p \<in> set (cg_pending cg). pe_since p + idle_ms \<le> now}
    \<and> (length (cg_pending cg) \<le> sc_count c \<longrightarrow> set cs = {p \<in> set (cg_pending cg). pe_since p + idle_ms \<le> now})
    \<and> ((\<forall>p \<in> set (take (10 * sc_count c) (cg_pending cg)). now < pe_since p + idle_ms) \<longrightarrow>
        snd (claim_stale decodes c idle_ms now s) = Some []
        \<and> dget (rv_groups (fst (claim_stale decodes c idle_ms now s))) (sc_group c) = Some cg)"
proof -
  have all_bind: "Option.bind (all_some (map f xs)) (\<lambda>ys. all_some (map g ys)) = all_some (map (\<lambda>x. Option.bind (f x) g) xs)" for f g xs
  proof (induction xs)
    case (Cons x xs)
    show ?case
    proof (cases "f x")
      case (Some y)
      show ?thesis using Cons Some by (cases "g y"; cases "all_some (map f xs)") auto
    qed simp
  qed simp
  have res: "dget (rv_groups (fst (claim_stale decodes c idle_ms now s))) (sc_group c) = Some (cg\<lparr>cg_pending := reassign (sc_consumer c) now cs (cg_pending cg)\<rparr>)"
    "snd (claim_stale decodes c idle_ms now s) = all_some (map (\<lambda>p. Option.bind (reply_entry decodes (pe_entry p)) message_from_pair) cs)"
    using assms(1) by (simp_all add: claim_stale_def xautoclaim_def Let_def cs_def all_bind comp_def)
  have sub: "set cs \<subseteq> {p \<in> set (cg_pending cg). pe_since p + idle_ms \<le> now}"
    by (auto simp: cs_def claimable_def idle_def dest!: in_set_takeD)
  have all: "set cs = {p \<in> set (cg_pending cg). pe_since p + idle_ms \<le> now}" if "length (cg_pending cg) \<le> sc_count c"
    using that le_trans [OF length_filter_le that] by (auto simp: cs_def claimable_def idle_def)
  have "cs = []" if "\<forall>p \<in> set (take (10 * sc_count c) (cg_pending cg)). now < pe_since p + idle_ms"
    using that by (auto simp: cs_def claimable_def idle_def filter_empty_conv)
  then have none: "snd (claim_stale decodes c idle_ms now s) = Some [] \<and> reassign (sc_consumer c) now cs (cg_pending cg) = cg_pending cg"
    if "\<forall>p \<in> set (take (10 * sc_count c) (cg_pending cg)). now < pe_since p + idle_ms"
    using that res(2) by (simp add: reassign_def)
  have "length cs \<le> sc_count c" by (simp add: cs_def claimable_def)
  then show ?thesis using res sub all none by (auto simp: reassign_def give_def)
qed

definition toy_consumer :: stream_consumer where
  "toy_consumer = \<lparr>sc_stream = py ''jobs'', sc_group = py ''g'', sc_consumer = py ''c1'', sc_block_ms = 0, sc_count = 2\<rparr>"

definition toy_entry :: "nat \<Rightarrow> stream_entry" where
  "toy_entry n = \<lparr>se_id = (n, 0), se_fields = [(bstr ''payload'', [7])]\<rparr>"

definition toy_stream :: "stream_entry list \<Rightarrow> consumer_group \<Rightarrow> redis_server" where
  "toy_stream es cg = \<lparr>rv_entries = es, rv_groups = [(py ''g'', cg)]\<rparr>"

lemma toy_stream_add: "stream_add False (n, 0) [(py ''payload'', RBytes [7])] s = Some (xadd (n, 0) [(bstr ''payload'', [7])] s, id_text (n, 0))"
proof -
  have "utf8_encode (py ''payload'') = Some (bstr ''payload'')"
    by (simp add: py_def bstr_def utf8_enc1_def byte_of_def)
  then show ?thesis using coerce_reply_id [of False "(n, 0)"] by (simp add: stream_add_def)
qed

lemma toy_stream_reach: "stream_step\<^sup>*\<^sup>* stream_init \<lparr>sw_server = toy_stream [toy_entry 5] \<lparr>cg_given = 0, cg_pending = []\<rparr>, sw_acked = []\<rparr>"
proof -
  let ?s0 = "\<lparr>rv_entries = [toy_entry 5], rv_groups = []\<rparr>"
  have "stream_step stream_init \<lparr>sw_server = ?s0, sw_acked = []\<rparr>"
    using s_add [of stream_init "(5, 0)" False "[(py ''payload'', RBytes [7])]"]
    by (simp add: toy_stream_add stream_init_def xadd_def toy_entry_def)
  moreover have "stream_step \<lparr>sw_server = ?s0, sw_acked = []\<rparr> \<lparr>sw_server = toy_stream [toy_entry 5] \<lparr>cg_given = 0, cg_pending = []\<rparr>, sw_acked = []\<rparr>"
    using s_group [of "\<lparr>sw_server = ?s0, sw_acked = []\<rparr>" toy_consumer None]
    by (simp add: ensure_group_def xgroup_create_def toy_consumer_def toy_stream_def)
  ultimately show ?thesis by (meson converse_rtranclp_into_rtranclp rtranclp.rtrancl_refl)
qed


lemma claim_takes_over_witness:
  "dget (rv_groups (fst (claim_stale False toy_consumer 60 100
       (toy_stream [toy_entry 5] \<lparr>cg_given = 1, cg_pending = [\<lparr>pe_entry = toy_entry 5, pe_consumer = py ''dead'', pe_since = 10\<rparr>]\<rparr>)))) (py ''g'')
     = Some \<lparr>cg_given = 1, cg_pending = [\<lparr>pe_entry = toy_entry 5, pe_consumer = py ''c1'', pe_since = 100\<rparr>]\<rparr>"
proof -
  let ?cg = "\<lparr>cg_given = 1, cg_pending = [\<lparr>pe_entry = toy_entry 5, pe_consumer = py ''dead'', pe_since = 10\<rparr>]\<rparr>"
  have "dget (rv_groups (toy_stream [toy_entry 5] ?cg)) (sc_group toy_consumer) = Some ?cg"
    by (simp add: toy_stream_def toy_consumer_def)
  from claim_takes_over [OF this, where idle_ms = 60 and now = 100 and decodes = False] show ?thesis
    by (simp add: toy_consumer_def claimable_def idle_def)
qed

text \<open>
  What a producer adds, a consumer reads: the next read of a group that was given everything
  before hands over one message with the id that \<open>add\<close> returned and the same fields, keys as text and
  values as bytes, whether or not the two clients decode replies (a decoding client must find UTF-8).
  With nothing to read, a read returns no message, except with \<open>block_ms\<close> 0, which waits.
\<close>

theorem stream_read_back:
  assumes "distinct (keys kvs)" "\<forall>(k, v) \<in> set kvs. readable decodes v" "list_all valid_cp (sc_stream c)" "0 < sc_count c"
    and "dget (rv_groups s) (sc_group c) = Some cg" "cg_given cg = length (rv_entries s)"
    and "stream_add decodes' i kvs s = Some (s', t)"
  shows "snd (stream_read decodes c now s') = ReadGot [\<lparr>mg_id = t, mg_fields = map (\<lambda>(k, v). (k, the (encode_value v))) kvs\<rparr>]
    \<and> snd (stream_read decodes c now s) = (if sc_block_ms c = 0 then ReadWaits else ReadGot [])"
proof -
  obtain fs where fs: "all_some (map (\<lambda>(k, v). pair_some (utf8_encode k, encode_value v)) kvs) = Some fs"
    and s': "s' = xadd i fs s" and t: "t = id_text i"
    using assms(7) coerce_reply_id [of decodes' i] by (auto simp: stream_add_def split: if_splits option.splits)
  let ?e = "\<lparr>se_id = i, se_fields = fs\<rparr>" and ?m = "\<lparr>mg_id = t, mg_fields = map (\<lambda>(k, v). (k, the (encode_value v))) kvs\<rparr>"
  obtain r where r: "reply_entry decodes ?e = Some r" "message_from_pair r = Some ?m"
    using message_back [OF assms(1,2) fs, of i] t by (auto simp: bind_eq_Some_conv)
  obtain n where n: "utf8_encode (sc_stream c) = Some n" using utf8_encode_Some [OF assms(3)] by blast
  then have "reply_value decodes n = Some (reply_of decodes n)" by (rule key_back(1))
  then have "Option.bind (read_response decodes (sc_stream c) [?e]) flatten = Some [?m]"
    using r n by (simp add: read_response_def flatten_def)
  moreover have "take (sc_count c) (drop (cg_given cg) (rv_entries s')) = [?e]"
    using assms(4,6) s' by (cases "sc_count c") (simp_all add: xadd_def)
  moreover have "dget (rv_groups s') (sc_group c) = Some cg" using assms(5) s' by (simp add: xadd_def)
  ultimately have "snd (stream_read decodes c now s') = ReadGot [?m]"
    by (simp add: stream_read_def xreadgroup_def Let_def got_def)
  then show ?thesis
    using assms(5,6) by (simp add: stream_read_def xreadgroup_def Let_def got_def read_response_def flatten_def)
qed

lemma stream_read_back_witness:
  "snd (stream_read False toy_consumer 9 (xadd (5, 0) [(bstr ''payload'', [7])] (toy_stream [] \<lparr>cg_given = 0, cg_pending = []\<rparr>)))
     = ReadGot [\<lparr>mg_id = id_text (5, 0), mg_fields = [(py ''payload'', [7])]\<rparr>]"
proof -
  let ?s = "toy_stream [] \<lparr>cg_given = 0, cg_pending = []\<rparr>"
  have "list_all valid_cp (sc_stream toy_consumer)" by (simp add: toy_consumer_def py_def valid_cp_def surrogate_def)
  moreover have "dget (rv_groups ?s) (sc_group toy_consumer) = Some \<lparr>cg_given = 0, cg_pending = []\<rparr>" "rv_entries ?s = []"
    by (simp_all add: toy_stream_def toy_consumer_def)
  ultimately show ?thesis
    using stream_read_back [OF _ _ _ _ _ _ toy_stream_add [of 5 ?s], of False toy_consumer "\<lparr>cg_given = 0, cg_pending = []\<rparr>" 9]
    by (simp add: readable_def toy_consumer_def)
qed


end
