(* ===== verification/Subscriber.thy ===== *)
theory Subscriber
  imports Utf8
begin

text \<open>
  \<open>omkit/valkeysub.py\<close>: the pub/sub subscriber as the state machine of its generator.  A state is the
  await or yield it is suspended in; an answer is how that ends, including a cancellation of the task
  and, at the yield, the consumer closing the generator; what it does on the way is the trace.
\<close>

section \<open>The generator\<close>

datatype sub_data = DataBytes bytes | DataText pystr | DataOther

datatype suspended =
    InSubscribe | InGetMessage | InYield | InSleep
  | InCancelUnsubscribe | InCancelClose | InFailClose

text \<open>
  An answer: the call returned (for \<open>get_message\<close>: no message, a message without data, or with
  data), it raised, the task was cancelled there, or the generator was closed at its yield.
\<close>

datatype answer =
    Returns
  | NoMessage
  | NoData
  | Data sub_data
  | Fails
  | Cancels
  | Closes

datatype sub_act =
    Opens
  | Yields bytes
  | Unsubscribes
  | ClosesPubsub
  | Sleeps

text \<open>What a payload is yielded as: None is skipped, and the inner None is a text that cannot be encoded.\<close>

definition payload_bytes :: "sub_data \<Rightarrow> bytes option option" where
  "payload_bytes d = (case d of DataBytes bs \<Rightarrow> Some (Some bs) | DataText t \<Rightarrow> Some (utf8_encode t) | DataOther \<Rightarrow> None)"

text \<open>The next suspension, None when the generator has ended, and the calls made on the way to it.\<close>

fun sub_next :: "suspended \<Rightarrow> answer \<Rightarrow> sub_act list \<times> suspended option" where
  "sub_next InSubscribe Cancels = ([Unsubscribes], Some InCancelUnsubscribe)"
| "sub_next InSubscribe Fails = ([ClosesPubsub], Some InFailClose)"
| "sub_next InSubscribe _ = ([], Some InGetMessage)"
| "sub_next InGetMessage Cancels = ([Unsubscribes], Some InCancelUnsubscribe)"
| "sub_next InGetMessage Fails = ([ClosesPubsub], Some InFailClose)"
| "sub_next InGetMessage (Data d) =
     (case payload_bytes d of
        None \<Rightarrow> ([], Some InGetMessage)
      | Some None \<Rightarrow> ([ClosesPubsub], Some InFailClose)
      | Some (Some bs) \<Rightarrow> ([Yields bs], Some InYield))"
| "sub_next InGetMessage _ = ([], Some InGetMessage)"
| "sub_next InYield Cancels = ([Unsubscribes], Some InCancelUnsubscribe)"
| "sub_next InYield Fails = ([ClosesPubsub], Some InFailClose)"
| "sub_next InYield Closes = ([], None)"
| "sub_next InYield _ = ([], Some InGetMessage)"
| "sub_next InCancelUnsubscribe Cancels = ([], None)"
| "sub_next InCancelUnsubscribe _ = ([ClosesPubsub], Some InCancelClose)"
| "sub_next InCancelClose _ = ([], None)"
| "sub_next InFailClose Cancels = ([], None)"
| "sub_next InFailClose _ = ([Sleeps], Some InSleep)"
| "sub_next InSleep Cancels = ([], None)"
| "sub_next InSleep _ = ([Opens], Some InSubscribe)"

text \<open>\<open>messages()\<close> under a list of answers: everything done so far, and where it is.\<close>

fun sub_run :: "suspended option \<Rightarrow> answer list \<Rightarrow> sub_act list \<times> suspended option" where
  "sub_run None _ = ([], None)"
| "sub_run (Some p) [] = ([], Some p)"
| "sub_run (Some p) (a # as) = (case sub_next p a of (acts, p') \<Rightarrow> (case sub_run p' as of (acts', q) \<Rightarrow> (acts @ acts', q)))"

definition messages :: "answer list \<Rightarrow> sub_act list \<times> suspended option" where
  "messages as = (case sub_run (Some InSubscribe) as of (acts, q) \<Rightarrow> (Opens # acts, q))"

section \<open>Lemmas\<close>

text \<open>The payloads that arrive while the generator listens.\<close>

fun received :: "suspended option \<Rightarrow> answer list \<Rightarrow> bytes list" where
  "received None _ = []"
| "received (Some p) [] = []"
| "received (Some p) (a # as) =
     (case (p, a) of (InGetMessage, Data d) \<Rightarrow> (case payload_bytes d of Some (Some bs) \<Rightarrow> [bs] | _ \<Rightarrow> []) | _ \<Rightarrow> [])
     @ received (snd (sub_next p a)) as"

fun yielded :: "sub_act list \<Rightarrow> bytes list" where
  "yielded [] = []"
| "yielded (Yields bs # as) = bs # yielded as"
| "yielded (_ # as) = yielded as"

lemma yielded_append [simp]: "yielded (xs @ ys) = yielded xs @ yielded ys"
  by (induction xs rule: yielded.induct) auto

lemma yielded_next:
  "yielded (fst (sub_next p a)) = (case (p, a) of (InGetMessage, Data d) \<Rightarrow> (case payload_bytes d of Some (Some bs) \<Rightarrow> [bs] | _ \<Rightarrow> []) | _ \<Rightarrow> [])"
  by (cases "(p, a)" rule: sub_next.cases) (auto split: option.split)

lemma yielded_run: "yielded (fst (sub_run q as)) = received q as"
proof (induction q as rule: sub_run.induct)
  case (3 p a as)
  obtain acts p' where n: "sub_next p a = (acts, p')" by (cases "sub_next p a")
  obtain acts' q where r: "sub_run p' as = (acts', q)" by (cases "sub_run p' as")
  show ?case using 3 [OF n [symmetric]] yielded_next [of p a] n r by simp
qed simp_all

text \<open>How many pubsub objects are open: one exactly while it subscribes, listens, yields or unsubscribes.\<close>

definition opened :: "sub_act list \<Rightarrow> int" where
  "opened acts = int (length (filter (\<lambda>a. a = Opens) acts)) - int (length (filter (\<lambda>a. a = ClosesPubsub) acts))"

definition holds :: "suspended option \<Rightarrow> int" where
  "holds q = (case q of Some p \<Rightarrow> if p \<in> {InSubscribe, InGetMessage, InYield, InCancelUnsubscribe} then 1 else 0 | None \<Rightarrow> 0)"

text \<open>The two ways to leave without closing: the consumer closes the generator, or a second cancellation.\<close>

fun abandons :: "suspended option \<Rightarrow> answer list \<Rightarrow> bool" where
  "abandons None _ = False"
| "abandons (Some p) [] = False"
| "abandons (Some p) (a # as) = ((p = InYield \<and> a = Closes) \<or> (p = InCancelUnsubscribe \<and> a = Cancels) \<or> abandons (snd (sub_next p a)) as)"

lemma opened_append [simp]: "opened (xs @ ys) = opened xs + opened ys"
  by (simp add: opened_def)

lemma opened_next:
  "holds (Some p) + opened (fst (sub_next p a)) =
     holds (snd (sub_next p a)) + (if (p = InYield \<and> a = Closes) \<or> (p = InCancelUnsubscribe \<and> a = Cancels) then 1 else 0)"
  by (cases "(p, a)" rule: sub_next.cases) (auto simp: holds_def opened_def split: option.split)

lemma abandons_ended: "snd (sub_next p a) = None \<Longrightarrow> \<not> abandons (snd (sub_next p a)) as"
  by simp

lemma opened_run: "holds q + opened (fst (sub_run q as)) = holds (snd (sub_run q as)) + (if abandons q as then 1 else 0)"
proof (induction q as rule: sub_run.induct)
  case (3 p a as)
  obtain acts p' where n: "sub_next p a = (acts, p')" by (cases "sub_next p a")
  obtain acts' q where r: "sub_run p' as = (acts', q)" by (cases "sub_run p' as")
  have "p' = None" if "(p = InYield \<and> a = Closes) \<or> (p = InCancelUnsubscribe \<and> a = Cancels)"
    using that n by auto
  then show ?case using 3 [OF n [symmetric]] opened_next [of p a] n r by (auto split: if_splits)
qed (auto simp: holds_def opened_def)

text \<open>Only a cancellation or a close ends it.\<close>

lemma ended_next:
  "snd (sub_next p a) \<in> {None, Some InCancelUnsubscribe, Some InCancelClose} \<Longrightarrow>
     p \<in> {InCancelUnsubscribe, InCancelClose} \<or> a = Cancels \<or> a = Closes"
  by (cases "(p, a)" rule: sub_next.cases) (auto split: option.splits)

lemma ended_run:
  "snd (sub_run q as) = None \<Longrightarrow> q \<in> {None, Some InCancelUnsubscribe, Some InCancelClose} \<or> Cancels \<in> set as \<or> Closes \<in> set as"
proof (induction q as rule: sub_run.induct)
  case (3 p a as)
  obtain acts p' where n: "sub_next p a = (acts, p')" by (cases "sub_next p a")
  obtain acts' q where r: "sub_run p' as = (acts', q)" by (cases "sub_run p' as")
  show ?case using 3(1) [OF n [symmetric]] 3(2) ended_next [of p a] n r by auto
qed simp_all

section \<open>Properties\<close>

text \<open>
  The subscriber yields exactly the payloads that arrive while it listens, in order, texts as UTF-8,
  through any number of failures and reconnections; it ends only by a cancellation or by being
  closed; and at any time at most one pubsub object is open, none after it has ended, unless the
  consumer closed it at the yield or cancelled it a second time while it was unsubscribing.
\<close>

theorem subscriber_yields_all:
  "yielded (fst (messages as)) = received (Some InSubscribe) as
   \<and> (snd (messages as) = None \<longrightarrow> Cancels \<in> set as \<or> Closes \<in> set as)
   \<and> opened (fst (messages as)) = holds (snd (messages as)) + (if abandons (Some InSubscribe) as then 1 else 0)"
proof -
  obtain acts q where r: "sub_run (Some InSubscribe) as = (acts, q)" by (cases "sub_run (Some InSubscribe) as")
  have m: "messages as = (Opens # acts, q)" by (simp add: messages_def r)
  have "q = None \<longrightarrow> Cancels \<in> set as \<or> Closes \<in> set as"
    using ended_run [of "Some InSubscribe" as] r by auto
  moreover have "opened (Opens # acts) = 1 + opened acts" by (simp add: opened_def)
  ultimately show ?thesis
    using yielded_run [of "Some InSubscribe" as] opened_run [of "Some InSubscribe" as] r by (simp add: m holds_def)
qed

lemma subscriber_yields_all_witness:
  "yielded (fst (messages [Returns, Data (DataBytes [1]), Returns, Fails, Returns, Returns, Returns, Data DataOther, Data (DataBytes [2]), Closes])) = [[1], [2]]
   \<and> opened (fst (messages [Returns, Data (DataBytes [1]), Returns, Fails, Returns, Returns, Returns, Data DataOther, Data (DataBytes [2]), Closes])) = 1"
  using subscriber_yields_all [of "[Returns, Data (DataBytes [1]), Returns, Fails, Returns, Returns, Returns, Data DataOther, Data (DataBytes [2]), Closes]"]
  by (simp add: payload_bytes_def messages_def holds_def)


end
