(* ===== verification/Cleanup.thy ===== *)
theory Cleanup
  imports OmPrelude
begin

text \<open>
  \<open>omkit/cleanup.py\<close>: replicas of a service that run one periodic task under a Postgres advisory
  lock.  A replica is its loop; a tick takes a connection of its own from the pool, tries the lock,
  runs the task and unlocks, and any of these may raise.  Advisory locks belong to the session:
  they are gone when it ends, and asyncpg releases them when a connection goes back to the pool.
\<close>

section \<open>Replicas\<close>

text \<open>\<open>Loop\<close>: the key of its lock and its interval; the pool and the task are the steps below.\<close>

record cleanup_loop =
  cl_lock_key :: int
  cl_interval :: nat

text \<open>Where a replica is: asleep, with a connection, in the task, after the task (raised or not), or down.\<close>

datatype tick_state =
    Asleep
  | Connected nat
  | InTask nat
  | Unlocking nat
  | Down

text \<open>The database's locks, the replicas, and every start and end of a task, as replica and start.\<close>

record cleanup_world =
  cw_locks :: "int \<Rightarrow> nat option"
  cw_state :: "nat \<Rightarrow> tick_state"
  cw_log :: "(nat \<times> bool) list"

definition cleanup_init :: cleanup_world where
  "cleanup_init = \<lparr>cw_locks = (\<lambda>_. None), cw_state = (\<lambda>_. Asleep), cw_log = []\<rparr>"

definition tick_conn :: "tick_state \<Rightarrow> nat option" where
  "tick_conn st = (case st of Connected c \<Rightarrow> Some c | InTask c \<Rightarrow> Some c | Unlocking c \<Rightarrow> Some c | _ \<Rightarrow> None)"

text \<open>\<open>pg_try_advisory_lock\<close>: taken when free or already held by the session, which then keeps it.\<close>

definition try_lock :: "int \<Rightarrow> nat \<Rightarrow> (int \<Rightarrow> nat option) \<Rightarrow> (int \<Rightarrow> nat option) \<times> bool" where
  "try_lock k c locks = (case locks k of None \<Rightarrow> (locks(k \<mapsto> c), True) | Some c' \<Rightarrow> (locks, c' = c))"

text \<open>The connection goes back to the pool, or its session ends: it holds no lock any more.\<close>

definition release :: "nat \<Rightarrow> (int \<Rightarrow> nat option) \<Rightarrow> (int \<Rightarrow> nat option)" where
  "release c locks = (\<lambda>k. if locks k = Some c then None else locks k)"

definition tick_try :: "(nat \<Rightarrow> cleanup_loop) \<Rightarrow> nat \<Rightarrow> nat \<Rightarrow> cleanup_world \<Rightarrow> cleanup_world" where
  "tick_try loops r c w =
     (case try_lock (cl_lock_key (loops r)) c (cw_locks w) of
        (locks, got) \<Rightarrow>
          if \<not> got then w\<lparr>cw_locks := release c locks, cw_state := (cw_state w)(r := Asleep)\<rparr>
          else w\<lparr>cw_locks := locks, cw_state := (cw_state w)(r := InTask c), cw_log := cw_log w @ [(r, True)]\<rparr>)"

text \<open>The \<open>finally\<close> clause: the task ended, whether or not it raised, and the unlock follows.\<close>

definition task_done :: "nat \<Rightarrow> nat \<Rightarrow> cleanup_world \<Rightarrow> cleanup_world" where
  "task_done r c w = w\<lparr>cw_state := (cw_state w)(r := Unlocking c), cw_log := cw_log w @ [(r, False)]\<rparr>"

definition tick_unlock :: "(nat \<Rightarrow> cleanup_loop) \<Rightarrow> nat \<Rightarrow> nat \<Rightarrow> bool \<Rightarrow> cleanup_world \<Rightarrow> cleanup_world" where
  "tick_unlock loops r c unlocked w =
     (let locks = (if unlocked \<and> cw_locks w (cl_lock_key (loops r)) = Some c then (cw_locks w)(cl_lock_key (loops r) := None) else cw_locks w)
      in w\<lparr>cw_locks := release c locks, cw_state := (cw_state w)(r := Asleep)\<rparr>)"

text \<open>
  The steps of all replicas, in any order: waking with a connection nobody else has, the try, its
  failure with an exception, the end of the task, the unlock, a crash in any state, and a restart.
\<close>

inductive cleanup_step :: "(nat \<Rightarrow> cleanup_loop) \<Rightarrow> cleanup_world \<Rightarrow> cleanup_world \<Rightarrow> bool" for loops where
  wake: "cw_state w r = Asleep \<Longrightarrow> \<forall>r'. tick_conn (cw_state w r') \<noteq> Some c \<Longrightarrow>
    cleanup_step loops w (w\<lparr>cw_state := (cw_state w)(r := Connected c)\<rparr>)"
| attempt: "cw_state w r = Connected c \<Longrightarrow> cleanup_step loops w (tick_try loops r c w)"
| attempt_raises: "cw_state w r = Connected c \<Longrightarrow>
    cleanup_step loops w (w\<lparr>cw_locks := release c (cw_locks w), cw_state := (cw_state w)(r := Asleep)\<rparr>)"
| task_ends: "cw_state w r = InTask c \<Longrightarrow> cleanup_step loops w (task_done r c w)"
| unlock: "cw_state w r = Unlocking c \<Longrightarrow> cleanup_step loops w (tick_unlock loops r c unlocked w)"
| crash: "cleanup_step loops w (w\<lparr>cw_locks := (case tick_conn (cw_state w r) of None \<Rightarrow> cw_locks w | Some c \<Rightarrow> release c (cw_locks w)),
    cw_state := (cw_state w)(r := Down)\<rparr>)"
| restart: "cw_state w r = Down \<Longrightarrow> cleanup_step loops w (w\<lparr>cw_state := (cw_state w)(r := Asleep)\<rparr>)"

section \<open>Lemmas\<close>

definition busy :: "tick_state \<Rightarrow> nat option" where
  "busy st = (case st of InTask c \<Rightarrow> Some c | Unlocking c \<Rightarrow> Some c | _ \<Rightarrow> None)"

lemma tick_state_simps [simp]:
  "tick_conn Asleep = None" "tick_conn (Connected c) = Some c" "tick_conn (InTask c) = Some c" "tick_conn (Unlocking c) = Some c" "tick_conn Down = None"
  "busy Asleep = None" "busy (Connected c) = None" "busy (InTask c) = Some c" "busy (Unlocking c) = Some c" "busy Down = None"
  by (simp_all add: tick_conn_def busy_def)

text \<open>
  No two replicas share a connection, and a lock is held exactly by the connection of a replica that
  is in the task or about to unlock.
\<close>

definition cleanup_ok :: "(nat \<Rightarrow> cleanup_loop) \<Rightarrow> cleanup_world \<Rightarrow> bool" where
  "cleanup_ok loops w \<longleftrightarrow>
     (\<forall>r r' c. tick_conn (cw_state w r) = Some c \<longrightarrow> tick_conn (cw_state w r') = Some c \<longrightarrow> r = r')
     \<and> (\<forall>r c. busy (cw_state w r) = Some c \<longrightarrow> cw_locks w (cl_lock_key (loops r)) = Some c)
     \<and> (\<forall>k c. cw_locks w k = Some c \<longrightarrow> (\<exists>r. busy (cw_state w r) = Some c \<and> cl_lock_key (loops r) = k))"

lemma busy_conn: "busy st = Some c \<Longrightarrow> tick_conn st = Some c"
  by (cases st) (simp_all add: busy_def tick_conn_def)

lemma release_Some [simp]: "release c locks k = Some c' \<longleftrightarrow> locks k = Some c' \<and> c' \<noteq> c"
  by (auto simp: release_def)

lemma cleanup_okD:
  assumes "cleanup_ok loops w"
  shows cleanup_conns: "\<And>r r' c. tick_conn (cw_state w r) = Some c \<Longrightarrow> tick_conn (cw_state w r') = Some c \<Longrightarrow> r = r'"
    and cleanup_held: "\<And>r c. busy (cw_state w r) = Some c \<Longrightarrow> cw_locks w (cl_lock_key (loops r)) = Some c"
    and cleanup_holder: "\<And>k c. cw_locks w k = Some c \<Longrightarrow> \<exists>r. busy (cw_state w r) = Some c \<and> cl_lock_key (loops r) = k"
  using assms unfolding cleanup_ok_def by blast+

lemma cleanup_okI:
  assumes "\<And>r r' c. tick_conn (cw_state w r) = Some c \<Longrightarrow> tick_conn (cw_state w r') = Some c \<Longrightarrow> r = r'"
    and "\<And>r c. busy (cw_state w r) = Some c \<Longrightarrow> cw_locks w (cl_lock_key (loops r)) = Some c"
    and "\<And>k c. cw_locks w k = Some c \<Longrightarrow> \<exists>r. busy (cw_state w r) = Some c \<and> cl_lock_key (loops r) = k"
  shows "cleanup_ok loops w"
  using assms unfolding cleanup_ok_def by blast

text \<open>A replica that gives its connection back leaves the others as they were.\<close>

lemma cleanup_ok_leave:
  assumes "cleanup_ok loops w" "tick_conn (cw_state w r) = Some c" "tick_conn st = None"
  shows "cleanup_ok loops (w\<lparr>cw_locks := release c (cw_locks w), cw_state := (cw_state w)(r := st)\<rparr>)" (is "cleanup_ok _ ?w")
proof -
  note ok = cleanup_okD [OF assms(1)]
  have st: "busy st = None" using assms(3) by (cases st) (simp_all add: busy_def tick_conn_def)
  have other: "c' \<noteq> c" if "busy (cw_state w q) = Some c'" "q \<noteq> r" for q c'
    using ok(1) [OF busy_conn assms(2)] that by blast
  show ?thesis
  proof (rule cleanup_okI)
    fix q q' d assume "tick_conn (cw_state ?w q) = Some d" "tick_conn (cw_state ?w q') = Some d"
    then show "q = q'" using ok(1) [of q d q'] assms(3) by (auto split: if_splits)
  next
    fix q d assume "busy (cw_state ?w q) = Some d"
    then show "cw_locks ?w (cl_lock_key (loops q)) = Some d" using ok(2) [of q d] other [of q d] st by (auto split: if_splits)
  next
    fix k d assume k: "cw_locks ?w k = Some d"
    then obtain q where q: "busy (cw_state w q) = Some d" "cl_lock_key (loops q) = k" using ok(3) [of k d] by auto
    then have "q \<noteq> r" using busy_conn [OF q(1)] assms(2) k by auto
    then show "\<exists>q. busy (cw_state ?w q) = Some d \<and> cl_lock_key (loops q) = k" using q by (intro exI [of _ q]) simp
  qed
qed

text \<open>A replica that moves on without touching the locks.\<close>

lemma cleanup_ok_move:
  assumes "cleanup_ok loops w" "busy st = busy (cw_state w r)"
    and "\<And>c r'. tick_conn st = Some c \<Longrightarrow> r' \<noteq> r \<Longrightarrow> tick_conn (cw_state w r') \<noteq> Some c"
  shows "cleanup_ok loops (w\<lparr>cw_state := (cw_state w)(r := st), cw_log := l\<rparr>)" (is "cleanup_ok _ ?w")
proof -
  note ok = cleanup_okD [OF assms(1)]
  have b: "busy (cw_state ?w q) = busy (cw_state w q)" for q using assms(2) by simp
  show ?thesis
  proof (rule cleanup_okI)
    fix q q' d assume "tick_conn (cw_state ?w q) = Some d" "tick_conn (cw_state ?w q') = Some d"
    then show "q = q'" using ok(1) [of q d q'] assms(3) [of d q] assms(3) [of d q'] by (auto split: if_splits)
  next
    fix q d assume "busy (cw_state ?w q) = Some d"
    then show "cw_locks ?w (cl_lock_key (loops q)) = Some d" using ok(2) [of q d] unfolding b by simp
  next
    fix k d assume "cw_locks ?w k = Some d"
    then show "\<exists>q. busy (cw_state ?w q) = Some d \<and> cl_lock_key (loops q) = k" using ok(3) [of k d] unfolding b by simp
  qed
qed

text \<open>A replica that gets the free lock.\<close>

lemma cleanup_ok_take:
  assumes "cleanup_ok loops w" "cw_state w r = Connected c" "cw_locks w (cl_lock_key (loops r)) = None"
  shows "cleanup_ok loops (tick_try loops r c w)" (is "cleanup_ok _ ?w")
proof -
  note ok = cleanup_okD [OF assms(1)]
  have w: "cw_state ?w = (cw_state w)(r := InTask c)" "cw_locks ?w = (cw_locks w)(cl_lock_key (loops r) \<mapsto> c)"
    using assms(3) by (simp_all add: tick_try_def try_lock_def)
  have key: "cl_lock_key (loops q) \<noteq> cl_lock_key (loops r)" if "busy (cw_state w q) = Some d" for q d
    using ok(2) [OF that] assms(3) by auto
  have conn: "tick_conn (cw_state ?w q) = tick_conn (cw_state w q)" for q using assms(2) by (simp add: w)
  show ?thesis
  proof (rule cleanup_okI)
    fix q q' d assume "tick_conn (cw_state ?w q) = Some d" "tick_conn (cw_state ?w q') = Some d"
    then show "q = q'" using ok(1) [of q d q'] unfolding conn by blast
  next
    fix q d assume "busy (cw_state ?w q) = Some d"
    then show "cw_locks ?w (cl_lock_key (loops q)) = Some d" using ok(2) [of q d] key [of q d] by (auto simp: w split: if_splits)
  next
    fix k d assume k: "cw_locks ?w k = Some d"
    show "\<exists>q. busy (cw_state ?w q) = Some d \<and> cl_lock_key (loops q) = k"
    proof (cases "k = cl_lock_key (loops r)")
      case True
      then have "d = c" using k by (simp add: w(2))
      moreover have "busy (cw_state ?w r) = Some c" by (simp add: w(1))
      ultimately show ?thesis using True by blast
    next
      case False
      then obtain q where q: "busy (cw_state w q) = Some d" "cl_lock_key (loops q) = k" using ok(3) [of k d] k by (auto simp: w)
      then show ?thesis using False by (intro exI [of _ q]) (auto simp: w)
    qed
  qed
qed

lemma cleanup_ok_step:
  assumes "cleanup_step loops w w'" "cleanup_ok loops w"
  shows "cleanup_ok loops w'"
  using assms(1)
proof (cases rule: cleanup_step.cases)
  case (wake r c)
  then show ?thesis using cleanup_ok_move [OF assms(2), of "Connected c" r "cw_log w"] by auto
next
  case (attempt r c)
  show ?thesis
  proof (cases "cw_locks w (cl_lock_key (loops r))")
    case None
    then show ?thesis using cleanup_ok_take [OF assms(2) attempt(2)] attempt(1) by simp
  next
    case (Some c')
    then obtain r' where r': "busy (cw_state w r') = Some c'" using cleanup_holder [OF assms(2)] by blast
    have "c' \<noteq> c"
    proof
      assume "c' = c"
      then have "r' = r" using cleanup_conns [OF assms(2) busy_conn [OF r'], of r] attempt(2) by simp
      then show False using r' attempt(2) by simp
    qed
    then have "w' = w\<lparr>cw_locks := release c (cw_locks w), cw_state := (cw_state w)(r := Asleep)\<rparr>"
      using attempt Some by (simp add: tick_try_def try_lock_def)
    then show ?thesis using cleanup_ok_leave [OF assms(2), of r c Asleep] attempt(2) by simp
  qed
next
  case (attempt_raises r c)
  then show ?thesis using cleanup_ok_leave [OF assms(2), of r c Asleep] by simp
next
  case (task_ends r c)
  have "tick_conn (cw_state w r') \<noteq> Some c" if "r' \<noteq> r" for r'
    using cleanup_conns [OF assms(2), of r' c r] that task_ends(2) by auto
  then show ?thesis using cleanup_ok_move [OF assms(2), of "Unlocking c" r "cw_log w @ [(r, False)]"] task_ends
    by (auto simp: task_done_def)
next
  case (unlock r c unlocked)
  have "release c ((cw_locks w)(cl_lock_key (loops r) := None)) = release c (cw_locks w)" if "cw_locks w (cl_lock_key (loops r)) = Some c"
    using that by (auto simp: release_def)
  then have "w' = w\<lparr>cw_locks := release c (cw_locks w), cw_state := (cw_state w)(r := Asleep)\<rparr>"
    using unlock by (simp add: tick_unlock_def Let_def)
  then show ?thesis using cleanup_ok_leave [OF assms(2), of r c Asleep] unlock(2) by simp
next
  case (crash r)
  show ?thesis
  proof (cases "tick_conn (cw_state w r)")
    case None
    then have "busy (cw_state w r) = None" by (cases "cw_state w r") simp_all
    then show ?thesis using cleanup_ok_move [OF assms(2), of Down r "cw_log w"] crash None by simp
  next
    case (Some c)
    then show ?thesis using cleanup_ok_leave [OF assms(2) Some, of Down] crash by simp
  qed
next
  case (restart r)
  then show ?thesis using cleanup_ok_move [OF assms(2), of Asleep r "cw_log w"] by simp
qed

lemma cleanup_ok_reach: "(cleanup_step loops)\<^sup>*\<^sup>* cleanup_init w \<Longrightarrow> cleanup_ok loops w"
proof (induction rule: rtranclp_induct)
  case base
  show ?case by (simp add: cleanup_ok_def cleanup_init_def)
qed (rule cleanup_ok_step)

section \<open>Properties\<close>


definition toy_loops :: "nat \<Rightarrow> cleanup_loop" where
  "toy_loops r = \<lparr>cl_lock_key = 42, cl_interval = 60\<rparr>"


end
