(* ===== verification/SecurityEvents.thy ===== *)
theory SecurityEvents
  imports JsonRT
begin

text \<open>
  \<open>omkit/security/events.py\<close>: the writer of the \<open>security_events\<close> table, with its struct and its
  keyword entry point.  A UUID is its number; evidence is a JSON value, None the Python None.  The
  database may refuse the statement with an error of its own.
\<close>

section \<open>Events and rows\<close>

record security_event =
  se_tenant :: "nat option"
  se_kind :: pystr
  se_severity :: pystr
  se_doc :: "nat option"
  se_chunk :: "pystr option"
  se_evidence :: "json option"
  se_version :: "pystr option"
  se_request :: "pystr option"

record security_row =
  sr_tenant_id :: "nat option"
  sr_kind :: pystr
  sr_severity :: pystr
  sr_doc_id :: "nat option"
  sr_chunk_id :: "pystr option"
  sr_evidence :: pystr
  sr_classifier_version :: "pystr option"
  sr_request_id :: "pystr option"

text \<open>The fields of the warning that a blocking event logs.\<close>

record block_warning =
  bw_tenant_id :: pystr
  bw_kind :: pystr
  bw_doc_id :: "pystr option"
  bw_request_id :: "pystr option"

datatype security_error =
    SecurityNilPool
  | SecurityTenantRequired
  | SecurityKindRequired
  | SecuritySeverityRequired
  | SecurityDbError nat

text \<open>The table and the warnings logged so far.\<close>

type_synonym security_log = "security_row list \<times> block_warning list"

section \<open>The two entry points\<close>

definition evidence_json :: "json option \<Rightarrow> pystr" where
  "evidence_json evidence = (case evidence of None \<Rightarrow> py ''{}'' | Some v \<Rightarrow> dumps_default v)"

definition python_str :: "nat option \<Rightarrow> pystr" where
  "python_str u = (case u of None \<Rightarrow> py ''None'' | Some n \<Rightarrow> uuid_text n)"

definition security_row_of :: "security_event \<Rightarrow> security_row" where
  "security_row_of e =
     \<lparr>sr_tenant_id = se_tenant e, sr_kind = se_kind e, sr_severity = se_severity e, sr_doc_id = se_doc e, sr_chunk_id = se_chunk e,
      sr_evidence = evidence_json (se_evidence e), sr_classifier_version = se_version e, sr_request_id = se_request e\<rparr>"

definition block_warning_of :: "security_event \<Rightarrow> block_warning" where
  "block_warning_of e =
     \<lparr>bw_tenant_id = python_str (se_tenant e), bw_kind = se_kind e, bw_doc_id = map_option uuid_text (se_doc e), bw_request_id = se_request e\<rparr>"

text \<open>\<open>log_security_event\<close>, its keyword arguments as an event; \<open>db\<close> is the error of the INSERT, if any.\<close>

definition log_security_event :: "nat option \<Rightarrow> security_event \<Rightarrow> security_log \<Rightarrow> security_log \<times> security_error option" where
  "log_security_event db e l =
     (case db of
        Some n \<Rightarrow> (l, Some (SecurityDbError n))
      | None \<Rightarrow>
          ((fst l @ [security_row_of e], if se_severity e = py ''block'' then snd l @ [block_warning_of e] else snd l), None))"

definition write_security_event ::
    "bool \<Rightarrow> nat option \<Rightarrow> security_event \<Rightarrow> security_log \<Rightarrow> security_log \<times> security_error option" where
  "write_security_event pool_given db e l =
     (if \<not> pool_given then (l, Some SecurityNilPool)
      else if se_tenant e = None then (l, Some SecurityTenantRequired)
      else if se_kind e = [] then (l, Some SecurityKindRequired)
      else if se_severity e = [] then (l, Some SecuritySeverityRequired)
      else log_security_event db e l)"

section \<open>Properties\<close>

text \<open>
  A security event is written completely or not at all: the writer raises exactly when the pool,
  the tenant, the kind or the severity is missing, in this order, or the INSERT fails, and then
  neither table nor log changes; otherwise it appends exactly one row with the event's own fields,
  whose evidence reads back as the evidence given (an empty object for None), and logs one warning
  exactly for the severity \<open>block\<close>.
\<close>

theorem security_event_recorded:
  assumes "\<forall>v. se_evidence e = Some v \<longrightarrow> jwf v"
  shows "case write_security_event pool_given db e (rows, ws) of
      (l, Some err) \<Rightarrow> l = (rows, ws) \<and>
         err = (if \<not> pool_given then SecurityNilPool else if se_tenant e = None then SecurityTenantRequired
                else if se_kind e = [] then SecurityKindRequired else if se_severity e = [] then SecuritySeverityRequired
                else SecurityDbError (the db))
    | ((rows', ws'), None) \<Rightarrow> db = None \<and> pool_given \<and> se_tenant e \<noteq> None \<and> se_kind e \<noteq> [] \<and> se_severity e \<noteq> []
        \<and> (\<exists>row. rows' = rows @ [row] \<and> sr_tenant_id row = se_tenant e \<and> sr_kind row = se_kind e \<and> sr_severity row = se_severity e
             \<and> sr_doc_id row = se_doc e \<and> sr_request_id row = se_request e
             \<and> loads (sr_evidence row) = Some (case se_evidence e of None \<Rightarrow> JObj [] | Some v \<Rightarrow> v))
        \<and> (if se_severity e = py ''block'' then \<exists>w. ws' = ws @ [w] \<and> bw_tenant_id w = uuid_text (the (se_tenant e)) else ws' = ws)"
proof -
  have "loads (dumps_default (JObj [])) = Some (JObj [])" by (rule loads_dumps_default) simp
  then have "loads (evidence_json (se_evidence e)) = Some (case se_evidence e of None \<Rightarrow> JObj [] | Some v \<Rightarrow> v)"
    using assms loads_dumps_default by (auto simp: evidence_json_def dumps_default_def py_def split: option.split)
  then show ?thesis
    by (auto simp: write_security_event_def log_security_event_def security_row_of_def block_warning_of_def python_str_def split: option.split)
qed

definition toy_security_event :: security_event where
  "toy_security_event =
     \<lparr>se_tenant = Some 7, se_kind = py ''doc_quarantined'', se_severity = py ''block'', se_doc = None, se_chunk = None,
      se_evidence = Some (JObj [(py ''page'', JInt 3)]), se_version = None, se_request = None\<rparr>"

lemma security_event_recorded_witness:
  "\<exists>row w. write_security_event True None toy_security_event ([], []) = (([row], [w]), None)
     \<and> loads (sr_evidence row) = Some (JObj [(py ''page'', JInt 3)])"
proof -
  have "list_all valid_cp (py ''page'')" by (simp add: py_def valid_cp_def surrogate_def)
  then have "\<forall>v. se_evidence toy_security_event = Some v \<longrightarrow> jwf v" by (simp add: toy_security_event_def)
  from security_event_recorded [OF this, where pool_given = True and db = None and rows = "[]" and ws = "[]"] show ?thesis
    by (auto simp: write_security_event_def log_security_event_def toy_security_event_def)
qed

end
