(* ===== verification/Database.thy ===== *)
theory Database
  imports EventBus
begin

text \<open>
  \<open>omkit/dbpool.py\<close>, \<open>omkit/config.py\<close> and \<open>omkit/valkey.py\<close>: the connection strings of a service,
  and what the pool helpers hand to asyncpg and SQLAlchemy.
\<close>

section \<open>Settings\<close>

record service_settings =
  RUNTIME_MODE :: pystr
  TENANT_TOKEN :: pystr
  settings_key :: pystr
  CORS_ORIGINS :: pystr
  POSTGRES_HOST :: pystr
  POSTGRES_PORT :: int
  POSTGRES_DB :: pystr
  POSTGRES_USER :: pystr
  POSTGRES_PASSWORD :: pystr
  VALKEY_HOST :: pystr
  VALKEY_PORT :: int
  VALKEY_PASSWORD :: pystr
  OLLAMA_HOST :: pystr
  OLLAMA_CHAT_MODEL :: pystr

definition default_settings :: service_settings where
  "default_settings =
     \<lparr>RUNTIME_MODE = py ''standalone'', TENANT_TOKEN = [], settings_key = [], CORS_ORIGINS = [],
      POSTGRES_HOST = py ''postgres'', POSTGRES_PORT = 5432, POSTGRES_DB = [], POSTGRES_USER = [], POSTGRES_PASSWORD = [],
      VALKEY_HOST = py ''valkey'', VALKEY_PORT = 6379, VALKEY_PASSWORD = [],
      OLLAMA_HOST = py ''http://ollama:11434'', OLLAMA_CHAT_MODEL = py ''qwen3:8b''\<rparr>"

definition postgres_dsn :: "service_settings \<Rightarrow> pystr" where
  "postgres_dsn s =
     py ''postgresql+asyncpg://'' @ POSTGRES_USER s @ py '':'' @ POSTGRES_PASSWORD s
     @ py ''@'' @ POSTGRES_HOST s @ py '':'' @ str_int (POSTGRES_PORT s) @ py ''/'' @ POSTGRES_DB s"

definition postgres_dsn_raw :: "service_settings \<Rightarrow> pystr" where
  "postgres_dsn_raw s =
     py ''postgresql://'' @ POSTGRES_USER s @ py '':'' @ POSTGRES_PASSWORD s
     @ py ''@'' @ POSTGRES_HOST s @ py '':'' @ str_int (POSTGRES_PORT s) @ py ''/'' @ POSTGRES_DB s"

definition settings_valkey_url :: "service_settings \<Rightarrow> pystr" where
  "settings_valkey_url s =
     (if VALKEY_PASSWORD s \<noteq> []
      then py ''redis://:'' @ VALKEY_PASSWORD s @ py ''@'' @ VALKEY_HOST s @ py '':'' @ str_int (VALKEY_PORT s)
      else py ''redis://'' @ VALKEY_HOST s @ py '':'' @ str_int (VALKEY_PORT s))"

text \<open>\<open>valkey.new_client\<close>: \<open>from_url\<close>, the client library's, applied to the settings' URL.\<close>

definition new_client :: "(pystr \<Rightarrow> 'kw \<Rightarrow> 'client) \<Rightarrow> service_settings \<Rightarrow> 'kw \<Rightarrow> 'client" where
  "new_client from_url s kwargs = from_url (settings_valkey_url s) kwargs"

section \<open>DSNs\<close>

definition after :: "pystr \<Rightarrow> pystr \<Rightarrow> pystr option" where
  "after p s = (if startswith p s then Some (drop (length p) s) else None)"

definition dialect_char :: "nat \<Rightarrow> bool" where
  "dialect_char c = (97 \<le> c \<and> c \<le> 122 \<or> 48 \<le> c \<and> c \<le> 57 \<or> c = 95)"

text \<open>What follows the dialect: a plus sign, at least one character of its name, and a colon with two slashes.\<close>

definition drop_dialect :: "pystr \<Rightarrow> pystr option" where
  "drop_dialect s =
     Option.bind (after (py ''+'') s) (\<lambda>r.
       if takeWhile dialect_char r = [] then None else after (py ''://'') (dropWhile dialect_char r))"

text \<open>The scheme's optional \<open>ql\<close> is tried first.\<close>

definition normalize_dsn :: "pystr \<Rightarrow> pystr" where
  "normalize_dsn dsn =
     (case Option.bind (after (py ''postgresql'') dsn) drop_dialect of
        Some rest \<Rightarrow> py ''postgresql://'' @ rest
      | None \<Rightarrow>
          (case Option.bind (after (py ''postgres'') dsn) drop_dialect of
             Some rest \<Rightarrow> py ''postgres://'' @ rest
           | None \<Rightarrow> dsn))"

section \<open>Pools\<close>

text \<open>A connection initialiser: the one of \<open>create_pool\<close>, or the caller's own.\<close>

datatype conn_init = SetRole pystr | CallerInit nat

record pool_kwargs =
  pk_init :: "conn_init option"
  pk_cache :: "int option"

record pool_call =
  pc_dsn :: pystr
  pc_min :: int
  pc_max :: int
  pc_init :: "conn_init option"
  pc_cache :: int

definition set_role_sql :: "pystr \<Rightarrow> pystr" where
  "set_role_sql role = py ''SET ROLE \"'' @ role @ py ''\"''"

text \<open>The statements an initialiser runs on a new connection; those of the caller's are its own affair.\<close>

definition init_sql :: "conn_init \<Rightarrow> pystr list option" where
  "init_sql i = (case i of SetRole role \<Rightarrow> Some [set_role_sql role] | CallerInit _ \<Rightarrow> None)"

definition create_pool :: "pystr \<Rightarrow> pystr option \<Rightarrow> int \<Rightarrow> int \<Rightarrow> pool_kwargs \<Rightarrow> pool_call" where
  "create_pool dsn role min_size max_size kwargs =
     \<lparr>pc_dsn = normalize_dsn dsn, pc_min = min_size, pc_max = max_size,
      pc_init = (case pk_init kwargs of Some i \<Rightarrow> Some i | None \<Rightarrow> map_option SetRole (or_none role)),
      pc_cache = (case pk_cache kwargs of Some n \<Rightarrow> n | None \<Rightarrow> 0)\<rparr>"

definition new_session_pool :: "pystr \<Rightarrow> pystr option \<Rightarrow> int \<Rightarrow> int \<Rightarrow> pool_kwargs \<Rightarrow> pool_call" where
  "new_session_pool dsn role min_size max_size kwargs = create_pool dsn role min_size max_size kwargs"

datatype connect_arg = ArgInt int | ArgSettings "(pystr, pystr) dict"

definition connect_args :: "pystr option \<Rightarrow> (pystr, connect_arg) dict" where
  "connect_args role =
     (let args = [(py ''statement_cache_size'', ArgInt 0), (py ''prepared_statement_cache_size'', ArgInt 0)]
      in case or_none role of None \<Rightarrow> args | Some r \<Rightarrow> dset (py ''server_settings'') (ArgSettings [(py ''role'', r)]) args)"

record engine_call =
  ec_dsn :: pystr
  ec_pool_size :: int
  ec_max_overflow :: int
  ec_pool_timeout :: int
  ec_connect_args :: "(pystr, connect_arg) dict"

definition build_retrieval_engine :: "pystr \<Rightarrow> engine_call" where
  "build_retrieval_engine dsn =
     \<lparr>ec_dsn = dsn, ec_pool_size = 10, ec_max_overflow = 0, ec_pool_timeout = 2, ec_connect_args = connect_args (Some (py ''omur_app''))\<rparr>"

section \<open>Lemmas\<close>

lemma startswith_append [simp]: "startswith p (p @ s)"
  by (simp add: startswith_def)

lemma after_append [simp]: "after p (p @ s) = Some s"
  by (simp add: after_def)

lemma after_Some: "after p s = Some r \<longleftrightarrow> s = p @ r"
  by (auto simp: after_def startswith_def) (metis append_take_drop_id)

lemma drop_dialect_dialect:
  assumes "d \<noteq> []" "list_all dialect_char d"
  shows "drop_dialect (py ''+'' @ d @ py ''://'' @ rest) = Some rest"
proof -
  have "takeWhile dialect_char (d @ py ''://'' @ rest) = d" "dropWhile dialect_char (d @ py ''://'' @ rest) = py ''://'' @ rest"
    using assms(2) by (subst takeWhile_append2 dropWhile_append2; simp add: list_all_iff dialect_char_def py_def)+
  then show ?thesis using assms(1) by (simp add: drop_dialect_def)
qed

lemma drop_dialect_Some:
  assumes "drop_dialect s = Some rest"
  shows "\<exists>d. d \<noteq> [] \<and> list_all dialect_char d \<and> s = py ''+'' @ d @ py ''://'' @ rest"
proof -
  obtain r where r: "s = py ''+'' @ r" "takeWhile dialect_char r \<noteq> []" "dropWhile dialect_char r = py ''://'' @ rest"
    using assms by (auto simp: drop_dialect_def bind_eq_Some_conv after_Some split: if_splits)
  then have "s = py ''+'' @ takeWhile dialect_char r @ py ''://'' @ rest" using takeWhile_dropWhile_id [of dialect_char r] by simp
  moreover have "list_all dialect_char (takeWhile dialect_char r)" by (auto simp: list_all_iff dest: set_takeWhileD)
  ultimately show ?thesis using r(2) by blast
qed

text \<open>Plain schemes are left alone.\<close>

lemma drop_dialect_plain [simp]: "drop_dialect (py ''://'' @ r) = None" "drop_dialect (py ''ql://'' @ r) = None"
  by (simp_all add: drop_dialect_def after_def startswith_def py_def)

lemma after_postgres:
  "after (py ''postgresql'') (py ''postgresql'' @ s) = Some s" "after (py ''postgres'') (py ''postgresql'' @ s) = Some (py ''ql'' @ s)"
  "after (py ''postgres'') (py ''postgres'' @ s) = Some s"
  by (simp_all add: after_def startswith_def py_def)

lemma after_not_ql: "after (py ''postgresql'') (py ''postgres'' @ py ''://'' @ s) = None" "after (py ''postgresql'') (py ''postgres'' @ py ''+'' @ s) = None"
  by (simp_all add: after_def startswith_def py_def)

lemma normalize_plain [simp]:
  "normalize_dsn (py ''postgresql'' @ py ''://'' @ r) = py ''postgresql'' @ py ''://'' @ r"
  "normalize_dsn (py ''postgres'' @ py ''://'' @ r) = py ''postgres'' @ py ''://'' @ r"
proof -
  have "py ''ql'' @ py ''://'' @ r = py ''ql://'' @ r" by (simp add: py_def)
  then show "normalize_dsn (py ''postgresql'' @ py ''://'' @ r) = py ''postgresql'' @ py ''://'' @ r"
    by (simp only: normalize_dsn_def after_postgres bind.simps drop_dialect_plain option.case)
  show "normalize_dsn (py ''postgres'' @ py ''://'' @ r) = py ''postgres'' @ py ''://'' @ r"
    by (simp only: normalize_dsn_def after_postgres after_not_ql bind.simps drop_dialect_plain option.case)
qed

lemma normalize_cases:
  obtains (plain) "normalize_dsn d = d"
  | (dialect) scheme name rest where "scheme = py ''postgresql'' \<or> scheme = py ''postgres''" "name \<noteq> []" "list_all dialect_char name"
      "d = scheme @ py ''+'' @ name @ py ''://'' @ rest" "normalize_dsn d = scheme @ py ''://'' @ rest"
proof (cases "Option.bind (after (py ''postgresql'') d) drop_dialect")
  case (Some rest)
  then obtain r where "d = py ''postgresql'' @ r" "drop_dialect r = Some rest" by (auto simp: bind_eq_Some_conv after_Some)
  moreover have "normalize_dsn d = py ''postgresql'' @ py ''://'' @ rest" using Some by (simp add: normalize_dsn_def py_def)
  ultimately show thesis using dialect drop_dialect_Some by blast
next
  case none: None
  show thesis
  proof (cases "Option.bind (after (py ''postgres'') d) drop_dialect")
    case None
    then show thesis using none plain by (simp add: normalize_dsn_def)
  next
    case (Some rest)
    then obtain r where "d = py ''postgres'' @ r" "drop_dialect r = Some rest" by (auto simp: bind_eq_Some_conv after_Some)
    moreover have "normalize_dsn d = py ''postgres'' @ py ''://'' @ rest" using Some none by (simp add: normalize_dsn_def py_def)
    ultimately show thesis using dialect drop_dialect_Some by blast
  qed
qed

section \<open>Properties\<close>

text \<open>
  One connection string for both drivers: normalising the SQLAlchemy DSN of any settings gives the
  raw DSN of the same settings, which normalising leaves alone; any DSN loses exactly the dialect of
  a postgres scheme and nothing else, and normalising twice changes nothing more.  The Valkey URL of
  the settings is the one the event bus builds from the same host, port and password.
\<close>

theorem dsn_normalized:
  "normalize_dsn (postgres_dsn s) = postgres_dsn_raw s
   \<and> normalize_dsn (postgres_dsn_raw s) = postgres_dsn_raw s
   \<and> normalize_dsn (normalize_dsn d) = normalize_dsn d
   \<and> (normalize_dsn d = d \<or> (\<exists>scheme name rest. scheme \<in> {py ''postgres'', py ''postgresql''} \<and> name \<noteq> [] \<and> list_all dialect_char name
        \<and> d = scheme @ py ''+'' @ name @ py ''://'' @ rest \<and> normalize_dsn d = scheme @ py ''://'' @ rest))
   \<and> settings_valkey_url s = valkey_url (Some (VALKEY_HOST s)) (Some (str_int (VALKEY_PORT s))) (Some (VALKEY_PASSWORD s))"
proof -
  let ?rest = "POSTGRES_USER s @ py '':'' @ POSTGRES_PASSWORD s @ py ''@'' @ POSTGRES_HOST s @ py '':'' @ str_int (POSTGRES_PORT s) @ py ''/'' @ POSTGRES_DB s"
  have raw: "postgres_dsn_raw s = py ''postgresql'' @ py ''://'' @ ?rest" by (simp add: postgres_dsn_raw_def py_def)
  have dsn: "postgres_dsn s = py ''postgresql'' @ py ''+'' @ py ''asyncpg'' @ py ''://'' @ ?rest" by (simp add: postgres_dsn_def py_def)
  have "drop_dialect (py ''+'' @ py ''asyncpg'' @ py ''://'' @ ?rest) = Some ?rest"
    by (rule drop_dialect_dialect) (simp_all add: dialect_char_def py_def)
  then have "normalize_dsn (postgres_dsn s) = py ''postgresql://'' @ ?rest"
    unfolding dsn normalize_dsn_def by (simp only: after_postgres bind.simps option.case)
  moreover have "py ''postgresql://'' @ ?rest = py ''postgresql'' @ py ''://'' @ ?rest" by (simp add: py_def)
  ultimately have norm: "normalize_dsn (postgres_dsn s) = postgres_dsn_raw s" by (simp only: raw)
  have raw_same: "normalize_dsn (postgres_dsn_raw s) = postgres_dsn_raw s" unfolding raw by (rule normalize_plain(1))
  have twice: "normalize_dsn (normalize_dsn d) = normalize_dsn d"
    by (cases d rule: normalize_cases) (auto simp only: normalize_plain)
  have form: "normalize_dsn d = d \<or> (\<exists>scheme name rest. scheme \<in> {py ''postgres'', py ''postgresql''} \<and> name \<noteq> [] \<and> list_all dialect_char name
      \<and> d = scheme @ py ''+'' @ name @ py ''://'' @ rest \<and> normalize_dsn d = scheme @ py ''://'' @ rest)"
    by (cases d rule: normalize_cases) blast+
  have "settings_valkey_url s = valkey_url (Some (VALKEY_HOST s)) (Some (str_int (VALKEY_PORT s))) (Some (VALKEY_PASSWORD s))"
    by (simp add: settings_valkey_url_def valkey_url_def or_none_def Let_def)
  then show ?thesis using norm raw_same twice form by blast
qed

text \<open>
  A pool with a role runs exactly \<open>SET ROLE\<close> with the quoted name on every new connection, and a
  pool without one nothing; prepared statements are off unless the caller asks for them.  But an
  initialiser of the caller's own replaces the role switch: the call is then the same whatever role
  was asked for.
\<close>

theorem pool_sets_role:
  "(pk_init kwargs = None \<longrightarrow> Option.bind (pc_init (create_pool dsn role lo hi kwargs)) init_sql
        = map_option (\<lambda>r. [py ''SET ROLE \"'' @ r @ py ''\"'']) (or_none role))
   \<and> (pk_cache kwargs = None \<longrightarrow> pc_cache (create_pool dsn role lo hi kwargs) = 0)
   \<and> (pk_init kwargs = Some i \<longrightarrow> create_pool dsn role lo hi kwargs = create_pool dsn None lo hi kwargs
        \<and> pc_init (create_pool dsn role lo hi kwargs) = Some i)"
  by (cases "or_none role") (simp_all add: create_pool_def init_sql_def set_role_sql_def)

lemma pool_sets_role_witness:
  "Option.bind (pc_init (create_pool (py ''postgres+x://h/d'') (Some (py ''omur_app'')) 1 10 \<lparr>pk_init = None, pk_cache = None\<rparr>)) init_sql
     = Some [py ''SET ROLE \"omur_app\"'']"
  using pool_sets_role [of "\<lparr>pk_init = None, pk_cache = None\<rparr>" "py ''postgres+x://h/d''" "Some (py ''omur_app'')" 1 10 "CallerInit 0"]
  by (simp add: or_none_def py_def)


end
