(* ===== verification/Services.thy ===== *)
theory Services
  imports Tenant
begin

text \<open>
  The small modules every service mounts: \<open>omkit/health.py\<close>, \<open>omkit/cost.py\<close>, \<open>omkit/logging.py\<close>,
  \<open>omkit/metrics.py\<close>, \<open>omkit/tracing.py\<close>, \<open>omkit/syncnotifier.py\<close> and the check
  of provider classes in \<open>omkit/provider/base.py\<close>.
\<close>

section \<open>Health endpoints\<close>

type_synonym checks = "(pystr, pystr) dict"

text \<open>A response: its status code and its JSON body.\<close>

type_synonym response = "nat \<times> json"

definition liveness :: "pystr \<Rightarrow> pystr \<Rightarrow> response" where
  "liveness service version =
     (200, JObj [(py ''status'', JStr (py ''ok'')), (py ''service'', JStr service), (py ''version'', JStr version)])"

text \<open>The readiness check is absent, raises (Inl), or returns its components.\<close>

definition readiness :: "pystr \<Rightarrow> pystr \<Rightarrow> (nat + checks) option \<Rightarrow> nat + response" where
  "readiness service version ready_check =
     (case ready_check of
        None \<Rightarrow> Inr (200, JObj [(py ''status'', JStr (py ''ready'')), (py ''service'', JStr service), (py ''version'', JStr version)])
      | Some (Inl e) \<Rightarrow> Inl e
      | Some (Inr checks) \<Rightarrow>
          let all_ok = list_all (\<lambda>(_, v). v = py ''ok'') checks;
              status = (if all_ok then py ''ready'' else py ''not_ready'')
          in Inr (if all_ok then 200 else 503,
                  JObj [(py ''status'', JStr status), (py ''service'', JStr service), (py ''version'', JStr version),
                        (py ''checks'', JObj (map (\<lambda>(n, v). (n, JStr v)) checks))]))"

text \<open>The routes that are mounted, and what a GET of each gives; None is a path without a route.\<close>

definition health_get :: "pystr \<Rightarrow> pystr \<Rightarrow> (nat + checks) option \<Rightarrow> pystr \<Rightarrow> (nat + response) option" where
  "health_get service version ready_check path =
     (if path = py ''/health'' \<or> path = py ''/healthz'' then Some (Inr (liveness service version))
      else if path = py ''/ready'' \<or> path = py ''/readyz'' then Some (readiness service version ready_check)
      else None)"

section \<open>Cost telemetry\<close>

text \<open>The numbers a Python float can be, as far as the comparison with zero goes.\<close>

datatype units = Finite int | Infinite bool | NotANumber

definition units_le_zero :: "units \<Rightarrow> bool" where
  "units_le_zero u = (case u of Finite n \<Rightarrow> n \<le> 0 | Infinite positive \<Rightarrow> \<not> positive | NotANumber \<Rightarrow> False)"

definition VALID_BUCKETS :: "pystr list" where
  "VALID_BUCKETS = [py ''system'', py ''trial'', py ''paid'']"

text \<open>The counter is the metrics library's: \<open>inc\<close> adds to one label set, and may raise (None).\<close>

type_synonym cost_labels = "pystr \<times> pystr \<times> pystr \<times> pystr"

definition record_cost ::
    "('c \<Rightarrow> cost_labels \<Rightarrow> units \<Rightarrow> 'c option) \<Rightarrow> pystr \<Rightarrow> pystr \<Rightarrow> pystr \<Rightarrow> units \<Rightarrow> pystr \<Rightarrow> 'c \<Rightarrow> 'c" where
  "record_cost inc service provider op u tenant_bucket counter =
     (if units_le_zero u then counter
      else let bucket = (if tenant_bucket \<in> set VALID_BUCKETS then tenant_bucket else py ''trial'')
           in (case inc counter (service, provider, op, bucket) u of None \<Rightarrow> counter | Some c \<Rightarrow> c))"

section \<open>Log records\<close>

type_synonym event_dict = "(pystr, json) dict"

definition setdefault :: "'k \<Rightarrow> 'v \<Rightarrow> ('k, 'v) dict \<Rightarrow> ('k, 'v) dict" where
  "setdefault k v d = (if dget d k = None then dset k v d else d)"

definition add_service :: "pystr \<Rightarrow> event_dict \<Rightarrow> event_dict" where
  "add_service service_name d = setdefault (py ''service'') (JStr service_name) d"

definition add_correlation :: "tenant_ctx \<Rightarrow> event_dict \<Rightarrow> event_dict" where
  "add_correlation ctx d =
     (let d1 = (case or_none (current_or_none ctx) of None \<Rightarrow> d | Some tid \<Rightarrow> setdefault (py ''tenant_id'') (JStr tid) d)
      in case or_none (request_id ctx) of None \<Rightarrow> d1 | Some rid \<Rightarrow> setdefault (py ''request_id'') (JStr rid) d1)"

datatype renderer = ConsoleRenderer | JsonRenderer

text \<open>\<open>str.lower\<close> as far as the comparison goes: no other character is lowered to a letter of \<open>console\<close>.\<close>

definition ascii_lower :: "pystr \<Rightarrow> pystr" where
  "ascii_lower s = map (\<lambda>c. if 65 \<le> c \<and> c \<le> 90 then c + 32 else c) s"

definition log_renderer :: "pystr option \<Rightarrow> renderer" where
  "log_renderer log_format =
     (if ascii_lower (case log_format of None \<Rightarrow> py ''json'' | Some f \<Rightarrow> f) = py ''console'' then ConsoleRenderer else JsonRenderer)"

text \<open>
  What \<open>configure_logging\<close> installs, in order.  The processors of structlog are its own: \<open>lib\<close> says what
  each makes of a record.
\<close>

datatype lib_processor = MergeContextvars | AddLogLevel | TimeStamper

datatype processor = LibProcessor lib_processor | AddService pystr | AddCorrelation

definition configure_logging :: "pystr \<Rightarrow> pystr option \<Rightarrow> processor list \<times> renderer" where
  "configure_logging service_name log_format =
     ([LibProcessor MergeContextvars, AddService service_name, AddCorrelation, LibProcessor AddLogLevel, LibProcessor TimeStamper],
      log_renderer log_format)"

fun run_processor :: "(lib_processor \<Rightarrow> event_dict \<Rightarrow> event_dict) \<Rightarrow> tenant_ctx \<Rightarrow> processor \<Rightarrow> event_dict \<Rightarrow> event_dict" where
  "run_processor lib ctx (LibProcessor p) d = lib p d"
| "run_processor lib ctx (AddService service_name) d = add_service service_name d"
| "run_processor lib ctx AddCorrelation d = add_correlation ctx d"

text \<open>The record that reaches the renderer.\<close>

definition log_record :: "(lib_processor \<Rightarrow> event_dict \<Rightarrow> event_dict) \<Rightarrow> pystr \<Rightarrow> tenant_ctx \<Rightarrow> event_dict \<Rightarrow> event_dict" where
  "log_record lib service_name ctx d = fold (run_processor lib ctx) (fst (configure_logging service_name None)) d"

section \<open>Metrics and tracing\<close>

text \<open>An application: the two marks the helpers leave on it, and how often each was instrumented.\<close>

record web_app =
  metrics_mounted :: bool
  otel_instrumented :: bool
  metrics_count :: nat
  otel_count :: nat

definition mount_metrics :: "bool \<Rightarrow> web_app \<Rightarrow> web_app option" where
  "mount_metrics installed app =
     (if \<not> installed then None
      else if metrics_mounted app then Some app
      else Some (app\<lparr>metrics_count := metrics_count app + 1, metrics_mounted := True\<rparr>))"

definition instrument_fastapi :: "bool \<Rightarrow> web_app \<Rightarrow> web_app" where
  "instrument_fastapi installed app =
     (if \<not> installed then app
      else if otel_instrumented app then app
      else app\<lparr>otel_count := otel_count app + 1, otel_instrumented := True\<rparr>)"

definition DEFAULT_ENDPOINT :: pystr where "DEFAULT_ENDPOINT = []"

text \<open>
  The process-wide tracing state, and \<open>init_tracing\<close>: a provider is its service name and the URL its
  batches go to.  \<open>sdk\<close> and \<open>propagators\<close> tell whether the two groups of imports succeed.
\<close>

record otel_provider =
  op_service :: pystr
  op_url :: pystr

record otel_state =
  ot_provider :: "otel_provider option"
  ot_propagators :: bool

definition init_tracing ::
    "bool \<Rightarrow> bool \<Rightarrow> pystr option \<Rightarrow> pystr \<Rightarrow> pystr option \<Rightarrow> otel_state \<Rightarrow> otel_state \<times> otel_provider option" where
  "init_tracing sdk propagators env service_name endpoint g =
     (let e = (case endpoint of Some e \<Rightarrow> e | None \<Rightarrow> (case env of Some v \<Rightarrow> v | None \<Rightarrow> DEFAULT_ENDPOINT))
      in if e = [] then (g, None)
         else if \<not> sdk then (g, None)
         else let p = \<lparr>op_service = service_name, op_url = e @ py ''/v1/traces''\<rparr>;
                  g1 = g\<lparr>ot_provider := Some p\<rparr>
              in (if propagators then g1\<lparr>ot_propagators := True\<rparr> else g1, Some p))"

section \<open>SyncNotifier\<close>

datatype notification =
    Upsert pystr pystr json
  | Deletion pystr pystr
  | Metrics pystr pystr "json list"

datatype http_method = POST | DELETE

record http_request =
  hq_method :: http_method
  hq_url :: pystr
  hq_json :: "json option"
  hq_token :: pystr

record notifier =
  nf_base :: pystr
  nf_token :: pystr
  nf_client :: "nat option"
  nf_closed :: "bool list"

definition notifier_init :: "pystr \<Rightarrow> pystr \<Rightarrow> notifier" where
  "notifier_init base_url token =
     \<lparr>nf_base = rev (dropWhile (\<lambda>c. c = 47) (rev base_url)), nf_token = token, nf_client = None, nf_closed = []\<rparr>"

text \<open>The notifier's clients are numbered; \<open>nf_closed\<close> tells of each whether it is closed.\<close>

definition get_client :: "notifier \<Rightarrow> notifier \<times> nat" where
  "get_client n =
     (case nf_client n of
        Some c \<Rightarrow> if nf_closed n ! c then (n\<lparr>nf_client := Some (length (nf_closed n)), nf_closed := nf_closed n @ [False]\<rparr>, length (nf_closed n))
                  else (n, c)
      | None \<Rightarrow> (n\<lparr>nf_client := Some (length (nf_closed n)), nf_closed := nf_closed n @ [False]\<rparr>, length (nf_closed n)))"

definition request_of :: "notifier \<Rightarrow> notification \<Rightarrow> http_request" where
  "request_of n msg =
     (case msg of
        Upsert rtype rid data \<Rightarrow>
          \<lparr>hq_method = POST, hq_url = nf_base n @ py ''/sync/'' @ rtype @ py ''/'' @ rid, hq_json = Some data, hq_token = nf_token n\<rparr>
      | Deletion rtype rid \<Rightarrow>
          \<lparr>hq_method = DELETE, hq_url = nf_base n @ py ''/sync/'' @ rtype @ py ''/'' @ rid, hq_json = None, hq_token = nf_token n\<rparr>
      | Metrics metric date rows \<Rightarrow>
          \<lparr>hq_method = POST, hq_url = nf_base n @ py ''/sync/metrics'',
           hq_json = Some (JObj [(py ''metric_name'', JStr metric), (py ''date'', JStr date), (py ''rows'', JArr rows)]), hq_token = nf_token n\<rparr>)"

datatype send_log = Queued | UnexpectedStatus nat | SendFailed

text \<open>
  \<open>_send\<close>, \<open>_send_delete\<close> and \<open>_send_metrics\<close>: \<open>answer\<close> is the status code, or None when the request
  raised; the result is the notifier, the client and request used, and what is logged.
\<close>

definition send_note :: "notification \<Rightarrow> nat option \<Rightarrow> notifier \<Rightarrow> notifier \<times> nat \<times> http_request \<times> send_log" where
  "send_note msg answer n =
     (case get_client n of
        (n', c) \<Rightarrow> (n', c, request_of n' msg,
          case answer of None \<Rightarrow> SendFailed | Some code \<Rightarrow> if code = 202 then Queued else UnexpectedStatus code))"

definition close_notifier :: "notifier \<Rightarrow> notifier" where
  "close_notifier n =
     (case nf_client n of
        Some c \<Rightarrow> if \<not> nf_closed n ! c then n\<lparr>nf_closed := (nf_closed n)[c := True]\<rparr> else n
      | None \<Rightarrow> n)"

inductive notifier_step :: "notifier \<Rightarrow> notifier \<Rightarrow> bool" where
  n_send: "notifier_step n (fst (send_note msg answer n))"
| n_close: "notifier_step n (close_notifier n)"

section \<open>Provider classes\<close>

text \<open>
  \<open>ProviderBase.__init_subclass__\<close> on the attributes of the class itself.  It runs before \<open>ABCMeta\<close>
  has computed the class's \<open>__abstractmethods__\<close>, so the test for them finds none and the
  attributes are checked for every subclass.
\<close>

datatype class_attr = StrAttr pystr | OtherAttr nat

definition abstract_known :: "pystr list \<Rightarrow> bool" where
  "abstract_known abstract_methods = False"

definition is_str_attr :: "class_attr option \<Rightarrow> bool" where
  "is_str_attr a = (case a of Some (StrAttr _) \<Rightarrow> True | _ \<Rightarrow> False)"

text \<open>The attribute the \<open>TypeError\<close> names, None when the class is accepted.\<close>

definition init_subclass :: "pystr list \<Rightarrow> (pystr, class_attr) dict \<Rightarrow> pystr option" where
  "init_subclass abstract_methods own =
     (if \<not> abstract_known abstract_methods
      then find (\<lambda>attr. \<not> is_str_attr (dget own attr)) [py ''kind'', py ''name'']
      else None)"

section \<open>Lemmas\<close>

lemma setdefault_get [simp]: "dget (setdefault k v d) k' = (if k' = k \<and> dget d k = None then Some v else dget d k')"
  by (auto simp: setdefault_def)

definition notifier_ok :: "notifier \<Rightarrow> bool" where
  "notifier_ok n =
     (case nf_client n of
        None \<Rightarrow> \<forall>i < length (nf_closed n). nf_closed n ! i
      | Some c \<Rightarrow> c < length (nf_closed n) \<and> (\<forall>i < length (nf_closed n). i \<noteq> c \<longrightarrow> nf_closed n ! i))"

lemma get_client_ok:
  assumes "notifier_ok n" "get_client n = (n', c)"
  shows "notifier_ok n'" "nf_client n' = Some c" "c < length (nf_closed n')" "\<not> nf_closed n' ! c"
    and "nf_base n' = nf_base n" "nf_token n' = nf_token n"
proof -
  let ?fresh = "n\<lparr>nf_client := Some (length (nf_closed n)), nf_closed := nf_closed n @ [False]\<rparr>"
  have all: "notifier_ok n' \<and> nf_client n' = Some c \<and> c < length (nf_closed n') \<and> \<not> nf_closed n' ! c
      \<and> nf_base n' = nf_base n \<and> nf_token n' = nf_token n"
  proof (cases "\<exists>d. nf_client n = Some d \<and> \<not> nf_closed n ! d")
    case True
    then have "n' = n \<and> nf_client n = Some c \<and> \<not> nf_closed n ! c" using assms(2) by (auto simp: get_client_def)
    then show ?thesis using assms(1) by (simp add: notifier_ok_def)
  next
    case False
    then have n': "n' = ?fresh" "c = length (nf_closed n)" using assms(2) by (auto simp: get_client_def split: option.splits)
    have "nf_closed n ! i" if "i < length (nf_closed n)" for i
      using assms(1) False that by (cases "nf_client n"; cases "Some i = nf_client n") (auto simp: notifier_ok_def)
    then have "notifier_ok ?fresh" by (simp add: notifier_ok_def nth_append less_Suc_eq)
    then show ?thesis by (simp add: n' nth_append)
  qed
  show "notifier_ok n'" "nf_client n' = Some c" "c < length (nf_closed n')" "\<not> nf_closed n' ! c"
      "nf_base n' = nf_base n" "nf_token n' = nf_token n"
    using all by simp_all
qed

lemma notifier_ok_step: "notifier_step n n' \<Longrightarrow> notifier_ok n \<Longrightarrow> notifier_ok n'"
proof (erule notifier_step.cases)
  fix m msg answer assume "n = m" "n' = fst (send_note msg answer m)" "notifier_ok n"
  then show "notifier_ok n'" using get_client_ok(1) [of m] by (cases "get_client m") (simp add: send_note_def)
next
  fix m assume "n = m" "n' = close_notifier m" "notifier_ok n"
  then show "notifier_ok n'" by (auto simp: close_notifier_def notifier_ok_def nth_list_update split: option.splits)
qed

lemma notifier_ok_reach: "notifier_step\<^sup>*\<^sup>* (notifier_init base token) n \<Longrightarrow> notifier_ok n"
proof (induction rule: rtranclp_induct)
  case base
  show ?case by (simp add: notifier_ok_def notifier_init_def)
qed (rule notifier_ok_step)

lemma notifier_fields:
  assumes "notifier_step\<^sup>*\<^sup>* n0 n" "notifier_ok n0"
  shows "nf_base n = nf_base n0 \<and> nf_token n = nf_token n0 \<and> notifier_ok n"
  using assms
proof (induction rule: rtranclp_induct)
  case (step y z)
  from step(2) show ?case
  proof (cases rule: notifier_step.cases)
    case (n_send msg answer)
    obtain q d where g: "get_client y = (q, d)" by (cases "get_client y")
    have "z = q" using n_send g by (simp add: send_note_def)
    moreover have "notifier_ok y" using step.IH [OF step.prems] by simp
    ultimately show ?thesis using step.IH [OF step.prems] get_client_ok(1,5,6) [OF _ g] by simp
  next
    case n_close
    then show ?thesis using step.IH [OF step.prems] notifier_ok_step [OF step(2)] by (auto simp: close_notifier_def split: option.splits)
  qed
qed simp

section \<open>Properties\<close>

text \<open>
  Probes: the four paths and no others have a route; the liveness paths answer 200 whatever the
  readiness check says or does; the readiness paths answer 200 when no component reports anything
  but \<open>ok\<close>, 503 when one does, and raise exactly when the check does; and the tenant gate lets every
  mounted path through without a tenant header, under the context it was entered with.
\<close>

theorem health_contract:
  "(health_get service version chk path \<noteq> None \<longleftrightarrow> path \<in> {py ''/health'', py ''/healthz'', py ''/ready'', py ''/readyz''})
   \<and> (path \<in> {py ''/health'', py ''/healthz''} \<longrightarrow> health_get service version chk path = Some (Inr (liveness service version)) \<and> fst (liveness service version) = 200)
   \<and> (path \<in> {py ''/ready'', py ''/readyz''} \<longrightarrow>
        (case chk of
           None \<Rightarrow> \<exists>body. health_get service version chk path = Some (Inr (200, body))
         | Some (Inl e) \<Rightarrow> health_get service version chk path = Some (Inl e)
         | Some (Inr cs) \<Rightarrow> \<exists>body. health_get service version chk path = Some (Inr (if \<forall>(n, v) \<in> set cs. v = py ''ok'' then 200 else 503, body))))
   \<and> (health_get service version chk path \<noteq> None \<and> scope_path sc = path \<longrightarrow>
        tenant_call None app sc u snd_fn ctx s = run_prog snd_fn (app sc) ctx s)"
  by (auto simp: health_get_def liveness_def readiness_def tenant_call_def excluded_paths_def DEFAULT_EXCLUDE_def Let_def list_all_iff
      split: option.split sum.split)

lemma health_contract_witness:
  "\<exists>body. health_get (py ''api'') (py ''1'') (Some (Inr [(py ''db'', py ''down'')])) (py ''/ready'') = Some (Inr (503, body))"
  using health_contract [of "py ''api''" "py ''1''" "Some (Inr [(py ''db'', py ''down'')])" "py ''/ready''",
      THEN conjunct2, THEN conjunct2, THEN conjunct1] by simp

text \<open>
  Over any sequence of notifications and closes the notifier has at most one open client, and every
  request goes over it, to the configured host without its trailing slashes and with the configured
  token; the call raises nothing and logs exactly one outcome, \<open>Queued\<close> exactly for a 202.
\<close>

theorem notifier_one_client:
  assumes "notifier_step\<^sup>*\<^sup>* (notifier_init base_url token) n" "send_note msg answer n = (n', c, req, out)"
  shows "(\<forall>i j. i < length (nf_closed n') \<and> j < length (nf_closed n') \<and> \<not> nf_closed n' ! i \<and> \<not> nf_closed n' ! j \<longrightarrow> i = j)
    \<and> c < length (nf_closed n') \<and> \<not> nf_closed n' ! c
    \<and> hq_token req = token
    \<and> (\<exists>path. hq_url req = rev (dropWhile (\<lambda>ch. ch = 47) (rev base_url)) @ py ''/sync/'' @ path)
    \<and> (out = Queued \<longleftrightarrow> answer = Some 202)"
proof -
  have ok: "notifier_ok n" and f: "nf_base n = rev (dropWhile (\<lambda>ch. ch = 47) (rev base_url))" "nf_token n = token"
    using notifier_fields [OF assms(1)] notifier_ok_reach [OF assms(1)] by (simp_all add: notifier_ok_def notifier_init_def)
  have g: "get_client n = (n', c)" and r: "req = request_of n' msg"
    and o: "out = (case answer of None \<Rightarrow> SendFailed | Some code \<Rightarrow> if code = 202 then Queued else UnexpectedStatus code)"
    using assms(2) by (simp_all add: send_note_def split: prod.splits)
  note c = get_client_ok [OF ok g]
  have "\<exists>path. hq_url req = nf_base n' @ py ''/sync/'' @ path"
  proof (cases msg)
    case (Metrics m d rows)
    then show ?thesis unfolding r by (intro exI [of _ "py ''metrics''"]) (simp add: request_of_def py_def)
  qed (auto simp: r request_of_def)
  moreover have "hq_token req = nf_token n'" by (cases msg) (simp_all add: r request_of_def)
  moreover have "\<forall>i j. i < length (nf_closed n') \<and> j < length (nf_closed n') \<and> \<not> nf_closed n' ! i \<and> \<not> nf_closed n' ! j \<longrightarrow> i = j"
    using c(1,2) by (auto simp: notifier_ok_def)
  moreover have "out = Queued \<longleftrightarrow> answer = Some 202" using o by (auto split: option.splits)
  ultimately show ?thesis using c(3-6) f by simp
qed

lemma notifier_one_client_witness:
  "\<exists>n' c req out. send_note (Deletion (py ''doc'') (py ''7'')) (Some 202) (notifier_init (py ''http://s/'') (py ''t'')) = (n', c, req, out)
     \<and> hq_token req = py ''t'' \<and> out = Queued"
proof -
  obtain n' c req out where s: "send_note (Deletion (py ''doc'') (py ''7'')) (Some 202) (notifier_init (py ''http://s/'') (py ''t'')) = (n', c, req, out)"
    by (metis prod_cases4)
  from notifier_one_client [OF rtranclp.rtrancl_refl s] s show ?thesis by auto
qed

lemma own_tags:
  "dget (add_correlation ctx (add_service service d)) k =
     (case dget d k of
        Some v \<Rightarrow> Some v
      | None \<Rightarrow> if k = py ''service'' then Some (JStr service)
               else if k = py ''tenant_id'' then map_option JStr (or_none (ctx_tenant ctx))
               else if k = py ''request_id'' then map_option JStr (or_none (ctx_request ctx))
               else None)"
  by (auto simp: add_service_def add_correlation_def current_or_none_def request_id_def Let_def split: option.split)

text \<open>What the three processors of structlog do to a record; \<open>merged\<close> are the fields of its context variables.\<close>

definition structlog_ok :: "(lib_processor \<Rightarrow> event_dict \<Rightarrow> event_dict) \<Rightarrow> event_dict \<Rightarrow> bool" where
  "structlog_ok lib merged =
     ((\<forall>d k. dget (lib MergeContextvars d) k = (case dget d k of Some v \<Rightarrow> Some v | None \<Rightarrow> dget merged k))
      \<and> (\<forall>d k. k \<noteq> py ''level'' \<longrightarrow> dget (lib AddLogLevel d) k = dget d k)
      \<and> (\<forall>d k. k \<noteq> py ''timestamp'' \<longrightarrow> dget (lib TimeStamper d) k = dget d k))"

text \<open>
  Every log record reaches the renderer with a service, and with the tenant and request id of the
  context when they are bound: under structlog's own processors, which set the level and the time
  stamp and may merge in fields the call did not set, a field the call set itself is never replaced.
\<close>

theorem log_record_tagged:
  assumes "structlog_ok lib merged" "k \<noteq> py ''level''" "k \<noteq> py ''timestamp''"
  shows "dget (log_record lib service ctx d) k =
     (case dget d k of
        Some v \<Rightarrow> Some v
      | None \<Rightarrow> (case dget merged k of
          Some v \<Rightarrow> Some v
        | None \<Rightarrow> if k = py ''service'' then Some (JStr service)
               else if k = py ''tenant_id'' then map_option JStr (or_none (ctx_tenant ctx))
               else if k = py ''request_id'' then map_option JStr (or_none (ctx_request ctx))
               else None))"
proof -
  have "dget (log_record lib service ctx d) k = dget (add_correlation ctx (add_service service (lib MergeContextvars d))) k"
    using assms by (simp add: log_record_def configure_logging_def structlog_ok_def)
  moreover have "dget (lib MergeContextvars d) j = (case dget d j of Some v \<Rightarrow> Some v | None \<Rightarrow> dget merged j)" for j
    using assms(1) by (simp add: structlog_ok_def)
  ultimately show ?thesis by (simp add: own_tags split: option.split)
qed

definition toy_structlog :: "lib_processor \<Rightarrow> event_dict \<Rightarrow> event_dict" where
  "toy_structlog p d =
     (case p of MergeContextvars \<Rightarrow> d | AddLogLevel \<Rightarrow> dset (py ''level'') (JStr (py ''info'')) d
      | TimeStamper \<Rightarrow> dset (py ''timestamp'') (JStr (py ''2026'')) d)"

lemma log_record_tagged_witness:
  "dget (log_record toy_structlog (py ''api'') \<lparr>ctx_tenant = Some (uuid_text 7), ctx_request = None\<rparr> [(py ''event'', JStr (py ''up''))]) (py ''tenant_id'')
    = Some (JStr (uuid_text 7))"
proof -
  have "structlog_ok toy_structlog []" by (auto simp: structlog_ok_def toy_structlog_def split: option.split)
  moreover have "or_none (Some (uuid_text 7)) = Some (uuid_text 7)" by (simp add: or_none_def uuid_text_def Let_def)
  ultimately show ?thesis
    using log_record_tagged [of toy_structlog "[]" "py ''tenant_id''" "py ''api''" "\<lparr>ctx_tenant = Some (uuid_text 7), ctx_request = None\<rparr>"
        "[(py ''event'', JStr (py ''up''))]"] by simp
qed

text \<open>Tracing is set up exactly when there is an endpoint and the SDK is installed; otherwise nothing changes.\<close>

lemma init_tracing_off:
  "snd (init_tracing sdk props env service endpoint g) = None \<longleftrightarrow>
     \<not> sdk \<or> or_none (case endpoint of Some e \<Rightarrow> Some e | None \<Rightarrow> env) = None"
  "snd (init_tracing sdk props env service endpoint g) = None \<Longrightarrow> fst (init_tracing sdk props env service endpoint g) = g"
  by (auto simp: init_tracing_def Let_def or_none_def DEFAULT_ENDPOINT_def split: option.splits if_splits)

text \<open>A cost record touches one of the three buckets at most, and a class is accepted with both names only.\<close>

lemma record_cost_labels:
  "record_cost inc service provider op u b c = c
   \<or> (\<exists>bucket \<in> set VALID_BUCKETS. \<not> units_le_zero u \<and> inc c (service, provider, op, bucket) u = Some (record_cost inc service provider op u b c)
        \<and> (b \<in> set VALID_BUCKETS \<longrightarrow> bucket = b))"
proof (cases "units_le_zero u \<or> inc c (service, provider, op, if b \<in> set VALID_BUCKETS then b else py ''trial'') u = None")
  case True
  then show ?thesis by (auto simp: record_cost_def Let_def)
next
  case False
  moreover have "(if b \<in> set VALID_BUCKETS then b else py ''trial'') \<in> set VALID_BUCKETS" by (simp add: VALID_BUCKETS_def)
  ultimately show ?thesis
    by (intro disjI2 bexI [of _ "if b \<in> set VALID_BUCKETS then b else py ''trial''"]) (auto simp only: record_cost_def Let_def if_False if_True option.case split: option.split)
qed

lemma init_subclass_accepts: "init_subclass ms own = None \<longleftrightarrow> is_str_attr (dget own (py ''kind'')) \<and> is_str_attr (dget own (py ''name''))"
  by (simp add: init_subclass_def abstract_known_def)

lemma mounting_twice:
  "mount_metrics True app = Some a \<Longrightarrow> mount_metrics True a = Some a"
  "instrument_fastapi i (instrument_fastapi i app) = instrument_fastapi i app"
  by (auto simp: mount_metrics_def instrument_fastapi_def split: if_splits)


end
