(* ===== verification/JsonIndent.thy ===== *)
theory JsonIndent
  imports JsonRT
begin

text \<open>
  \<open>json.dumps\<close> with \<open>indent=2\<close>, as \<open>omkit/sanitize.py\<close> re-serialises the JSON of a model's answer and
  \<open>scripts/regen_golden.py\<close> writes the golden files, and its round trip.
\<close>

section \<open>Writing\<close>

text \<open>\<open>json.dumps(v, indent=2, ensure_ascii=ea)\<close>, the members in their order.\<close>

definition esc_ind :: "bool \<Rightarrow> nat \<Rightarrow> pystr" where
  "esc_ind ea c = (if \<not> ea \<and> 127 \<le> c then [c] else esc_char c)"

definition esc_ind_str :: "bool \<Rightarrow> pystr \<Rightarrow> pystr" where
  "esc_ind_str ea s = 34 # concat (map (esc_ind ea) s) @ [34]"

definition newline :: "nat \<Rightarrow> pystr" where
  "newline n = 10 # replicate (2 * n) 32"

fun dumps_indent :: "bool \<Rightarrow> nat \<Rightarrow> json \<Rightarrow> pystr"
and indent_elems :: "bool \<Rightarrow> nat \<Rightarrow> json list \<Rightarrow> pystr"
and indent_membs :: "bool \<Rightarrow> nat \<Rightarrow> (pystr \<times> json) list \<Rightarrow> pystr" where
  "dumps_indent ea n (JArr []) = [91, 93]"
| "dumps_indent ea n (JArr (x # xs)) = 91 # newline (Suc n) @ dumps_indent ea (Suc n) x @ indent_elems ea n xs"
| "dumps_indent ea n (JObj []) = [123, 125]"
| "dumps_indent ea n (JObj ((k, v) # kvs)) =
     123 # newline (Suc n) @ esc_ind_str ea k @ [58, 32] @ dumps_indent ea (Suc n) v @ indent_membs ea n kvs"
| "dumps_indent ea n (JStr s) = esc_ind_str ea s"
| "dumps_indent ea n v = dumps_default v"
| "indent_elems ea n [] = newline n @ [93]"
| "indent_elems ea n (x # xs) = 44 # newline (Suc n) @ dumps_indent ea (Suc n) x @ indent_elems ea n xs"
| "indent_membs ea n [] = newline n @ [125]"
| "indent_membs ea n ((k, v) # kvs) = 44 # newline (Suc n) @ esc_ind_str ea k @ [58, 32] @ dumps_indent ea (Suc n) v @ indent_membs ea n kvs"

section \<open>Reading back\<close>

lemma scan_unit_raw: "valid_cp c \<Longrightarrow> scan_unit (esc_ind ea c @ r) = Some (c, r)"
  using scan_unit_esc [of c r] by (auto simp: esc_ind_def) (auto simp: scan_unit_def)

lemma esc_ind_hd: "\<exists>e r. esc_ind ea c = e # r \<and> e \<noteq> 34"
  using esc_char_hd [of c] by (auto simp: esc_ind_def)

lemma scan_str_raw: "list_all valid_cp s \<Longrightarrow> scan_str (concat (map (esc_ind ea) s) @ 34 # r) = Some (s, r)"
proof (induction s)
  case (Cons c s)
  let ?rest = "concat (map (esc_ind ea) s) @ 34 # r"
  obtain e t where e: "esc_ind ea c = e # t" "e \<noteq> 34" using esc_ind_hd by blast
  have "scan_unit (e # (t @ ?rest)) = Some (c, ?rest)"
    using scan_unit_raw [of c ea ?rest] Cons.prems e by simp
  from scan_str_unit [OF e(2) this] Cons show ?case by (simp add: e)
qed simp

lemma esc_ind_str_hd: "\<exists>u. esc_ind_str ea s = 34 # u"
  by (simp add: esc_ind_str_def)

lemma skip_newline: "skip_ws (newline n @ s) = skip_ws s"
  by (rule skip_ws_blank) (unfold newline_def list_all_iff json_ws_def, auto)

text \<open>A value starts with a character that is no blank and closes nothing.\<close>

lemma dumps_indent_hd: "jwf v \<Longrightarrow> \<exists>c r. dumps_indent ea n v = c # r \<and> solid c"
proof (cases v)
  case (JArr xs)
  then show ?thesis by (cases xs) (auto simp: solid_def)
next
  case (JObj kvs)
  then show ?thesis by (cases kvs) (auto simp: solid_def)
next
  case (JStr s)
  then show ?thesis by (auto simp: esc_ind_str_def solid_def)
qed (use dumps_hd [of v] in \<open>auto simp: dumps_default_def\<close>)

lemma skip_value: "jwf v \<Longrightarrow> skip_ws (dumps_indent ea n v @ r) = dumps_indent ea n v @ r"
  using dumps_indent_hd [of v ea n] by (auto simp: solid_def)

lemma indent_elems_delim: "delim (indent_elems ea n xs @ r)"
  by (cases xs) (auto simp: delim_def newline_def)

lemma indent_membs_delim: "delim (indent_membs ea n kvs @ r)"
  by (cases kvs) (auto simp: delim_def newline_def)

definition reads_indent :: "bool \<Rightarrow> nat \<Rightarrow> json \<Rightarrow> bool" where
  "reads_indent ea n v \<longleftrightarrow> (\<forall>r. delim r \<longrightarrow> scan_value (dumps_indent ea n v @ r) = Some (v, r))"

lemma reads_indentD: "reads_indent ea n v \<Longrightarrow> delim r \<Longrightarrow> scan_value (dumps_indent ea n v @ r) = Some (v, r)"
  by (simp add: reads_indent_def)

text \<open>The rest of an array after its first element, and of an object after its first member.\<close>

definition elems_indent :: "bool \<Rightarrow> nat \<Rightarrow> json list \<Rightarrow> bool" where
  "elems_indent ea n xs \<longleftrightarrow> (\<forall>y r. reads_indent ea (Suc n) y \<longrightarrow>
     scan_elems (dumps_indent ea (Suc n) y @ indent_elems ea n xs @ r) = Some (y # xs, r))"

definition membs_indent :: "bool \<Rightarrow> nat \<Rightarrow> (pystr \<times> json) list \<Rightarrow> bool" where
  "membs_indent ea n kvs \<longleftrightarrow> (\<forall>k y r. reads_indent ea (Suc n) y \<longrightarrow> jwf y \<longrightarrow> list_all valid_cp k \<longrightarrow>
     scan_membs (esc_ind_str ea k @ [58, 32] @ dumps_indent ea (Suc n) y @ indent_membs ea n kvs @ r) = Some ((k, y) # kvs, r))"

lemma elems_indent_Nil: "elems_indent ea n []"
proof -
  have "scan_elems (dumps_indent ea (Suc n) y @ newline n @ 93 # r) = Some ([y], r)" if "reads_indent ea (Suc n) y" for y r
  proof -
    have "scan_value (dumps_indent ea (Suc n) y @ newline n @ 93 # r) = Some (y, newline n @ 93 # r)"
      by (rule reads_indentD [OF that]) (simp add: delim_def newline_def)
    then show ?thesis by (subst scan_elems_eq) (simp add: skip_newline)
  qed
  then show ?thesis by (simp add: elems_indent_def)
qed

lemma elems_indent_Cons:
  assumes "reads_indent ea (Suc n) x" "jwf x" "elems_indent ea n xs"
  shows "elems_indent ea n (x # xs)"
proof -
  have "scan_elems (dumps_indent ea (Suc n) y @ indent_elems ea n (x # xs) @ r) = Some (y # x # xs, r)" if y: "reads_indent ea (Suc n) y" for y r
  proof -
    let ?t = "dumps_indent ea (Suc n) x @ indent_elems ea n xs @ r"
    have "scan_value (dumps_indent ea (Suc n) y @ indent_elems ea n (x # xs) @ r) = Some (y, 44 # newline (Suc n) @ ?t)"
      using reads_indentD [OF y indent_elems_delim [of ea n "x # xs" r]] by simp
    moreover have "skip_ws (newline (Suc n) @ ?t) = ?t" by (simp add: skip_newline skip_value [OF assms(2)])
    moreover have "scan_elems ?t = Some (x # xs, r)" using assms(1,3) by (simp add: elems_indent_def)
    ultimately show ?thesis by (subst scan_elems_eq) simp
  qed
  then show ?thesis by (simp add: elems_indent_def)
qed

lemma scan_member:
  assumes "reads_indent ea (Suc n) y" "jwf y" "list_all valid_cp k" "delim t" "skip_ws t = d # r"
  shows "scan_membs (esc_ind_str ea k @ [58, 32] @ dumps_indent ea (Suc n) y @ t) =
    (if d = 125 then Some ([(k, y)], r)
     else if d = 44 then (case scan_membs (skip_ws r) of None \<Rightarrow> None | Some (kvs, r4) \<Rightarrow> Some ((k, y) # kvs, r4))
     else None)"
proof -
  have s: "scan_str (concat (map (esc_ind ea) k) @ 34 # 58 # 32 # dumps_indent ea (Suc n) y @ t) = Some (k, 58 # 32 # dumps_indent ea (Suc n) y @ t)"
    by (rule scan_str_raw [OF assms(3)])
  have "skip_ws (32 # dumps_indent ea (Suc n) y @ t) = dumps_indent ea (Suc n) y @ t"
    using skip_ws_blank [of "[32]" "dumps_indent ea (Suc n) y @ t"] skip_value [OF assms(2)] by (simp add: json_ws_def)
  then have v: "scan_value (skip_ws (32 # dumps_indent ea (Suc n) y @ t)) = Some (y, t)"
    using reads_indentD [OF assms(1,4)] by simp
  have "skip_ws (58 # 32 # dumps_indent ea (Suc n) y @ t) = 58 # 32 # dumps_indent ea (Suc n) y @ t" by simp
  from scan_membs_str [OF s this v assms(5)] show ?thesis by (simp add: esc_ind_str_def)
qed

lemma membs_indent_Nil: "membs_indent ea n []"
proof -
  have "skip_ws (newline n @ 125 # r) = 125 # r" for r by (simp add: skip_newline)
  then show ?thesis
    using scan_member [where t = "newline n @ 125 # _"] by (auto simp: membs_indent_def delim_def newline_def)
qed

lemma membs_indent_Cons:
  assumes "reads_indent ea (Suc n) v" "jwf v" "list_all valid_cp m" "membs_indent ea n kvs"
  shows "membs_indent ea n ((m, v) # kvs)"
proof -
  have "scan_membs (esc_ind_str ea k @ [58, 32] @ dumps_indent ea (Suc n) y @ indent_membs ea n ((m, v) # kvs) @ r) = Some ((k, y) # (m, v) # kvs, r)"
    if y: "reads_indent ea (Suc n) y" "jwf y" "list_all valid_cp k" for k y r
  proof -
    let ?u = "esc_ind_str ea m @ [58, 32] @ dumps_indent ea (Suc n) v @ indent_membs ea n kvs @ r"
    have "skip_ws (indent_membs ea n ((m, v) # kvs) @ r) = 44 # newline (Suc n) @ ?u" by simp
    moreover have "skip_ws (newline (Suc n) @ ?u) = ?u" by (simp add: skip_newline esc_ind_str_def)
    then have "scan_membs (skip_ws (newline (Suc n) @ ?u)) = Some ((m, v) # kvs, r)"
      using assms unfolding membs_indent_def by simp
    ultimately show ?thesis by (subst scan_member [OF y indent_membs_delim]) (assumption, simp only: option.case prod.case, simp)
  qed
  then show ?thesis by (simp add: membs_indent_def)
qed

lemma scan_indent:
  "jwf v \<Longrightarrow> reads_indent ea n v" "jwf_elems xs \<Longrightarrow> elems_indent ea' n' xs" "jwf_membs kvs \<Longrightarrow> membs_indent ea'' n'' kvs"
proof (induction ea n v and ea' n' xs and ea'' n'' kvs rule: dumps_indent_indent_elems_indent_membs.induct)
  case (2 ea n x xs)
  then have "reads_indent ea (Suc n) x" "elems_indent ea n xs" "jwf x" by simp_all
  then have "scan_elems (dumps_indent ea (Suc n) x @ indent_elems ea n xs @ r) = Some (x # xs, r)" for r by (simp add: elems_indent_def)
  moreover have "skip_ws (newline (Suc n) @ dumps_indent ea (Suc n) x @ s) = dumps_indent ea (Suc n) x @ s" for s
    by (simp add: skip_newline skip_value [OF \<open>jwf x\<close>])
  moreover obtain c u where "dumps_indent ea (Suc n) x = c # u" "solid c" using dumps_indent_hd [OF \<open>jwf x\<close>] by blast
  ultimately show ?case by (auto simp: reads_indent_def startswith_def solid_def)
next
  case (4 ea n k v kvs)
  then have m: "reads_indent ea (Suc n) v" "membs_indent ea n kvs" "jwf v" "list_all valid_cp k" by simp_all
  have s: "scan_membs (esc_ind_str ea k @ [58, 32] @ dumps_indent ea (Suc n) v @ indent_membs ea n kvs @ r) = Some ((k, v) # kvs, r)" for r
    using m unfolding membs_indent_def by blast
  have "skip_ws (newline (Suc n) @ esc_ind_str ea k @ t) = esc_ind_str ea k @ t" for t by (simp add: skip_newline esc_ind_str_def)
  moreover have "dict_of ((k, v) # kvs) = (k, v) # kvs" by (rule dict_of_distinct) (use 4 in simp)
  moreover have "\<not> startswith [125] (esc_ind_str ea k @ t)" for t by (simp add: esc_ind_str_def startswith_def)
  ultimately show ?case using s by (simp add: reads_indent_def)
qed (use elems_indent_Nil elems_indent_Cons membs_indent_Nil membs_indent_Cons in
      \<open>auto simp: reads_indent_def startswith_def dict_of_def esc_ind_str_def scan_str_raw dumps_default_def
         scan_value_number scan_number_str_int wf_float_def scan_value_const simp del: scan_value.simps(1)\<close>)

text \<open>Documents that are arrays or objects: the only ones the sources re-serialise.\<close>

lemma loads_dumps_indent_ws:
  assumes "jwf v" "\<exists>xs. v = JArr xs \<or> (\<exists>kvs. v = JObj kvs)" "list_all json_ws r" "delim r"
  shows "loads (dumps_indent ea n v @ r) = Some v"
proof -
  have s: "scan_value (dumps_indent ea n v @ r) = Some (v, r)"
    by (rule reads_indentD [OF scan_indent(1) [OF assms(1)] assms(4)])
  have h: "\<exists>u. dumps_indent ea n v = 91 # u \<or> dumps_indent ea n v = 123 # u"
    using assms(2) by (elim exE disjE) (rename_tac xs, case_tac xs, simp_all, rename_tac kvs, case_tac kvs, auto)
  then have "skip_ws (dumps_indent ea n v @ r) = dumps_indent ea n v @ r" by auto
  moreover have "skip_ws r = []" using skip_ws_blank [OF assms(3), of "[]"] by (simp add: skip_ws_def)
  ultimately show ?thesis using s h by (auto simp: loads_def startswith_def)
qed

lemma loads_dumps_indent:
  assumes "jwf v" "\<exists>xs. v = JArr xs \<or> (\<exists>kvs. v = JObj kvs)"
  shows "loads (dumps_indent ea n v) = Some v"
  using loads_dumps_indent_ws [OF assms, of "[]"] by (simp add: delim_def)

text \<open>Text of printable ASCII characters without quotes is written between quotes as it is.\<close>

definition plain_text :: "string \<Rightarrow> bool" where
  "plain_text s = list_all (\<lambda>c. 32 \<le> (of_char c :: nat) \<and> (of_char c :: nat) \<le> 126 \<and> c \<noteq> CHR 0x22 \<and> c \<noteq> CHR 0x5C) s"

lemma esc_plain_char:
  "32 \<le> (of_char c :: nat) \<Longrightarrow> (of_char c :: nat) \<le> 126 \<Longrightarrow> c \<noteq> CHR 0x22 \<Longrightarrow> c \<noteq> CHR 0x5C \<Longrightarrow> esc_char (of_char c) = [of_char c]"
  using of_char_nat_inj [of c "CHR 0x22"] of_char_nat_inj [of c "CHR 0x5C"] by (simp add: esc_char_def)

lemma esc_plain: "plain_text s \<Longrightarrow> esc_ind_str ea (py s) = 34 # py s @ [34] \<and> esc_str (py s) = 34 # py s @ [34]"
proof -
  assume "plain_text s"
  then have "concat (map (esc_ind ea) (py s)) = py s \<and> concat (map esc_char (py s)) = py s"
    by (induction s) (simp_all add: plain_text_def py_def esc_ind_def esc_plain_char)
  then show ?thesis by (simp add: esc_ind_str_def esc_str_def)
qed

lemma valid_cp_py [simp]: "list_all valid_cp (py s)"
  by (auto simp: list_all_iff valid_cp_def surrogate_def dest: set_py_less)

text \<open>Sorting twice is sorting once.\<close>

lemma insort_key_map: "(\<And>x. fst (g x) = fst x) \<Longrightarrow> insort_key fst (g x) (map g xs) = map g (insort_key fst x xs)"
  by (induction xs) simp_all

lemma sort_key_map: "(\<And>x. fst (g x) = fst x) \<Longrightarrow> sort_key fst (map g xs) = map g (sort_key fst xs)"
  by (induction xs) (simp_all add: insort_key_map)

lemma jsort_idem: "jsort (jsort v) = jsort v"
proof (induction v)
  case (JObj kvs)
  let ?g = "\<lambda>(n, v). (n, jsort v)"
  have key: "fst (?g x) = fst x" for x :: "pystr \<times> json" by (cases x) simp
  let ?s = "sort_key fst (map ?g kvs)"
  have twice: "map ?g (map ?g kvs) = map ?g kvs" using JObj by (auto simp: snds.simps)
  have "map ?g ?s = sort_key fst (map ?g (map ?g kvs))" by (rule sort_key_map [symmetric]) (rule key)
  then have "map ?g ?s = ?s" unfolding twice .
  moreover have "sort_key fst ?s = ?s" by (rule sort_key_id_if_sorted) simp
  ultimately show ?case by (simp only: jsort.simps)
qed simp_all

end
