(* ===== verification/Sanitize.thy ===== *)
theory Sanitize
  imports JsonIndent
begin

text \<open>
  \<open>omkit/sanitize.py\<close>: the cleaning of LLM output and HTML.  Each regular expression of the source is
  the left-to-right scan that Python's matcher makes for it; all of them match in one way only at
  a given place, so that no backtracking is left.  What Unicode calls a word character
  (\<open>\w\<close>) is a parameter.
\<close>

section \<open>Matching\<close>

text \<open>
  Characters compared exactly, or with \<open>re.IGNORECASE\<close>, where four letters outside ASCII match
  \<open>i\<close>, \<open>s\<close> and \<open>k\<close> as well.
\<close>

definition re_fold :: "nat \<Rightarrow> nat" where
  "re_fold c =
     (if 65 \<le> c \<and> c \<le> 90 then c + 32 else if c = 304 \<or> c = 305 then 105 else if c = 383 then 115
      else if c = 8490 then 107 else c)"

definition matches :: "bool \<Rightarrow> pystr \<Rightarrow> pystr \<Rightarrow> bool" where
  "matches ignorecase p s =
     (length p \<le> length s \<and> list_all2 (\<lambda>a c. a = (if ignorecase then re_fold c else c)) p (take (length p) s))"

text \<open>The text before and after the first place where a literal matches.\<close>

fun split_first :: "bool \<Rightarrow> pystr \<Rightarrow> pystr \<Rightarrow> (pystr \<times> pystr) option" where
  "split_first ic p [] = (if matches ic p [] then Some ([], []) else None)"
| "split_first ic p (c # cs) =
     (if matches ic p (c # cs) then Some ([], drop (length p) (c # cs))
      else map_option (\<lambda>(pre, post). (c # pre, post)) (split_first ic p cs))"

lemma split_first_length: "split_first ic p s = Some (pre, post) \<Longrightarrow> length post \<le> length s"
  by (induction ic p s arbitrary: pre post rule: split_first.induct) (auto split: if_splits)

text \<open>\<open>re.sub("open.*?close", "", s)\<close>, the dot matching any character.\<close>

function remove_blocks :: "bool \<Rightarrow> pystr \<Rightarrow> pystr \<Rightarrow> pystr \<Rightarrow> pystr" where
  "remove_blocks ic op cl s =
     (case s of
        [] \<Rightarrow> []
      | c # cs \<Rightarrow>
          (case (if op \<noteq> [] \<and> matches ic op s then split_first ic cl (drop (length op) s) else None) of
             None \<Rightarrow> c # remove_blocks ic op cl cs
           | Some (body, rest) \<Rightarrow> remove_blocks ic op cl rest))"
  by pat_completeness auto
termination
  by (relation "measure (\<lambda>(_, _, _, s). length s)") (auto simp flip: length_greater_0_conv split: if_splits dest!: split_first_length)

declare remove_blocks.simps [simp del]

text \<open>
  \<open>re.sub(pattern, "", s)\<close> for a pattern given as the function that tells what is left after a match
  at the start of the text, which also sees the character before.
\<close>

function remove_all :: "(nat option \<Rightarrow> pystr \<Rightarrow> pystr option) \<Rightarrow> nat option \<Rightarrow> pystr \<Rightarrow> pystr" where
  "remove_all m prev s =
     (case s of
        [] \<Rightarrow> []
      | c # cs \<Rightarrow>
          (case m prev s of
             None \<Rightarrow> c # remove_all m (Some c) cs
           | Some rest \<Rightarrow> if length rest < length s then remove_all m (Some (s ! (length s - length rest - 1))) rest
                         else c # remove_all m (Some c) cs))"
  by pat_completeness auto
termination
  by (relation "measure (\<lambda>(_, _, s). length s)") auto

declare remove_all.simps [simp del]

section \<open>LLM output\<close>

definition THINK :: pystr where "THINK = py ''<think>''"
definition END_THINK :: pystr where "END_THINK = py ''</think>''"
definition FENCE :: pystr where "FENCE = [96, 96, 96]"

definition sanitize_llm_output :: "pystr \<Rightarrow> pystr" where
  "sanitize_llm_output text = (if text = [] then [] else strip (remove_blocks False THINK END_THINK text))"

definition literal :: "string \<Rightarrow> pystr \<Rightarrow> pystr option" where
  "literal p s = (if matches False (py p) s then Some (drop (length p) s) else None)"

text \<open>The body of the first code fence that is closed: \<open>```(?:json)?\s*([\s\S]*?)```\<close>.\<close>

definition fence_body :: "pystr \<Rightarrow> pystr option" where
  "fence_body s =
     (case split_first False FENCE s of
        None \<Rightarrow> None
      | Some (_, r) \<Rightarrow>
          let r1 = (case literal ''json'' r of None \<Rightarrow> r | Some r' \<Rightarrow> r')
          in map_option fst (split_first False FENCE (dropWhile unicode_space r1)))"

definition base64_char :: "nat \<Rightarrow> bool" where
  "base64_char c = (65 \<le> c \<and> c \<le> 90 \<or> 97 \<le> c \<and> c \<le> 122 \<or> 48 \<le> c \<and> c \<le> 57 \<or> c = 43 \<or> c = 47 \<or> c = 61)"

text \<open>At least one character of a class, and what follows the longest such run.\<close>

definition run_of :: "(nat \<Rightarrow> bool) \<Rightarrow> pystr \<Rightarrow> pystr option" where
  "run_of P s = (if takeWhile P s = [] then None else Some (dropWhile P s))"

definition inline_image :: "nat option \<Rightarrow> pystr \<Rightarrow> pystr option" where
  "inline_image prev s =
     Option.bind (literal ''data:image/'' s) (\<lambda>r1.
     Option.bind (run_of (\<lambda>c. c \<noteq> 59) r1) (\<lambda>r2.
     Option.bind (literal '';base64,'' r2) (run_of base64_char)))"

definition markdown_image :: "nat option \<Rightarrow> pystr \<Rightarrow> pystr option" where
  "markdown_image prev s =
     Option.bind (literal ''!['' s) (\<lambda>r1.
     Option.bind (literal ''](''  (dropWhile (\<lambda>c. c \<noteq> 93) r1)) (\<lambda>r2.
     Option.bind (run_of (\<lambda>c. c \<noteq> 41) r2) (literal '')'')))"

definition normalize_json :: "pystr \<Rightarrow> pystr" where
  "normalize_json text =
     (if startswith [123] text \<or> startswith [91] text
      then (case loads text of None \<Rightarrow> text | Some v \<Rightarrow> dumps_indent False 0 (jsort v))
      else text)"

definition sanitize_llm_response :: "pystr \<Rightarrow> pystr" where
  "sanitize_llm_response text =
     (if text = [] then []
      else let t1 = strip (remove_blocks True THINK END_THINK text);
               t2 = (case fence_body t1 of None \<Rightarrow> t1 | Some b \<Rightarrow> strip b);
               t3 = remove_all inline_image None t2;
               t4 = remove_all markdown_image None t3
           in strip (normalize_json (strip t4)))"

section \<open>JSON in LLM output\<close>

definition is_open :: "nat \<Rightarrow> bool" where
  "is_open c = (c = 123 \<or> c = 91)"

text \<open>
  The loop over the brackets: the length of the text up to where the depth is back at 0, None when it
  never is.  Only the brackets of the first one's kind count, also those inside strings.
\<close>

fun balanced_prefix :: "nat \<Rightarrow> nat \<Rightarrow> int \<Rightarrow> nat \<Rightarrow> pystr \<Rightarrow> nat option" where
  "balanced_prefix bracket close_br depth i [] = None"
| "balanced_prefix bracket close_br depth i (ch # cs) =
     (if ch = bracket then balanced_prefix bracket close_br (depth + 1) (i + 1) cs
      else if ch = close_br then
        (if depth - 1 = 0 then Some (i + 1) else balanced_prefix bracket close_br (depth - 1) (i + 1) cs)
      else balanced_prefix bracket close_br depth (i + 1) cs)"

definition extract_json :: "pystr \<Rightarrow> json option" where
  "extract_json text =
     (if text = [] then None
      else let cleaned = dropWhile (\<lambda>c. \<not> is_open c) (sanitize_llm_response text)
           in case cleaned of
                [] \<Rightarrow> None
              | bracket # _ \<Rightarrow>
                  (case loads cleaned of
                     Some v \<Rightarrow> Some v
                   | None \<Rightarrow>
                       (case balanced_prefix bracket (if bracket = 123 then 125 else 93) 0 0 cleaned of
                          None \<Rightarrow> None
                        | Some n \<Rightarrow> loads (take n cleaned))))"

section \<open>HTML\<close>

definition SCRIPT :: pystr where "SCRIPT = py ''<script''"
definition END_SCRIPT :: pystr where "END_SCRIPT = py ''</script>''"

definition quote_char :: "nat \<Rightarrow> bool" where
  "quote_char c = (c = 34 \<or> c = 39)"

text \<open>\<open>\bon\w+\s*=\s*["'][^"']*["']\<close>, the word boundary being a character before that is no word character.\<close>

definition event_handler :: "(nat \<Rightarrow> bool) \<Rightarrow> nat option \<Rightarrow> pystr \<Rightarrow> pystr option" where
  "event_handler word prev s =
     (if (case prev of None \<Rightarrow> False | Some c \<Rightarrow> word c) \<or> \<not> matches True (py ''on'') s then None
      else Option.bind (run_of word (drop 2 s)) (\<lambda>r1.
           Option.bind (literal ''='' (dropWhile unicode_space r1)) (\<lambda>r2.
             case dropWhile unicode_space r2 of
               [] \<Rightarrow> None
             | q # r3 \<Rightarrow>
                 if \<not> quote_char q then None
                 else (case dropWhile (\<lambda>c. \<not> quote_char c) r3 of [] \<Rightarrow> None | _ # r4 \<Rightarrow> Some r4))))"

definition html_escape_char :: "nat \<Rightarrow> pystr" where
  "html_escape_char c =
     (if c = 38 then py ''&amp;'' else if c = 60 then py ''&lt;'' else if c = 62 then py ''&gt;''
      else if c = 34 then py ''&quot;'' else if c = 39 then py ''&#x27;'' else [c])"

definition html_escape :: "pystr \<Rightarrow> pystr" where
  "html_escape s = concat (map html_escape_char s)"

definition strip_html :: "(nat \<Rightarrow> bool) \<Rightarrow> pystr \<Rightarrow> pystr" where
  "strip_html word text = remove_all (event_handler word) None (remove_blocks True SCRIPT END_SCRIPT text)"

definition sanitize_html :: "(nat \<Rightarrow> bool) \<Rightarrow> pystr \<Rightarrow> pystr" where
  "sanitize_html word text = (if text = [] then [] else html_escape (strip_html word text))"

section \<open>Lemmas\<close>

text \<open>A literal of which some character does not occur is not found.\<close>

lemma matches_head: "p = a # p' \<Longrightarrow> matches ic p s \<Longrightarrow> \<exists>c cs. s = c # cs \<and> a = (if ic then re_fold c else c)"
  by (cases s) (auto simp: matches_def)

lemma re_fold_low: "re_fold c = 60 \<longleftrightarrow> c = 60"
  by (auto simp: re_fold_def)

lemma remove_blocks_Nil [simp]: "remove_blocks ic op cl [] = []"
  by (simp add: remove_blocks.simps)

lemma remove_blocks_copy:
  "op = 60 # op' \<Longrightarrow> c \<noteq> 60 \<Longrightarrow> remove_blocks ic op cl (c # cs) = c # remove_blocks ic op cl cs"
proof -
  assume a: "op = 60 # op'" "c \<noteq> 60"
  have "\<not> matches ic op (c # cs)"
    using a matches_head [of op 60 op' ic "c # cs"] re_fold_low [of c] by (auto split: if_splits)
  then show ?thesis by (simp add: remove_blocks.simps [of ic op cl "c # cs"])
qed

lemma remove_blocks_prefix:
  "op = 60 # op' \<Longrightarrow> 60 \<notin> set pre \<Longrightarrow> remove_blocks ic op cl (pre @ s) = pre @ remove_blocks ic op cl s"
  by (induction pre) (auto simp: remove_blocks_copy)

lemma remove_blocks_none: "op = 60 # op' \<Longrightarrow> 60 \<notin> set s \<Longrightarrow> remove_blocks ic op cl s = s"
  using remove_blocks_prefix [of op op' s ic cl "[]"] by simp

lemma matches_exact: "matches False p s \<longleftrightarrow> (\<exists>r. s = p @ r)"
proof
  assume "matches False p s"
  then have "take (length p) s = p" by (simp add: matches_def list_all2_conv_all_nth list_eq_iff_nth_eq)
  then show "\<exists>r. s = p @ r" by (metis append_take_drop_id)
qed (auto simp: matches_def list_all2_conv_all_nth nth_append)

lemma split_first_exact:
  "60 \<notin> set body \<Longrightarrow> cl = 60 # cl' \<Longrightarrow> split_first False cl (body @ cl @ post) = Some (body, post)"
proof (induction body)
  case Nil
  have "matches False cl (cl @ post)" by (auto simp: matches_exact)
  then show ?case using Nil by simp
next
  case (Cons c body)
  then have "\<not> matches False cl (c # body @ cl @ post)" by (auto simp: matches_exact)
  then show ?case using Cons by simp
qed

lemma remove_block:
  assumes "op = 60 # op'" "cl = 60 # cl'" "60 \<notin> set body"
  shows "remove_blocks False op cl (op @ body @ cl @ post) = remove_blocks False op cl post"
proof -
  have "matches False op (op @ body @ cl @ post)" by (auto simp: matches_exact)
  moreover have "split_first False cl (body @ cl @ post) = Some (body, post)" by (rule split_first_exact [OF assms(3,2)])
  ultimately show ?thesis
    by (subst remove_blocks.simps) (use assms(1) in \<open>simp split: list.split\<close>)
qed

lemma split_first_never: "\<forall>pre r. s \<noteq> pre @ p @ r \<Longrightarrow> split_first False p s = None"
proof (induction s)
  case Nil
  then show ?case by (auto simp: matches_exact)
next
  case (Cons c s)
  have "\<not> matches False p (c # s)" using Cons.prems [rule_format, of "[]"] by (auto simp: matches_exact)
  moreover have "\<forall>pre r. s \<noteq> pre @ p @ r" using Cons.prems [rule_format, of "c # _"] by auto
  ultimately show ?case using Cons.IH by simp
qed

text \<open>A block that is not closed stays.\<close>

lemma remove_blocks_unclosed: "\<forall>pre r. s \<noteq> pre @ cl @ r \<Longrightarrow> remove_blocks False op cl s = s"
proof (induction s)
  case (Cons c s)
  have "split_first False cl (drop (length op) (c # s)) = None"
  proof (rule split_first_never, intro allI notI)
    fix pre r assume "drop (length op) (c # s) = pre @ cl @ r"
    then have "c # s = (take (length op) (c # s) @ pre) @ cl @ r" by (metis append.assoc append_take_drop_id)
    then show False using Cons.prems by blast
  qed
  moreover have "\<forall>pre r. s \<noteq> pre @ cl @ r" using Cons.prems [rule_format, of "c # _"] by auto
  ultimately show ?case using Cons.IH by (subst remove_blocks.simps) simp
qed simp

lemma think_literals: "THINK = 60 # py ''think>''" "END_THINK = 60 # py ''/think>''" "SCRIPT = 60 # py ''script''"
  by (simp_all add: THINK_def END_THINK_def SCRIPT_def py_def)

text \<open>Escaping is injective and leaves no markup.\<close>

lemma html_escape_char_plain: "list_all (\<lambda>c. c \<notin> {60, 62, 34, 39}) (html_escape_char d)"
  by (simp add: html_escape_char_def py_def)

lemma html_escape_no_markup: "c \<in> set (html_escape s) \<Longrightarrow> c \<notin> {60, 62, 34, 39}"
  using html_escape_char_plain by (fastforce simp: html_escape_def list_all_iff)

lemma html_escape_char_cases:
  obtains "html_escape_char c = [c]" "c \<noteq> 38"
  | t where "html_escape_char c = 38 # t @ [59]" "59 \<notin> set t" "c \<in> {38, 60, 62, 34, 39}"
proof (cases "c \<in> {38, 60, 62, 34, 39}")
  case True
  then have "\<exists>t. html_escape_char c = 38 # t @ [59] \<and> 59 \<notin> set t"
    by (auto simp: html_escape_char_def py_def)
  then show thesis using True that(2) by blast
next
  case False
  then show thesis using that(1) by (simp add: html_escape_char_def)
qed

lemma html_escape_char_inj: "html_escape_char c = html_escape_char d \<Longrightarrow> c = d"
  by (auto simp: html_escape_char_def py_def split: if_splits)

lemma html_escape_char_prefix:
  assumes "html_escape_char c @ xs = html_escape_char d @ ys"
  shows "c = d \<and> xs = ys"
proof (cases c rule: html_escape_char_cases)
  case 1
  show ?thesis using assms 1 by (cases d rule: html_escape_char_cases) auto
next
  case c: (2 t)
  show ?thesis
  proof (cases d rule: html_escape_char_cases)
    case 1
    then show ?thesis using assms c by auto
  next
    case (2 u)
    then have e: "t @ 59 # xs = u @ 59 # ys" using assms c by simp
    have "takeWhile (\<lambda>c. c \<noteq> 59) (t @ 59 # xs) = t" "takeWhile (\<lambda>c. c \<noteq> 59) (u @ 59 # ys) = u"
      using c(2) 2(2) by (subst takeWhile_append2; auto)+
    then have "t = u" using e by simp
    then show ?thesis using e c(1) 2(1) html_escape_char_inj [of c d] by simp
  qed
qed

lemma html_escape_char_nonempty [simp]: "html_escape_char c \<noteq> []"
  by (simp add: html_escape_char_def)

lemma html_escape_inj: "html_escape s = html_escape t \<Longrightarrow> s = t"
proof (induction s arbitrary: t)
  case Nil
  then show ?case by (cases t) (auto simp: html_escape_def)
next
  case (Cons c s)
  then obtain d t' where t: "t = d # t'" by (cases t) (auto simp: html_escape_def)
  then show ?case using Cons html_escape_char_prefix [of c "html_escape s" d "html_escape t'"] by (auto simp: html_escape_def)
qed

text \<open>Text without quotes has no event handler to remove.\<close>

lemma event_handler_quoted:
  assumes "34 \<notin> set s" "39 \<notin> set s"
  shows "event_handler word prev s = None"
proof -
  have "c \<in> set s" if "literal p s' = Some r" "set s' \<subseteq> set s" "c \<in> set r" for p s' r c
    using that by (auto simp: literal_def split: if_splits dest: in_set_dropD)
  moreover have "set (dropWhile P xs) \<subseteq> set xs" for P and xs :: "nat list" by (auto dest: set_dropWhileD)
  ultimately have sub: "set (dropWhile unicode_space r2) \<subseteq> set s"
    if "run_of word (drop 2 s) = Some r1" "literal ''='' (dropWhile unicode_space r1) = Some r2" for r1 r2
    using that by (auto simp: run_of_def split: if_splits dest!: set_dropWhileD in_set_dropD)
  have "(case dropWhile unicode_space r2 of [] \<Rightarrow> None
             | q # r3 \<Rightarrow> if \<not> quote_char q then None
                 else (case dropWhile (\<lambda>c. \<not> quote_char c) r3 of [] \<Rightarrow> None | _ # r4 \<Rightarrow> Some r4)) = None"
    if "run_of word (drop 2 s) = Some r1" "literal ''='' (dropWhile unicode_space r1) = Some r2" for r1 r2
    using sub [OF that] assms by (auto simp: quote_char_def split: list.split)
  then show ?thesis
    by (cases "run_of word (drop 2 s)"; cases "literal ''='' (dropWhile unicode_space (the (run_of word (drop 2 s))))")
      (simp_all add: event_handler_def)
qed

lemma remove_all_none:
  "(\<And>prev s'. set s' \<subseteq> set s \<Longrightarrow> m prev s' = None) \<Longrightarrow> remove_all m prev s = s"
proof (induction s arbitrary: prev)
  case Nil
  then show ?case by (simp add: remove_all.simps)
next
  case (Cons c s)
  have "m prev (c # s) = None" by (rule Cons.prems) simp
  moreover have "remove_all m (Some c) s = s" by (rule Cons.IH) (rule Cons.prems, auto)
  ultimately show ?case by (subst remove_all.simps) simp
qed

lemma html_escape_plain: "set s \<inter> {38, 60, 62, 34, 39} = {} \<Longrightarrow> html_escape s = s"
proof (induction s)
  case (Cons c s)
  then have "html_escape_char c = [c]" by (auto simp: html_escape_char_def)
  then show ?case using Cons by (simp add: html_escape_def)
qed (simp add: html_escape_def)

text \<open>A document that starts with a bracket is an array or an object.\<close>

definition container :: "json \<Rightarrow> bool" where
  "container v = (case v of JArr _ \<Rightarrow> True | JObj _ \<Rightarrow> True | _ \<Rightarrow> False)"

lemma loads_container:
  assumes "is_open c" "loads (c # cs) = Some v"
  shows "container v"
proof -
  have "skip_ws (c # cs) = c # cs" using assms(1) by (auto simp: skip_ws_def json_ws_def is_open_def)
  then obtain r where "scan_value (c # cs) = Some (v, r)" using assms(2) by (auto simp: loads_def split: if_splits option.splits)
  then show ?thesis using assms(1) by (auto simp: is_open_def container_def split: if_splits option.splits)
qed

lemma balanced_prefix_pos: "balanced_prefix b e d i cs = Some n \<Longrightarrow> i < n"
  by (induction b e d i cs rule: balanced_prefix.induct) (auto split: if_splits)

text \<open>The text from the first bracket on.\<close>

definition from_bracket :: "pystr \<Rightarrow> pystr" where
  "from_bracket text = dropWhile (\<lambda>c. \<not> is_open c) (sanitize_llm_response text)"

lemma extract_json_eq:
  assumes "from_bracket text = b # cs"
  shows "extract_json text =
    (case loads (b # cs) of Some v \<Rightarrow> Some v
     | None \<Rightarrow> (case balanced_prefix b (if b = 123 then 125 else 93) 0 0 (b # cs) of None \<Rightarrow> None | Some n \<Rightarrow> loads (take n (b # cs))))"
proof -
  have "text \<noteq> []" using assms by (auto simp: from_bracket_def sanitize_llm_response_def)
  then show ?thesis using assms by (simp add: extract_json_def from_bracket_def Let_def del: balanced_prefix.simps)
qed

lemma extract_json_Nil: "from_bracket text = [] \<Longrightarrow> extract_json text = None"
  unfolding extract_json_def from_bracket_def [symmetric] by (simp add: Let_def)

text \<open>Evaluation on literal texts.\<close>

lemmas clean_eval = sanitize_llm_response_def FENCE_def fence_body_def inline_image_def markdown_image_def literal_def normalize_json_def
  THINK_def END_THINK_def py_def remove_blocks.simps remove_all.simps re_fold_def matches_def strip_while_def unicode_space_def
  unicode_spaces_def startswith_def is_open_def

lemmas json_eval = loads_def scan_membs.simps scan_str.simps scan_unit_def scan_atom_def scan_number_def scan_unsigned_def scan_int_def
  scan_frac_def scan_exp_def skip_ws_def json_ws_def is_digit_def dict_of_def

lemma think_reassembled: "sanitize_llm_output (py ''<thi'' @ THINK @ END_THINK @ py ''nk>x</think>'') = py ''<think>x</think>''"
  by (simp add: sanitize_llm_output_def clean_eval)

lemma extract_examples:
  "extract_json (py ''ok {\"a\": 1} bye'') = Some (JObj [(py ''a'', JInt 1)])" "extract_json (py ''ok {\"a\": \"}\"} bye'') = None"
  by (simp_all add: extract_json_def clean_eval json_eval Let_def)

section \<open>Properties\<close>

text \<open>
  C37. HTML: whatever the text, the result has no angle bracket and no quote, so no tag or attribute can
  open, and it escapes the text without scripts and handlers without ambiguity; a text without
  markup characters comes through unchanged.
\<close>

theorem sanitize_html_safe:
  "set (sanitize_html word text) \<inter> {60, 62, 34, 39} = {}
   \<and> (sanitize_html word text = sanitize_html word text' \<longleftrightarrow> strip_html word text = strip_html word text')
   \<and> (set text \<inter> {38, 60, 62, 34, 39} = {} \<longrightarrow> sanitize_html word text = text)"
proof -
  have empty: "strip_html word [] = []" by (simp add: strip_html_def remove_all.simps)
  have eq: "sanitize_html word t = html_escape (strip_html word t)" for t
    by (cases t) (simp_all add: sanitize_html_def empty html_escape_def)
  have "set (sanitize_html word text) \<inter> {60, 62, 34, 39} = {}"
    using html_escape_no_markup by (fastforce simp: eq)
  moreover have "sanitize_html word text = text" if plain: "set text \<inter> {38, 60, 62, 34, 39} = {}"
  proof -
    have "remove_blocks True SCRIPT END_SCRIPT text = text"
      using plain by (intro remove_blocks_none [OF think_literals(3)]) blast
    moreover have "remove_all (event_handler word) None text = text"
      by (rule remove_all_none, rule event_handler_quoted) (use plain in auto)
    ultimately show ?thesis using html_escape_plain [OF plain] by (simp add: eq strip_html_def)
  qed
  ultimately show ?thesis using html_escape_inj by (auto simp: eq)
qed

lemma sanitize_html_safe_witness:
  "sanitize_html (\<lambda>c. 97 \<le> c \<and> c \<le> 122) (py ''plain text'') = py ''plain text''"
  using sanitize_html_safe [of "\<lambda>c. 97 \<le> c \<and> c \<le> 122" "py ''plain text''" "[]"] by (simp add: py_def)

text \<open>
  LLM output: a closed reasoning block is removed with everything in it, wherever it stands, and
  the rest is only trimmed; a text without a closing tag is only trimmed, so the reasoning of a
  truncated answer stays.  One pass is made: a removal may leave a new block behind.
\<close>

theorem think_blocks_removed:
  "(60 \<notin> set pre \<and> 60 \<notin> set body \<longrightarrow>
      sanitize_llm_output (pre @ THINK @ body @ END_THINK @ post) = strip (pre @ remove_blocks False THINK END_THINK post))
   \<and> ((\<forall>a b. text \<noteq> a @ END_THINK @ b) \<longrightarrow> sanitize_llm_output text = strip text)
   \<and> sanitize_llm_output (py ''<thi'' @ THINK @ END_THINK @ py ''nk>x</think>'') = py ''<think>x</think>''"
proof -
  have "sanitize_llm_output (pre @ THINK @ body @ END_THINK @ post) = strip (pre @ remove_blocks False THINK END_THINK post)"
    if "60 \<notin> set pre" "60 \<notin> set body"
  proof -
    have "THINK \<noteq> []" by (simp add: think_literals)
    then show ?thesis
      using remove_blocks_prefix [OF think_literals(1) that(1)] remove_block [OF think_literals(1,2) that(2)]
      by (simp add: sanitize_llm_output_def)
  qed
  moreover have "sanitize_llm_output text = strip text" if "\<forall>a b. text \<noteq> a @ END_THINK @ b"
    using remove_blocks_unclosed [OF that, of THINK] by (cases "text = []") (simp_all add: sanitize_llm_output_def strip_while_def)
  ultimately show ?thesis using think_reassembled by blast
qed

lemma think_blocks_removed_witness:
  "sanitize_llm_output (py ''a '' @ THINK @ py ''why'' @ END_THINK @ []) = strip (py ''a '')"
  using think_blocks_removed [of "py ''a ''" "py ''why''" "[]" "[]"] by (simp add: py_def)

text \<open>
  Reformatting a JSON answer keeps its value up to the order of the members, changes no text that is
  not JSON, and is done after one pass.
\<close>

lemma container_jsort: "container v \<Longrightarrow> \<exists>xs. jsort v = JArr xs \<or> (\<exists>kvs. jsort v = JObj kvs)"
  by (cases v) (auto simp: container_def)

lemma dumps_indent_head:
  assumes "container v"
  shows "startswith [123] (dumps_indent ea n v) \<or> startswith [91] (dumps_indent ea n v)"
proof (cases v)
  case (JArr xs)
  then show ?thesis by (cases xs) (simp_all add: startswith_def)
next
  case (JObj kvs)
  then show ?thesis by (cases kvs) (auto simp: startswith_def)
qed (use assms in \<open>simp_all add: container_def\<close>)

lemma container_jsort_iff: "container (jsort v) = container v"
  by (cases v) (simp_all add: container_def)

theorem normalize_json_keeps_value:
  assumes "loads text = Some v" "jwf v" "startswith [123] text \<or> startswith [91] text"
  shows "loads (normalize_json text) = Some (jsort v)"
    and "normalize_json (normalize_json text) = normalize_json text"
proof -
  obtain c cs where t: "text = c # cs" "is_open c" using assms(3) by (cases "text") (auto simp: startswith_def is_open_def)
  then have cv: "container v" using loads_container [of c cs v] assms(1) by simp
  have norm: "normalize_json text = dumps_indent False 0 (jsort v)" using assms by (auto simp: normalize_json_def)
  then show again: "loads (normalize_json text) = Some (jsort v)"
    using loads_dumps_indent [OF jwf_jsort [OF assms(2)] container_jsort [OF cv], of False 0] by simp
  have "startswith [123] (normalize_json text) \<or> startswith [91] (normalize_json text)"
    using dumps_indent_head [of "jsort v" False 0] cv norm by (simp add: container_jsort_iff)
  then show "normalize_json (normalize_json text) = normalize_json text"
    using again norm by (auto simp: normalize_json_def [of "dumps_indent False 0 (jsort v)"] jsort_idem)
qed



end
