(* ===== verification/Loops.thy ===== *)
theory Loops
  imports OmPrelude
begin

text \<open>
  The background loops of the SDK that end by an event: \<open>while not stop.is_set()\<close> around a wait with a
  timeout and a body, as in \<open>omkit/settings.py\<close>, \<open>omkit/provider/registry.py\<close>,
  \<open>omkit/scheduler/scheduler.py\<close> and \<open>omkit/eventbus.py\<close>.  Such a loop may run for ever, so it is a
  partial function whose result None is not returning; the lemmas say exactly when it returns, and
  after how many runs of its body.
\<close>

section \<open>The loop\<close>

text \<open>
  How \<open>asyncio.wait_for(stop.wait(), timeout)\<close> ends: by the timeout, with the event set, or by the
  cancellation of the task; and how a loop is left.
\<close>

datatype wait_result = WaitTimeout | WaitStop | WaitCancel

datatype loop_exit = LoopStopped | LoopCancelled | LoopRaised

text \<open>
  \<open>is_set k\<close> is what the \<open>k\<close>th look at the event finds, \<open>wait k\<close> how the \<open>k\<close>th wait ends, and
  \<open>body k\<close> the \<open>k\<close>th run of the body, which may itself end the loop.
\<close>

partial_function (option) stop_loop ::
    "(nat \<Rightarrow> bool) \<Rightarrow> (nat \<Rightarrow> wait_result) \<Rightarrow> (nat \<Rightarrow> 's \<Rightarrow> 's \<times> loop_exit option) \<Rightarrow> nat \<Rightarrow> 's \<Rightarrow> ('s \<times> loop_exit) option" where
  "stop_loop is_set wait body k s =
     (if is_set k then Some (s, LoopStopped)
      else (case wait k of
              WaitCancel \<Rightarrow> Some (s, LoopCancelled)
            | WaitStop \<Rightarrow> Some (s, LoopStopped)
            | WaitTimeout \<Rightarrow>
                (case body k s of
                   (s', Some e) \<Rightarrow> Some (s', e)
                 | (s', None) \<Rightarrow> stop_loop is_set wait body (Suc k) s')))"

section \<open>When it returns\<close>

text \<open>The state before the \<open>n\<close>th look, when none of the looks before ended the loop.\<close>

fun loop_state :: "(nat \<Rightarrow> 's \<Rightarrow> 's \<times> loop_exit option) \<Rightarrow> nat \<Rightarrow> 's \<Rightarrow> 's" where
  "loop_state body 0 s = s"
| "loop_state body (Suc n) s = fst (body n (loop_state body n s))"

text \<open>How the \<open>n\<close>th round leaves the loop, when it does.\<close>

definition round_exit :: "(nat \<Rightarrow> bool) \<Rightarrow> (nat \<Rightarrow> wait_result) \<Rightarrow> (nat \<Rightarrow> 's \<Rightarrow> 's \<times> loop_exit option) \<Rightarrow> nat \<Rightarrow> 's \<Rightarrow> ('s \<times> loop_exit) option" where
  "round_exit is_set wait body n s =
     (let s1 = loop_state body n s in
      if is_set n \<or> wait n = WaitStop then Some (s1, LoopStopped)
      else if wait n = WaitCancel then Some (s1, LoopCancelled)
      else map_option (Pair (fst (body n s1))) (snd (body n s1)))"

lemma round_exit_event: "is_set n \<Longrightarrow> round_exit is_set wait body n s = Some (loop_state body n s, LoopStopped)"
  by (simp add: round_exit_def Let_def)

lemma round_exit_None:
  "round_exit is_set wait body n s = None \<longleftrightarrow>
    \<not> is_set n \<and> wait n = WaitTimeout \<and> body n (loop_state body n s) = (loop_state body (Suc n) s, None)"
  by (cases "wait n") (auto simp: round_exit_def Let_def prod_eq_iff)

lemma stop_loop_exit:
  "round_exit is_set wait body n s = Some r \<Longrightarrow> stop_loop is_set wait body n (loop_state body n s) = Some r"
  by (subst stop_loop.simps)
    (auto simp: round_exit_def Let_def split: if_splits wait_result.splits prod.splits option.splits)

lemma stop_loop_continue:
  "round_exit is_set wait body n s = None \<Longrightarrow>
    stop_loop is_set wait body n (loop_state body n s) = stop_loop is_set wait body (Suc n) (loop_state body (Suc n) s)"
  unfolding round_exit_None by (subst stop_loop.simps) (simp del: loop_state.simps)

lemma stop_loop_skip:
  "\<forall>m<n. round_exit is_set wait body m s = None \<Longrightarrow>
    stop_loop is_set wait body 0 s = stop_loop is_set wait body n (loop_state body n s)"
proof (induction n)
  case (Suc n)
  then show ?case using stop_loop_continue [of is_set wait body n s] by simp
qed simp

text \<open>The first round that leaves the loop determines its result.\<close>

lemma stop_loop_first:
  assumes "round_exit is_set wait body n s = Some r" "\<forall>m<n. round_exit is_set wait body m s = None"
  shows "stop_loop is_set wait body 0 s = Some r"
  using stop_loop_skip [OF assms(2)] stop_loop_exit [OF assms(1)] by simp

text \<open>A loop that no round leaves does not return.\<close>

lemma stop_loop_returns:
  assumes "stop_loop is_set wait body k (loop_state body k s) = Some r"
  shows "\<exists>n\<ge>k. round_exit is_set wait body n s \<noteq> None"
proof -
  have gen: "\<forall>s. s' = loop_state body k s \<longrightarrow> (\<exists>n\<ge>k. round_exit is_set wait body n s \<noteq> None)"
    if ret: "stop_loop is_set wait body k s' = Some r" for is_set wait body k s' r
  proof (rule stop_loop.raw_induct [where P = "\<lambda>is_set wait body k s' r.
        \<forall>s. s' = loop_state body k s \<longrightarrow> (\<exists>n\<ge>k. round_exit is_set wait body n s \<noteq> None)", OF _ ret])
    fix f and is_set :: "nat \<Rightarrow> bool" and wait and body :: "nat \<Rightarrow> 's \<Rightarrow> 's \<times> loop_exit option" and k s' r
    assume IH: "\<And>is_set wait body k s' r. f is_set wait body k s' = Some r \<Longrightarrow>
        \<forall>s. s' = loop_state body k s \<longrightarrow> (\<exists>n\<ge>k. round_exit is_set wait body n s \<noteq> None)"
      and eq: "(if is_set k then Some (s', LoopStopped)
        else case wait k of WaitTimeout \<Rightarrow> (case body k s' of (s'', None) \<Rightarrow> f is_set wait body (Suc k) s'' | (s'', Some e) \<Rightarrow> Some (s'', e))
          | WaitStop \<Rightarrow> Some (s', LoopStopped) | WaitCancel \<Rightarrow> Some (s', LoopCancelled)) = Some r"
    show "\<forall>s. s' = loop_state body k s \<longrightarrow> (\<exists>n\<ge>k. round_exit is_set wait body n s \<noteq> None)"
    proof (intro allI impI)
      fix s assume s': "s' = loop_state body k s"
      show "\<exists>n\<ge>k. round_exit is_set wait body n s \<noteq> None"
      proof (cases "round_exit is_set wait body k s")
        case None
        then have "f is_set wait body (Suc k) (loop_state body (Suc k) s) = Some r"
          using eq unfolding s' round_exit_None
          by (elim conjE) (simp only: if_False wait_result.case prod.case option.case)
        then obtain n where "n \<ge> Suc k" "round_exit is_set wait body n s \<noteq> None" using IH by blast
        then show ?thesis using Suc_leD by blast
      qed blast
    qed
  qed
  show ?thesis using gen [OF assms] by simp
qed

lemma stop_loop_returns_iff:
  "(\<exists>r. stop_loop is_set wait body 0 s = Some r) \<longleftrightarrow> (\<exists>n. round_exit is_set wait body n s \<noteq> None)"
proof
  assume "\<exists>r. stop_loop is_set wait body 0 s = Some r"
  then show "\<exists>n. round_exit is_set wait body n s \<noteq> None"
    using stop_loop_returns [of is_set wait body 0 s] by auto
next
  assume "\<exists>n. round_exit is_set wait body n s \<noteq> None"
  then obtain n where "round_exit is_set wait body n s \<noteq> None" "\<forall>m<n. round_exit is_set wait body m s = None"
    using exists_least_iff [of "\<lambda>n. round_exit is_set wait body n s \<noteq> None"] by blast
  then show "\<exists>r. stop_loop is_set wait body 0 s = Some r" using stop_loop_first by (metis not_None_eq)
qed

text \<open>
  A loop whose rounds end it exactly at the rounds of a predicate: the first such round gives the
  result, and without one the loop does not return.
\<close>

lemma stop_loop_least:
  assumes "\<And>n. round_exit is_set wait body n s = (if ends n then Some (res n) else None)"
  shows "stop_loop is_set wait body 0 s = (if \<exists>n. ends n then Some (res (LEAST n. ends n)) else None)"
proof (cases "\<exists>n. ends n")
  case True
  define n where "n = (LEAST n. ends n)"
  have n: "ends n" unfolding n_def using True by (rule LeastI_ex)
  have "\<not> ends m" if "m < n" for m using that unfolding n_def by (rule not_less_Least)
  then have "stop_loop is_set wait body 0 s = Some (res n)"
    by (intro stop_loop_first [where n = n]) (simp_all add: assms n)
  then show ?thesis using True unfolding n_def by simp
next
  case False
  then have "\<not> (\<exists>r. stop_loop is_set wait body 0 s = Some r)"
    unfolding stop_loop_returns_iff assms by simp
  then have "stop_loop is_set wait body 0 s = None" by (metis not_None_eq)
  then show ?thesis using False by simp
qed

text \<open>A loop that returned did so in the first round that leaves it; what every body keeps, its result has.\<close>

lemma stop_loop_Some:
  "stop_loop is_set wait body 0 s = Some r \<longleftrightarrow>
    (\<exists>n. round_exit is_set wait body n s = Some r \<and> (\<forall>m<n. round_exit is_set wait body m s = None))"
proof
  assume r: "stop_loop is_set wait body 0 s = Some r"
  then obtain n where n: "round_exit is_set wait body n s \<noteq> None" "\<forall>m<n. round_exit is_set wait body m s = None"
    using stop_loop_returns_iff [of is_set wait body s] exists_least_iff [of "\<lambda>n. round_exit is_set wait body n s \<noteq> None"] by blast
  then obtain r' where "round_exit is_set wait body n s = Some r'" by blast
  then show "\<exists>n. round_exit is_set wait body n s = Some r \<and> (\<forall>m<n. round_exit is_set wait body m s = None)"
    using stop_loop_first [of is_set wait body n s r'] n(2) r by auto
qed (blast intro: stop_loop_first)

lemma loop_state_invariant:
  "I s \<Longrightarrow> (\<And>k s. I s \<Longrightarrow> I (fst (body k s))) \<Longrightarrow> I (loop_state body n s)"
  by (induction n) simp_all

lemma stop_loop_invariant:
  assumes "stop_loop is_set wait body 0 s = Some (s', e)" "I s" "\<And>k s. I s \<Longrightarrow> I (fst (body k s))"
  shows "I s'"
proof -
  obtain n where "round_exit is_set wait body n s = Some (s', e)" using stop_loop_Some [THEN iffD1, OF assms(1)] by blast
  then have "s' = loop_state body n s \<or> s' = loop_state body (Suc n) s"
    by (auto simp: round_exit_def Let_def split: if_splits)
  moreover have "I (loop_state body k s)" for k using assms(2,3) by (rule loop_state_invariant)
  ultimately show ?thesis by blast
qed

text \<open>How the last round ended it: by the event, by a cancellation of the wait, or by its body.\<close>

lemma stop_loop_exits:
  assumes "stop_loop is_set wait body 0 s = Some (s', e)"
  obtains n where "e = LoopStopped" "is_set n \<or> wait n = WaitStop" "s' = loop_state body n s"
  | n where "e = LoopCancelled" "wait n = WaitCancel" "s' = loop_state body n s"
  | n where "\<not> is_set n" "wait n = WaitTimeout" "body n (loop_state body n s) = (s', Some e)"
proof -
  obtain n where "round_exit is_set wait body n s = Some (s', e)" using stop_loop_Some [THEN iffD1, OF assms] by blast
  then consider "e = LoopStopped \<and> (is_set n \<or> wait n = WaitStop) \<and> s' = loop_state body n s"
    | "e = LoopCancelled \<and> wait n = WaitCancel \<and> s' = loop_state body n s"
    | "\<not> is_set n \<and> wait n = WaitTimeout \<and> body n (loop_state body n s) = (s', Some e)"
    by (cases "wait n") (auto simp: round_exit_def Let_def prod_eq_iff split: if_splits)
  then show thesis using that [of n] by cases simp_all
qed

end
