(* ===== verification/SettingsRun.thy ===== *)
theory SettingsRun
  imports Settings Database Loops
begin

text \<open>
  \<open>omkit/settings.py\<close>, the life of a manager: construction, \<open>start\<close> and \<open>stop\<close>, the poll loop and the
  subscription.  \<open>Settings\<close> has what a load, a poll and a message do to the cache.  A worker task is
  a number; \<open>mg_live\<close> are the tasks that have not ended, the two task fields of the manager the ones
  it remembers.
\<close>

section \<open>Construction\<close>

datatype worker = PollWorker | SubWorker

record manager =
  mg_service :: pystr
  mg_has_pool :: bool
  mg_url :: pystr
  mg_tenant :: pystr
  mg_key :: pystr
  mg_cache_path :: pystr
  mg_stop :: "bool option"
  mg_subscriber :: "nat option"
  mg_poller :: "nat option"
  mg_live :: "(nat, worker) dict"
  mg_next :: nat
  mg_settings :: settings

text \<open>\<open>cache_env\<close> is \<open>SETTINGS_CACHE_PATH\<close>, \<open>files\<close> the text of a file.\<close>

definition manager_init ::
    "pystr option \<Rightarrow> (pystr \<Rightarrow> pystr option) \<Rightarrow> pystr \<Rightarrow> bool \<Rightarrow> pystr \<Rightarrow> pystr \<Rightarrow> pystr \<Rightarrow> manager" where
  "manager_init cache_env files service has_pool url tenant key =
     (let path = (case cache_env of None \<Rightarrow> py ''/tmp/settings-cache.json'' | Some p \<Rightarrow> p)
      in \<lparr>mg_service = service, mg_has_pool = has_pool, mg_url = url, mg_tenant = tenant, mg_key = key,
          mg_cache_path = path, mg_stop = None, mg_subscriber = None, mg_poller = None, mg_live = [], mg_next = 0,
          mg_settings = settings_init (files path)\<rparr>)"

text \<open>The factory from a service's settings, whose key is optional; it never sets a tenant or a pool.\<close>

definition manager_create ::
    "pystr option \<Rightarrow> (pystr \<Rightarrow> pystr option) \<Rightarrow> pystr \<Rightarrow> service_settings \<Rightarrow> pystr option \<Rightarrow> manager" where
  "manager_create cache_env files service base omur_settings_key =
     manager_init cache_env files service False (settings_valkey_url base) []
       (case omur_settings_key of None \<Rightarrow> [] | Some k \<Rightarrow> k)"

section \<open>Start and stop\<close>

text \<open>What the first load finds: the rows of the pool's query or of the session's, None when it raises.\<close>

record load_world =
  lw_pool :: "setting_row list option"
  lw_db :: "(pystr \<times> json \<times> bool) list option"
  lw_io :: bool

definition manager_load :: "load_world \<Rightarrow> manager \<Rightarrow> manager" where
  "manager_load W m =
     m\<lparr>mg_settings := (if mg_has_pool m then load_from_pool_rows (lw_pool W) (mg_settings m)
        else load_from_db (lw_io W) (lw_db W) (mg_settings m))\<rparr>"

definition spawn :: "worker \<Rightarrow> manager \<Rightarrow> manager" where
  "spawn w m =
     (let m' = m\<lparr>mg_live := mg_live m @ [(mg_next m, w)], mg_next := Suc (mg_next m)\<rparr>
      in case w of SubWorker \<Rightarrow> m'\<lparr>mg_subscriber := Some (mg_next m)\<rparr> | PollWorker \<Rightarrow> m'\<lparr>mg_poller := Some (mg_next m)\<rparr>)"

text \<open>The warnings of \<open>_validate\<close> come with the manager; the flag tells that an unknown backend raised.\<close>

definition manager_start :: "pystr option \<Rightarrow> load_world \<Rightarrow> manager \<Rightarrow> manager \<times> setting_warning list \<times> bool" where
  "manager_start backend_env W m =
     (let m1 = m\<lparr>mg_stop := (case mg_stop m of None \<Rightarrow> Some False | Some b \<Rightarrow> Some b)\<rparr>;
          m2 = manager_load W m1;
          warnings = validate_settings (mg_settings m2)
      in case live_update_of (mg_has_pool m2) backend_env (mg_url m2) of
           None \<Rightarrow> (m2, warnings, True)
         | Some Subscriber \<Rightarrow> (spawn SubWorker m2, warnings, False)
         | Some Poller \<Rightarrow> (spawn PollWorker m2, warnings, False)
         | Some NoUpdates \<Rightarrow> (m2, warnings, False))"

definition cancel_worker :: "nat option \<Rightarrow> manager \<Rightarrow> manager" where
  "cancel_worker t m = (case t of None \<Rightarrow> m | Some i \<Rightarrow> m\<lparr>mg_live := dpop i (mg_live m)\<rparr>)"

definition manager_stop :: "manager \<Rightarrow> manager" where
  "manager_stop m =
     (case mg_stop m of
        None \<Rightarrow> m
      | Some _ \<Rightarrow> let m' = m\<lparr>mg_stop := Some True\<rparr> in cancel_worker (mg_poller m') (cancel_worker (mg_subscriber m') m'))"

section \<open>The workers\<close>

text \<open>
  The poll loop: \<open>table k\<close> is what the \<open>k\<close>th query returns, and a cancellation that arrives during the
  query ends the loop there.  (One that arrives inside an asynchronous callback is left out.)
\<close>

datatype poll_result = PollRows "setting_row list option" | PollCancelled

definition settings_poll_loop ::
    "(nat \<Rightarrow> bool) \<Rightarrow> (nat \<Rightarrow> wait_result) \<Rightarrow> (nat \<Rightarrow> poll_result) \<Rightarrow> settings \<Rightarrow> (settings \<times> loop_exit) option" where
  "settings_poll_loop is_set wait query s =
     stop_loop is_set wait
       (\<lambda>k s. case query k of PollCancelled \<Rightarrow> (s, Some LoopCancelled) | PollRows rows \<Rightarrow> (settings_poll rows s, None)) 0 s"

definition settings_channel :: "pystr \<Rightarrow> pystr" where
  "settings_channel tenant = py ''omur:settings:'' @ tenant"

text \<open>
  One subscription, over what the channel's listener yields (whether it is a message, and its data):
  the flag tells that a message raised, after which the worker sleeps and makes a new task.
\<close>

fun settings_subscription :: "bool \<Rightarrow> (bool \<times> pystr) list \<Rightarrow> settings \<Rightarrow> settings \<times> bool" where
  "settings_subscription io [] s = (s, False)"
| "settings_subscription io ((is_message, data) # ms) s =
     (if \<not> is_message then settings_subscription io ms s
      else (case handle_message io data s of
              (s', True) \<Rightarrow> (s', True)
            | (s', False) \<Rightarrow> settings_subscription io ms s'))"

text \<open>What a worker task does to the manager: a look of the poll loop, a subscription that fails.\<close>

definition poller_looks :: "nat \<Rightarrow> setting_row list option \<Rightarrow> manager \<Rightarrow> manager" where
  "poller_looks i rows m =
     (if dget (mg_live m) i \<noteq> Some PollWorker then m
      else if mg_stop m = Some True then m\<lparr>mg_live := dpop i (mg_live m)\<rparr>
      else m\<lparr>mg_settings := settings_poll rows (mg_settings m)\<rparr>)"

definition subscriber_fails :: "nat \<Rightarrow> manager \<Rightarrow> manager" where
  "subscriber_fails i m =
     (if dget (mg_live m) i \<noteq> Some SubWorker then m else spawn SubWorker (m\<lparr>mg_live := dpop i (mg_live m)\<rparr>))"

definition subscriber_hears :: "nat \<Rightarrow> bool \<Rightarrow> pystr \<Rightarrow> manager \<Rightarrow> manager" where
  "subscriber_hears i io data m =
     (if dget (mg_live m) i \<noteq> Some SubWorker then m
      else case handle_message io data (mg_settings m) of
             (s, raised) \<Rightarrow> (let m' = m\<lparr>mg_settings := s\<rparr> in if raised then subscriber_fails i m' else m'))"

text \<open>
  Any order of starts, stops and what the workers do; with \<open>once\<close>, a manager is only started while no
  worker of it is live.
\<close>

inductive manager_step :: "bool \<Rightarrow> manager \<Rightarrow> manager \<Rightarrow> bool" for once where
  man_start: "once \<longrightarrow> mg_live m = [] \<Longrightarrow> manager_step once m (fst (manager_start var W m))"
| man_stop: "manager_step once m (manager_stop m)"
| man_poll: "manager_step once m (poller_looks i rows m)"
| man_fails: "manager_step once m (subscriber_fails i m)"
| man_hears: "manager_step once m (subscriber_hears i io data m)"

section \<open>Lemmas\<close>

declare map_of_eq_Some_iff [simp del]

text \<open>The settings after the first \<open>n\<close> polls, and the rounds at which the loop ends.\<close>

fun polled :: "(nat \<Rightarrow> poll_result) \<Rightarrow> nat \<Rightarrow> settings \<Rightarrow> settings" where
  "polled query 0 s = s"
| "polled query (Suc n) s =
     (case query n of PollCancelled \<Rightarrow> polled query n s | PollRows rows \<Rightarrow> settings_poll rows (polled query n s))"

definition poll_ends :: "(nat \<Rightarrow> bool) \<Rightarrow> (nat \<Rightarrow> wait_result) \<Rightarrow> (nat \<Rightarrow> poll_result) \<Rightarrow> nat \<Rightarrow> bool" where
  "poll_ends is_set wait query n = (is_set n \<or> wait n \<noteq> WaitTimeout \<or> query n = PollCancelled)"

definition poll_exit :: "(nat \<Rightarrow> bool) \<Rightarrow> (nat \<Rightarrow> wait_result) \<Rightarrow> nat \<Rightarrow> loop_exit" where
  "poll_exit is_set wait n = (if is_set n \<or> wait n = WaitStop then LoopStopped else LoopCancelled)"

abbreviation poll_body :: "(nat \<Rightarrow> poll_result) \<Rightarrow> nat \<Rightarrow> settings \<Rightarrow> settings \<times> loop_exit option" where
  "poll_body query k s \<equiv> case query k of PollCancelled \<Rightarrow> (s, Some LoopCancelled) | PollRows rows \<Rightarrow> (settings_poll rows s, None)"

lemma loop_state_polled: "loop_state (poll_body query) n s = polled query n s"
  by (induction n) (auto split: poll_result.split)

lemma poll_round:
  "round_exit is_set wait (poll_body query) n s =
    (if poll_ends is_set wait query n then Some (polled query n s, poll_exit is_set wait n) else None)"
  by (cases "wait n"; cases "query n")
    (simp_all add: round_exit_def loop_state_polled poll_ends_def poll_exit_def)

text \<open>With \<open>once\<close>, every live worker is one of the two the manager remembers.\<close>

fun task_of :: "worker \<Rightarrow> manager \<Rightarrow> nat option" where
  "task_of SubWorker m = mg_subscriber m"
| "task_of PollWorker m = mg_poller m"

lemma task_of_update [simp]:
  "task_of w (m\<lparr>mg_live := l\<rparr>) = task_of w m" "task_of w (m\<lparr>mg_settings := s\<rparr>) = task_of w m"
  "task_of w (m\<lparr>mg_stop := b\<rparr>) = task_of w m"
  by (cases w; simp)+

lemma task_of_spawn [simp]: "task_of v (spawn w m) = (if v = w then Some (mg_next m) else task_of v m)"
  by (cases v; cases w) (simp_all add: spawn_def Let_def)

lemma spawn_fields [simp]:
  "mg_live (spawn w m) = mg_live m @ [(mg_next m, w)]" "mg_next (spawn w m) = Suc (mg_next m)" "mg_stop (spawn w m) = mg_stop m"
  "mg_settings (spawn w m) = mg_settings m" "mg_has_pool (spawn w m) = mg_has_pool m" "mg_url (spawn w m) = mg_url m"
  "mg_subscriber (spawn SubWorker m) = Some (mg_next m)" "mg_poller (spawn SubWorker m) = mg_poller m"
  by (cases w; simp add: spawn_def Let_def)+

definition remembered :: "manager \<Rightarrow> bool" where
  "remembered m = ((\<forall>i w. dget (mg_live m) i = Some w \<longrightarrow> task_of w m = Some i)
     \<and> (mg_live m \<noteq> [] \<longrightarrow> mg_stop m \<noteq> None)
     \<and> (\<forall>i \<in> set (keys (mg_live m)). i < mg_next m) \<and> distinct (keys (mg_live m)))"

lemma remembered_init: "remembered (manager_init ce files sv p u t k)"
  by (simp add: remembered_def manager_init_def Let_def)

lemma remembered_drop: "remembered m \<Longrightarrow> remembered (m\<lparr>mg_live := dpop i (mg_live m)\<rparr>)"
  by (auto simp: remembered_def distinct_removeAll split: if_splits)

lemma remembered_settings [simp]: "remembered (m\<lparr>mg_settings := s\<rparr>) = remembered m"
  by (simp add: remembered_def)

lemma dget_snoc: "distinct (keys (d @ [(i, w)])) \<Longrightarrow> dget (d @ [(i, w)]) j = (if j = i then Some w else dget d j)"
  by (induction d) auto

lemma remembered_spawn:
  assumes "remembered m" "mg_stop m \<noteq> None" "\<forall>i v. dget (mg_live m) i = Some v \<longrightarrow> v \<noteq> w"
  shows "remembered (spawn w m)"
proof -
  have "distinct (keys (mg_live m @ [(mg_next m, w)]))" using assms(1) by (force simp: remembered_def)
  from dget_snoc [OF this] show ?thesis
    using assms by (auto simp: remembered_def less_Suc_eq split: if_splits)
qed

lemma manager_load_fields [simp]:
  "mg_live (manager_load W m) = mg_live m" "mg_stop (manager_load W m) = mg_stop m" "remembered (manager_load W m) = remembered m"
  "mg_has_pool (manager_load W m) = mg_has_pool m" "mg_url (manager_load W m) = mg_url m" "mg_next (manager_load W m) = mg_next m"
  "mg_subscriber (manager_load W m) = mg_subscriber m" "mg_poller (manager_load W m) = mg_poller m"
  by (simp_all add: manager_load_def)

lemma remembered_start:
  assumes "remembered m" "mg_live m = []"
  shows "remembered (fst (manager_start var W m))"
proof -
  let ?m = "manager_load W (m\<lparr>mg_stop := (case mg_stop m of None \<Rightarrow> Some False | Some b \<Rightarrow> Some b)\<rparr>)"
  have "remembered ?m" "mg_stop ?m \<noteq> None" "mg_live ?m = []"
    using assms by (cases "mg_stop m"; simp add: remembered_def)+
  then show ?thesis
    using remembered_spawn [of ?m]
    by (auto simp: manager_start_def Let_def split: option.split live_update.split)
qed

lemma remembered_fails: "remembered m \<Longrightarrow> remembered (subscriber_fails i m)"
proof (cases "dget (mg_live m) i = Some SubWorker")
  case True
  assume m: "remembered m"
  have "v \<noteq> SubWorker" if "dget (dpop i (mg_live m)) j = Some v" for j v
  proof
    assume "v = SubWorker"
    then have "j \<noteq> i" "dget (mg_live m) j = Some SubWorker" using that by (simp_all split: if_splits)
    then show False using True m unfolding remembered_def by (metis option.inject)
  qed
  moreover have "mg_stop m \<noteq> None" using True m by (auto simp: remembered_def)
  ultimately show ?thesis
    using True remembered_spawn [OF remembered_drop [OF m, of i], of SubWorker] by (simp add: subscriber_fails_def)
qed (simp add: subscriber_fails_def)

lemma remembered_hears: "remembered m \<Longrightarrow> remembered (subscriber_hears i io data m)"
  by (simp add: subscriber_hears_def Let_def remembered_fails split: prod.split)

lemma cancel_worker_fields [simp]:
  "task_of w (cancel_worker t m) = task_of w m" "mg_stop (cancel_worker t m) = mg_stop m"
  "mg_subscriber (cancel_worker t m) = mg_subscriber m" "mg_poller (cancel_worker t m) = mg_poller m"
  by (auto simp: cancel_worker_def split: option.split)

lemma remembered_cancel: "remembered m \<Longrightarrow> remembered (cancel_worker t m)"
  by (simp add: cancel_worker_def remembered_drop split: option.split)

lemma remembered_stop: "remembered m \<Longrightarrow> remembered (manager_stop m)"
proof -
  assume m: "remembered m"
  have "remembered (m\<lparr>mg_stop := Some True\<rparr>)" using m by (simp add: remembered_def)
  then show ?thesis using m by (simp add: manager_stop_def Let_def remembered_cancel split: option.split)
qed

lemma remembered_step: "manager_step True m m' \<Longrightarrow> remembered m \<Longrightarrow> remembered m'"
  by (induction rule: manager_step.induct)
    (simp_all add: remembered_start remembered_stop remembered_fails remembered_hears poller_looks_def remembered_drop)

lemma stop_ends_remembered:
  assumes "remembered m"
  shows "mg_live (manager_stop m) = []"
proof (cases "mg_stop m")
  case None
  then show ?thesis using assms by (simp add: remembered_def manager_stop_def)
next
  case (Some b)
  have "dget (mg_live (manager_stop m)) i = None" for i
  proof (cases "dget (mg_live m) i")
    case (Some w)
    then have "task_of w m = Some i" using assms by (simp add: remembered_def)
    then show ?thesis using \<open>mg_stop m = Some b\<close>
      by (cases w) (auto simp: manager_stop_def Let_def cancel_worker_def split: option.split)
  qed (use \<open>mg_stop m = Some b\<close> in \<open>auto simp: manager_stop_def Let_def cancel_worker_def split: option.split\<close>)
  then have "set (keys (mg_live (manager_stop m))) = {}" by (metis dget_None_iff equals0I)
  then show ?thesis by simp
qed

text \<open>The event, once set, stays set.\<close>

lemma stopped_for_ever: "manager_step once m m' \<Longrightarrow> mg_stop m = Some True \<Longrightarrow> mg_stop m' = Some True"
proof (induction rule: manager_step.induct)
  case (man_start m var W)
  then show ?case by (auto simp: manager_start_def Let_def split: option.split live_update.split)
qed (auto simp: manager_stop_def Let_def poller_looks_def subscriber_fails_def subscriber_hears_def split: prod.split)

section \<open>Properties\<close>

text \<open>
  C32. The poll loop ends, and where: it returns exactly when some round finds the event set or is
  cancelled, in its wait or in its query; then its result is the settings after the polls of the rounds before, and no
  other; otherwise it polls for ever.
\<close>

theorem settings_poll_loop_ends:
  "settings_poll_loop is_set wait query s =
    (if \<exists>n. poll_ends is_set wait query n
     then let n = LEAST n. poll_ends is_set wait query n in Some (polled query n s, poll_exit is_set wait n)
     else None)"
  using stop_loop_least [OF poll_round [of is_set wait query _ s]] by (simp add: settings_poll_loop_def Let_def)

text \<open>
  C33. A stop ends every worker, whatever starts, stops, failures and messages came before, as long as
  the manager is only started while none of its workers is live.
\<close>

theorem stop_ends_workers:
  assumes "(manager_step True)\<^sup>*\<^sup>* (manager_init cache_env files service has_pool url tenant key) m"
  shows "mg_live (manager_stop m) = []"
proof -
  have "remembered m"
    using assms by (induction rule: rtranclp_induct) (auto intro: remembered_init remembered_step)
  then show ?thesis by (rule stop_ends_remembered)
qed

definition toy_manager :: "bool \<Rightarrow> pystr \<Rightarrow> manager" where
  "toy_manager has_pool url = manager_init None (\<lambda>_. None) (py ''svc'') has_pool url [] []"

definition toy_load :: load_world where
  "toy_load = \<lparr>lw_pool = Some [toy_setting 1 10], lw_db = Some [], lw_io = True\<rparr>"

lemma start_poller: "mg_live (fst (manager_start None toy_load (toy_manager True []))) = [(0, PollWorker)]"
  by (simp add: manager_start_def toy_manager_def manager_init_def Let_def live_update_of_def settings_backend_from_env_def)

lemma stop_ends_workers_witness:
  "mg_live (fst (manager_start None toy_load (toy_manager True []))) \<noteq> []
   \<and> mg_live (manager_stop (fst (manager_start None toy_load (toy_manager True [])))) = []"
proof -
  have "mg_live (toy_manager True []) = []" by (simp add: toy_manager_def manager_init_def Let_def)
  then have "(manager_step True)\<^sup>*\<^sup>* (manager_init None (\<lambda>_. None) (py ''svc'') True [] [] []) (fst (manager_start None toy_load (toy_manager True [])))"
    unfolding toy_manager_def by (intro r_into_rtranclp man_start) simp
  then show ?thesis using stop_ends_workers start_poller by simp
qed

text \<open>
  A manager that was stopped never polls again: the event of the first stop is never cleared, so
  after a restart, and whatever else happens, the poll loop leaves at its first look and no poll
  ever changes the settings.
\<close>

theorem restart_never_polls:
  assumes "mg_stop m = Some b" "(manager_step once)\<^sup>*\<^sup>* (manager_stop m) m'"
  shows "mg_settings (poller_looks i rows m') = mg_settings m' \<and> dget (mg_live (poller_looks i rows m')) i \<noteq> Some PollWorker"
proof -
  have "mg_stop (manager_stop m) = Some True" using assms(1) by (simp add: manager_stop_def Let_def)
  with assms(2) have "mg_stop m' = Some True" by (induction rule: rtranclp_induct) (auto intro: stopped_for_ever)
  then show ?thesis by (auto simp: poller_looks_def)
qed

lemma restart_never_polls_witness:
  "mg_settings (poller_looks 1 (Some [toy_setting 2 20])
      (fst (manager_start None toy_load (manager_stop (fst (manager_start None toy_load (toy_manager True [])))))))
    = mg_settings (fst (manager_start None toy_load (manager_stop (fst (manager_start None toy_load (toy_manager True []))))))"
proof -
  let ?m = "fst (manager_start None toy_load (toy_manager True []))"
  have "mg_stop ?m = Some False"
    by (simp add: manager_start_def toy_manager_def manager_init_def Let_def live_update_of_def settings_backend_from_env_def)
  moreover have "(manager_step False)\<^sup>*\<^sup>* (manager_stop ?m) (fst (manager_start None toy_load (manager_stop ?m)))"
    by (intro r_into_rtranclp man_start) simp
  ultimately show ?thesis using restart_never_polls by blast
qed

lemma start_subscriber:
  "\<not> mg_has_pool m \<Longrightarrow> mg_url m \<noteq> [] \<Longrightarrow> fst (manager_start var W m) =
    spawn SubWorker (manager_load W (m\<lparr>mg_stop := (case mg_stop m of None \<Rightarrow> Some False | Some b \<Rightarrow> Some b)\<rparr>))"
  by (simp add: manager_start_def Let_def live_update_of_def settings_backend_from_env_def)

definition twice_started :: manager where
  "twice_started =
     (let start = (\<lambda>m. fst (manager_start None toy_load m)) in start (start (toy_manager False (py ''redis://valkey''))))"

lemma twice_started_fields:
  "mg_live twice_started = [(0, SubWorker), (1, SubWorker)]" "mg_subscriber twice_started = Some 1" "mg_poller twice_started = None"
  "mg_stop twice_started = Some False"
  by (simp_all add: twice_started_def start_subscriber toy_manager_def manager_init_def Let_def)

text \<open>
  Started twice, a manager on the Redis backend forgets its first subscriber: no number of stops ends
  it, and it goes on writing what it hears into the cache.
\<close>

theorem second_start_leaks:
  "mg_live ((manager_stop ^^ Suc n) twice_started) = [(0, SubWorker)]
   \<and> mg_settings (subscriber_hears 0 io data ((manager_stop ^^ Suc n) twice_started)) =
       fst (handle_message io data (mg_settings twice_started))"
proof -
  define m where "m = twice_started\<lparr>mg_stop := Some True, mg_live := [(0, SubWorker)]\<rparr>"
  have stop1: "manager_stop twice_started = m"
    by (simp add: m_def manager_stop_def twice_started_fields cancel_worker_def Let_def)
  have "manager_stop m = m"
    by (simp add: m_def manager_stop_def twice_started_fields cancel_worker_def Let_def)
  then have "(manager_stop ^^ n) m = m" by (induction n) simp_all
  then have m: "(manager_stop ^^ Suc n) twice_started = m" by (simp only: funpow_Suc_right comp_apply stop1)
  have "mg_live m = [(0, SubWorker)]" "mg_settings m = mg_settings twice_started" by (simp_all add: m_def)
  then show ?thesis unfolding m
    by (simp add: subscriber_hears_def subscriber_fails_def Let_def split: prod.split)
qed

text \<open>
  A manager made by \<open>create\<close> from a plain \<open>BaseServiceSettings\<close>, which has \<open>settings_key\<close> and no
  \<open>omur_settings_key\<close>, never reads a secret: its key is empty and every row decrypts to nothing.
  Made with the attribute, it reads back every secret that was encrypted under that key.
\<close>

theorem created_manager_secrets:
  "get_secret G (mg_key (manager_create cache_env files service base None)) row = None
   \<and> (aead_ok G \<and> length nonce = 12 \<and> encrypt_value G nonce plain key = Inr token \<longrightarrow>
        get_secret G (mg_key (manager_create cache_env files service base (Some key))) (Some (token, True)) = Some plain)"
proof (intro conjI impI)
  have k: "mg_key (manager_create cache_env files service base None) = []" "mg_key (manager_create cache_env files service base (Some key)) = key"
    by (simp_all add: manager_create_def manager_init_def Let_def)
  have "decode_key [] = Inl InvalidKeyError"
    by (simp add: decode_key_def b64url_text_def b64url_decode_def b64_decode_def url_translate_def ENC_KEY_SIZE_def)
  then show "get_secret G (mg_key (manager_create cache_env files service base None)) row = None"
    by (auto simp: k get_secret_def decrypt_value_def split: option.split)
  assume a: "aead_ok G \<and> length nonce = 12 \<and> encrypt_value G nonce plain key = Inr token"
  then obtain kek pt where "decode_key key = Inr kek" "utf8_encode plain = Some pt"
    by (auto simp: encrypt_value_def res_bind_Inr_iff split: option.splits)
  then have "decrypt_value G token key = Inr plain"
    using a encrypt_value_token [of key kek plain pt G nonce] decrypt_value_token [of G nonce key kek plain pt] by simp
  then show "get_secret G (mg_key (manager_create cache_env files service base (Some key))) (Some (token, True)) = Some plain"
    by (simp add: k get_secret_def)
qed

lemma created_manager_secrets_witness:
  "\<exists>token. get_secret toy_cipher (mg_key (manager_create None (\<lambda>_. None) (py ''svc'') default_settings (Some (generate_key (replicate 32 1)))))
     (Some (token, True)) = Some (py ''s3cret'')"
proof -
  have "list_all valid_cp (py ''s3cret'')" by (simp add: py_def valid_cp_def surrogate_def)
  then obtain pt where "utf8_encode (py ''s3cret'') = Some pt" using utf8_encode_Some by blast
  from encrypt_value_token [OF decode_generated this, of "replicate 32 1" toy_cipher "replicate 12 9"] toy_cipher_ok
    created_manager_secrets [of toy_cipher None "\<lambda>_. None" "py ''svc''" default_settings None "replicate 12 9" "py ''s3cret''" "generate_key (replicate 32 1)"]
  show ?thesis by auto
qed

end
