(* ===== verification/RegistryRun.thy ===== *)
theory RegistryRun
  imports Registry EventBus Loops
begin

text \<open>
  \<open>omkit/provider/registry.py\<close>, around the tasks that \<open>Registry\<close> models: the query for a registry's
  providers, and the two background workers, the poll loop and the subscription that reconnects with
  a growing wait.
\<close>

section \<open>The query\<close>

definition registry_dsn :: "pystr \<Rightarrow> pystr option \<Rightarrow> pystr" where
  "registry_dsn postgres_dsn rewrite_env =
     (let dsn = replace_all (py ''postgresql+asyncpg://'') (py ''postgresql://'') postgres_dsn
      in if rewrite_env = Some (py ''1'') then replace_all (py ''pgbouncer:6432'') (py ''postgres:5432'') dsn else dsn)"

text \<open>The \<open>providers\<close> table; the database may be out of reach, or not have it yet.\<close>

record provider_entry =
  pe_tenant :: pystr
  pe_kind :: pystr
  pe_name :: pystr
  pe_config :: json
  pe_enabled :: bool

datatype providers_db = DbDown | NoTable | ProvidersTable "provider_entry list"

datatype query_log = TableAvailable | TableMissing

definition enabled_rows :: "pystr \<Rightarrow> (pystr \<Rightarrow> bool) \<Rightarrow> provider_entry list \<Rightarrow> prov_row list" where
  "enabled_rows kind of_tenant rows =
     map (\<lambda>e. \<lparr>pv_tenant = pe_tenant e, pv_name = pe_name e, pv_config = pe_config e\<rparr>)
       (filter (\<lambda>e. pe_kind e = kind \<and> pe_enabled e \<and> of_tenant (pe_tenant e)) rows)"

text \<open>
  The rows, None when the query raises, with the flag that the table is missing and what is logged
  about it: a tenant that is not a UUID for Postgres raises, and an empty one selects every tenant.
\<close>

definition query_providers ::
    "pg_types \<Rightarrow> pystr \<Rightarrow> pystr option \<Rightarrow> providers_db \<Rightarrow> bool \<Rightarrow> prov_row list option \<times> bool \<times> query_log list" where
  "query_providers T kind tenant_id db missing =
     (case db of
        DbDown \<Rightarrow> (None, missing, [])
      | NoTable \<Rightarrow> (Some [], True, if missing then [] else [TableMissing])
      | ProvidersTable rows \<Rightarrow>
          (let available = (if missing then [TableAvailable] else []) in
           case or_none tenant_id of
             None \<Rightarrow> (Some (enabled_rows kind (\<lambda>_. True) rows), False, available)
           | Some t \<Rightarrow>
               (case pg_uuid T t of
                  None \<Rightarrow> (None, missing, [])
                | Some u \<Rightarrow> (Some (enabled_rows kind (\<lambda>v. v = u) rows), False, available))))"

section \<open>The workers\<close>

record reg_run =
  rr_reg :: registry
  rr_missing :: bool
  rr_backoff :: rat
  rr_sleeps :: "rat list"

definition run_init :: "registry \<Rightarrow> bool \<Rightarrow> reg_run" where
  "run_init s missing = \<lparr>rr_reg = s, rr_missing = missing, rr_backoff = 1, rr_sleeps = []\<rparr>"

text \<open>\<open>order\<close> is the order in which the set of new keys is visited.\<close>

definition run_reconcile :: "provider_kit \<Rightarrow> pg_types \<Rightarrow> pystr \<Rightarrow> providers_db \<Rightarrow> pystr list \<Rightarrow> reg_run \<Rightarrow> reg_run \<times> bool" where
  "run_reconcile K T kind db order r =
     (case query_providers T kind None db (rr_missing r) of
        (fetched, missing, _) \<Rightarrow>
          (case reconcile_all K fetched order (rr_reg r) of
             (s, raised) \<Rightarrow> (r\<lparr>rr_reg := s, rr_missing := missing\<rparr>, raised)))"

text \<open>The reload of a tenant that is refused makes no query.\<close>

definition run_reload :: "provider_kit \<Rightarrow> pg_types \<Rightarrow> pystr \<Rightarrow> pystr \<Rightarrow> providers_db \<Rightarrow> reg_run \<Rightarrow> reg_run \<times> bool" where
  "run_reload K T kind tenant_id db r =
     (if length tenant_id < 36 then (r, False)
      else (case query_providers T kind (Some tenant_id) db (rr_missing r) of
              (fetched, missing, _) \<Rightarrow>
                (case reload_tenant K tenant_id fetched (rr_reg r) of
                   (s, raised) \<Rightarrow> (r\<lparr>rr_reg := s, rr_missing := missing\<rparr>, raised))))"

text \<open>One round of the poll loop: what the database answers, or a cancellation during the query.\<close>

datatype poll_round = RoundDb providers_db "pystr list" | RoundCancelled

definition registry_poll_loop ::
    "provider_kit \<Rightarrow> pg_types \<Rightarrow> pystr \<Rightarrow> (nat \<Rightarrow> bool) \<Rightarrow> (nat \<Rightarrow> wait_result) \<Rightarrow> (nat \<Rightarrow> poll_round) \<Rightarrow> reg_run \<Rightarrow> (reg_run \<times> loop_exit) option" where
  "registry_poll_loop K T kind is_set wait answer r =
     stop_loop is_set wait
       (\<lambda>k r. case answer k of
                RoundCancelled \<Rightarrow> (r, Some LoopCancelled)
              | RoundDb db order \<Rightarrow> (fst (run_reconcile K T kind db order r), None)) 0 r"

text \<open>
  One attempt of the subscription: whether the pattern could be subscribed to, the answer to the
  reconcile that follows, then what the listener yields (whether it is a pattern message, its
  channel, and the database at that time), and how it ends when nothing raises.
\<close>

datatype listen_end = ListenEnds | ListenRaises | ListenCancelled

record attempt =
  at_subscribes :: bool
  at_db :: providers_db
  at_order :: "pystr list"
  at_heard :: "(bool \<times> pystr \<times> providers_db) list"
  at_end :: listen_end

fun run_messages :: "provider_kit \<Rightarrow> pg_types \<Rightarrow> pystr \<Rightarrow> (bool \<times> pystr \<times> providers_db) list \<Rightarrow> reg_run \<Rightarrow> reg_run \<times> bool" where
  "run_messages K T kind [] r = (r, False)"
| "run_messages K T kind ((is_pmessage, channel, db) # ms) r =
     (if \<not> is_pmessage then run_messages K T kind ms r
      else (case run_reload K T kind (channel_tenant channel) db r of
              (r', True) \<Rightarrow> (r', True)
            | (r', False) \<Rightarrow> run_messages K T kind ms r'))"

definition run_attempt :: "provider_kit \<Rightarrow> pg_types \<Rightarrow> pystr \<Rightarrow> attempt \<Rightarrow> reg_run \<Rightarrow> reg_run \<times> listen_end" where
  "run_attempt K T kind a r =
     (if \<not> at_subscribes a then (r, ListenRaises)
      else let r1 = r\<lparr>rr_backoff := 1\<rparr> in
        (case run_reconcile K T kind (at_db a) (at_order a) r1 of
           (r2, True) \<Rightarrow> (r2, ListenRaises)
         | (r2, False) \<Rightarrow>
             (case run_messages K T kind (at_heard a) r2 of
                (r3, True) \<Rightarrow> (r3, ListenRaises)
              | (r3, False) \<Rightarrow> (r3, at_end a))))"

text \<open>The loop over the attempts, as far as they are given; a listener that just ends is replaced at once.\<close>

fun subscribe_valkey :: "provider_kit \<Rightarrow> pg_types \<Rightarrow> pystr \<Rightarrow> attempt list \<Rightarrow> reg_run \<Rightarrow> reg_run" where
  "subscribe_valkey K T kind [] r = r"
| "subscribe_valkey K T kind (a # as) r =
     (case run_attempt K T kind a r of
        (r', ListenCancelled) \<Rightarrow> r'
      | (r', ListenEnds) \<Rightarrow> subscribe_valkey K T kind as r'
      | (r', ListenRaises) \<Rightarrow>
          subscribe_valkey K T kind as
            (r'\<lparr>rr_sleeps := rr_sleeps r' @ [rr_backoff r'], rr_backoff := next_backoff (rr_backoff r')\<rparr>))"

section \<open>Lemmas\<close>

text \<open>The workers only reconcile and reload, so every task stays tracked; the wait stays within its bounds.\<close>

lemma tracked_reload: "tracked s \<Longrightarrow> tracked (fst (reload_tenant K tn f s))"
  by (simp add: reload_tenant_def Let_def tracked_cancel tracked_starts split: option.split)

lemma tracked_reconcile: "tracked s \<Longrightarrow> tracked (fst (reconcile_all K f order s))"
  by (simp add: reconcile_all_def Let_def tracked_cancel tracked_starts split: option.split)

definition run_ok :: "reg_run \<Rightarrow> bool" where
  "run_ok r = (tracked (rr_reg r) \<and> 1 \<le> rr_backoff r \<and> rr_backoff r \<le> 60 \<and> list_all (\<lambda>b. 1 \<le> b \<and> b \<le> 60) (rr_sleeps r))"

lemma run_ok_reconcile: "run_ok r \<Longrightarrow> run_ok (fst (run_reconcile K T kind db order r))"
  using tracked_reconcile [of "rr_reg r" K _ order]
  by (auto simp: run_ok_def run_reconcile_def split: prod.split) (metis fst_conv)

lemma run_ok_reload: "run_ok r \<Longrightarrow> run_ok (fst (run_reload K T kind tn db r))"
  using tracked_reload [of "rr_reg r" K tn]
  by (auto simp: run_ok_def run_reload_def split: prod.split) (metis fst_conv)

lemma run_ok_messages: "run_ok r \<Longrightarrow> run_ok (fst (run_messages K T kind ms r))"
proof (induction K T kind ms r rule: run_messages.induct)
  case (2 K T kind p channel db ms r)
  then show ?case
    using run_ok_reload [OF 2(3), of K T kind "channel_tenant channel" db] by (auto split: prod.split bool.split)
qed simp

lemma run_ok_attempt: "run_ok r \<Longrightarrow> run_ok (fst (run_attempt K T kind a r))"
proof -
  assume r: "run_ok r"
  then have r1: "run_ok (r\<lparr>rr_backoff := 1\<rparr>)" by (simp add: run_ok_def)
  obtain r2 b2 where r2: "run_reconcile K T kind (at_db a) (at_order a) (r\<lparr>rr_backoff := 1\<rparr>) = (r2, b2)" by fastforce
  have ok2: "run_ok r2" using run_ok_reconcile [OF r1, of K T kind "at_db a" "at_order a"] r2 by simp
  obtain r3 b3 where r3: "run_messages K T kind (at_heard a) r2 = (r3, b3)" by fastforce
  have "run_ok r3" using run_ok_messages [OF ok2, of K T kind "at_heard a"] r3 by simp
  then show ?thesis using r ok2 r2 r3 by (cases b2; cases b3) (simp_all add: run_attempt_def Let_def)
qed

lemma next_backoff_bounds: "1 \<le> b \<Longrightarrow> 1 \<le> next_backoff b \<and> next_backoff b \<le> 60"
  by (simp add: next_backoff_def)

lemma run_ok_wait:
  "run_ok r \<Longrightarrow> run_ok (r\<lparr>rr_sleeps := rr_sleeps r @ [rr_backoff r], rr_backoff := next_backoff (rr_backoff r)\<rparr>)"
  using next_backoff_bounds [of "rr_backoff r"] by (simp add: run_ok_def)

lemma run_ok_subscribe: "run_ok r \<Longrightarrow> run_ok (subscribe_valkey K T kind as r)"
proof (induction as arbitrary: r)
  case (Cons a as)
  obtain r' e where a: "run_attempt K T kind a r = (r', e)" by fastforce
  then have "run_ok r'" using run_ok_attempt [OF Cons.prems, of K T kind a] by simp
  then show ?case using a Cons.IH run_ok_wait by (cases e) simp_all
qed simp


text \<open>Attempts that all fail alike.\<close>

lemma failing_attempts:
  "\<forall>a \<in> set as. \<not> at_subscribes a \<Longrightarrow> rr_backoff r = min (2 ^ k) 60 \<Longrightarrow>
    rr_sleeps (subscribe_valkey K T kind as r) = rr_sleeps r @ map (\<lambda>i. min (2 ^ (k + i)) 60) [0..<length as]"
proof (induction as arbitrary: r k)
  case (Cons a as)
  have "next_backoff (rr_backoff r) = min (2 ^ Suc k) 60"
    unfolding Cons.prems(2) next_backoff_def by (simp add: min_def)
  moreover have "map (\<lambda>i. min (2 ^ (k + i)) 60) [0..<length (a # as)] = min (2 ^ k) 60 # map (\<lambda>i. min (2 ^ (Suc k + i)) (60 :: rat)) [0..<length as]"
  proof -
    have "[0..<length (a # as)] = 0 # map Suc [0..<length as]" by (simp only: length_Cons map_Suc_upt upt_conv_Cons [OF zero_less_Suc])
    then show ?thesis by (simp only: list.map map_map) (simp add: comp_def)
  qed
  ultimately show ?case
    using Cons.IH [of "r\<lparr>rr_sleeps := rr_sleeps r @ [rr_backoff r], rr_backoff := next_backoff (rr_backoff r)\<rparr>" "Suc k"] Cons.prems
    by (simp add: run_attempt_def)
qed simp

lemma down_reconcile: "run_reconcile K T kind DbDown order r = (r, True)"
  by (simp add: run_reconcile_def query_providers_def reconcile_all_def)

lemma down_attempts:
  "\<forall>a \<in> set as. at_subscribes a \<and> at_db a = DbDown \<Longrightarrow>
    rr_sleeps (subscribe_valkey K T kind as r) = rr_sleeps r @ replicate (length as) 1"
proof (induction as arbitrary: r)
  case (Cons a as)
  have "run_attempt K T kind a r = (r\<lparr>rr_backoff := 1\<rparr>, ListenRaises)"
    using Cons.prems by (simp add: run_attempt_def down_reconcile Let_def)
  moreover have "\<forall>a \<in> set as. at_subscribes a \<and> at_db a = DbDown" using Cons.prems by simp
  note Cons.IH [OF this, of "r\<lparr>rr_sleeps := rr_sleeps r @ [1], rr_backoff := next_backoff 1\<rparr>"]
  ultimately show ?case by simp
qed simp

text \<open>The state of the poll loop after \<open>n\<close> rounds, and the rounds that end it.\<close>

fun reconciled :: "provider_kit \<Rightarrow> pg_types \<Rightarrow> pystr \<Rightarrow> (nat \<Rightarrow> poll_round) \<Rightarrow> nat \<Rightarrow> reg_run \<Rightarrow> reg_run" where
  "reconciled K T kind answer 0 r = r"
| "reconciled K T kind answer (Suc n) r =
     (case answer n of
        RoundCancelled \<Rightarrow> reconciled K T kind answer n r
      | RoundDb db order \<Rightarrow> fst (run_reconcile K T kind db order (reconciled K T kind answer n r)))"

definition registry_ends :: "(nat \<Rightarrow> bool) \<Rightarrow> (nat \<Rightarrow> wait_result) \<Rightarrow> (nat \<Rightarrow> poll_round) \<Rightarrow> nat \<Rightarrow> bool" where
  "registry_ends is_set wait answer n = (is_set n \<or> wait n \<noteq> WaitTimeout \<or> answer n = RoundCancelled)"

lemma registry_round:
  "round_exit is_set wait (\<lambda>k r. case answer k of RoundCancelled \<Rightarrow> (r, Some LoopCancelled)
       | RoundDb db order \<Rightarrow> (fst (run_reconcile K T kind db order r), None)) n r =
    (if registry_ends is_set wait answer n
     then Some (reconciled K T kind answer n r, if is_set n \<or> wait n = WaitStop then LoopStopped else LoopCancelled) else None)"
proof -
  have "loop_state (\<lambda>k r. case answer k of RoundCancelled \<Rightarrow> (r, Some LoopCancelled)
       | RoundDb db order \<Rightarrow> (fst (run_reconcile K T kind db order r), None)) n r = reconciled K T kind answer n r"
    by (induction n) (auto split: poll_round.split)
  then show ?thesis by (cases "wait n"; cases "answer n") (simp_all add: round_exit_def registry_ends_def)
qed

section \<open>Properties\<close>

text \<open>
  However the attempts to subscribe go, what the database answers and what is heard, every wait
  before the next attempt is between one second and a minute, and every running task stays tracked.  While Valkey cannot be
  reached the waits double up to the minute; while it can be and the database cannot, every attempt
  resets the wait, and they stay at one second.
\<close>

theorem reconnect_backoff:
  fixes K :: provider_kit and T :: pg_types and kind :: pystr and missing :: bool
  assumes "tracked s"
  defines "run \<equiv> \<lambda>as. subscribe_valkey K T kind as (run_init s missing)"
  shows "tracked (rr_reg (run as)) \<and> list_all (\<lambda>b. 1 \<le> b \<and> b \<le> 60) (rr_sleeps (run as))
    \<and> ((\<forall>a \<in> set as. \<not> at_subscribes a) \<longrightarrow> rr_sleeps (run as) = map (\<lambda>i. min (2 ^ i) 60) [0..<length as])
    \<and> ((\<forall>a \<in> set as. at_subscribes a \<and> at_db a = DbDown) \<longrightarrow> rr_sleeps (run as) = replicate (length as) 1)"
proof -
  have i: "run_ok (run_init s missing)" "rr_sleeps (run_init s missing) = []" "rr_backoff (run_init s missing) = min (2 ^ 0) 60"
    using assms(1) by (simp_all add: run_ok_def run_init_def)
  have "run_ok (run as)" unfolding run_def by (rule run_ok_subscribe [OF i(1)])
  then show ?thesis
    using failing_attempts [OF _ i(3), of as K T kind] down_attempts [of as K T kind "run_init s missing"] i(2)
    by (simp add: run_ok_def run_def)
qed

definition toy_attempt :: "bool \<Rightarrow> providers_db \<Rightarrow> attempt" where
  "toy_attempt sub db = \<lparr>at_subscribes = sub, at_db = db, at_order = [], at_heard = [], at_end = ListenRaises\<rparr>"

lemma reconnect_backoff_witness:
  "rr_sleeps (subscribe_valkey toy_kit toy_types (py ''collector'') (replicate 8 (toy_attempt False NoTable)) (run_init registry_init False))
     = [1, 2, 4, 8, 16, 32, 60, 60]"
  using reconnect_backoff [OF tracked_init, where K = toy_kit and T = toy_types and kind = "py ''collector''" and missing = False and as = "replicate 8 (toy_attempt False NoTable)"]
  by (simp add: toy_attempt_def upt_conv_Cons)

text \<open>
  The poll loop returns exactly when some round finds the event set or is cancelled; then the
  registry is what the rounds before left, one reconcile each, and failing reconciles do not end it.
\<close>

theorem registry_poll_loop_ends:
  "registry_poll_loop K T kind is_set wait answer r =
    (if \<exists>n. registry_ends is_set wait answer n
     then let n = LEAST n. registry_ends is_set wait answer n
       in Some (reconciled K T kind answer n r, if is_set n \<or> wait n = WaitStop then LoopStopped else LoopCancelled)
     else None)"
  unfolding registry_poll_loop_def Let_def by (rule stop_loop_least) (rule registry_round)

end
