(* ===== verification/Subscriptions.thy ===== *)
theory Subscriptions
  imports EventBus Scheduler Loops
begin

text \<open>
  The loops around the steps of \<open>EventBus\<close> and \<open>Scheduler\<close>: \<open>subscribe\<close> of both buses in
  \<open>omkit/eventbus.py\<close> and \<open>_run_loop\<close> of \<open>omkit/scheduler/scheduler.py\<close>.  Each is the partial function of
  \<open>Loops\<close>; the lemmas tie it to the step relation of its component, so that what is proved over every
  interleaving of the steps holds of the loops.
\<close>

section \<open>The Postgres bus\<close>

text \<open>
  One poll of the loop: which calls of the handler return and whether the offset's update commits, or
  a cancellation, which ends the poll inside a call of the handler or rolls its transaction back.
  \<open>others k\<close> is what publishers and other consumers did to the tables before the \<open>k\<close>th poll, and
  \<open>row_ok\<close> whether the statement that makes the offset row succeeds.
\<close>

datatype bus_round = BusPoll "event \<Rightarrow> bool" bool | BusCancelled "event \<Rightarrow> bool"

definition bus_round_body ::
    "nat \<Rightarrow> (nat \<Rightarrow> pg_bus \<Rightarrow> pg_bus) \<Rightarrow> (nat \<Rightarrow> bus_round) \<Rightarrow> subscription \<Rightarrow> nat \<Rightarrow> pg_bus \<Rightarrow> pg_bus \<times> loop_exit option" where
  "bus_round_body batch others rounds sub k s =
     (case rounds k of
        BusPoll handler updated \<Rightarrow> (poll_once batch handler updated sub (others k s), None)
      | BusCancelled handler \<Rightarrow> (poll_once batch handler False sub (others k s), Some LoopCancelled))"

definition pg_subscribe ::
    "nat \<Rightarrow> bool \<Rightarrow> (nat \<Rightarrow> pg_bus \<Rightarrow> pg_bus) \<Rightarrow> (nat \<Rightarrow> bool) \<Rightarrow> (nat \<Rightarrow> wait_result) \<Rightarrow> (nat \<Rightarrow> bus_round) \<Rightarrow>
      subscription \<Rightarrow> pg_bus \<Rightarrow> (pg_bus \<times> loop_exit) option" where
  "pg_subscribe batch row_ok others is_set wait rounds sub s =
     (if \<not> row_ok then Some (s, LoopRaised)
      else (case bus_round_body batch others rounds sub 0 (subscribe_row sub s) of
              (s1, Some e) \<Rightarrow> Some (s1, e)
            | (s1, None) \<Rightarrow> stop_loop is_set wait (\<lambda>k. bus_round_body batch others rounds sub (Suc k)) 0 s1))"

section \<open>The Redis bus\<close>

text \<open>
  One round of the loop: the read fails and the loop sleeps, it is cancelled (in the read or the sleep),
  or it returns a batch, with the calls of the handler and of \<open>xack\<close> that return.
\<close>

datatype redis_round = ReadFails | ReadCancelled | ReadBatch int "nat \<Rightarrow> bool" "nat \<Rightarrow> bool"

definition redis_round_body ::
    "pystr \<Rightarrow> (nat \<Rightarrow> redis_bus \<Rightarrow> redis_bus) \<Rightarrow> (nat \<Rightarrow> redis_round) \<Rightarrow> nat \<Rightarrow> redis_bus \<Rightarrow> redis_bus \<times> loop_exit option" where
  "redis_round_body topic others reads k s =
     (case reads k of
        ReadFails \<Rightarrow> (others k s, None)
      | ReadCancelled \<Rightarrow> (others k s, Some LoopCancelled)
      | ReadBatch now returns acks \<Rightarrow>
          (case redis_poll topic now returns acks (others k s) of
             (s', raised) \<Rightarrow> (s', if raised then Some LoopRaised else None)))"

text \<open>The loop looks at the event between the rounds and waits in the read, not for the event.\<close>

definition redis_subscribe ::
    "pystr \<Rightarrow> (nat \<Rightarrow> redis_bus \<Rightarrow> redis_bus) \<Rightarrow> (nat \<Rightarrow> bool) \<Rightarrow> (nat \<Rightarrow> redis_round) \<Rightarrow> redis_bus \<Rightarrow> (redis_bus \<times> loop_exit) option" where
  "redis_subscribe topic others is_set reads s =
     stop_loop is_set (\<lambda>_. WaitTimeout) (redis_round_body topic others reads) 0 s"

section \<open>The scheduler\<close>

text \<open>\<open>fetched k\<close> is what the source returns to the \<open>k\<close>th tick; \<open>SchedulerCancel\<close> has a cancellation inside a reconcile.\<close>

definition sched_round_body :: "'w sched_env \<Rightarrow> (nat \<Rightarrow> provider list option) \<Rightarrow> nat \<Rightarrow> 'w sched \<Rightarrow> 'w sched \<times> loop_exit option" where
  "sched_round_body E fetched k s =
     (case reconcile E (fetched k) s of (s', raised) \<Rightarrow> (s', if raised then Some LoopRaised else None))"

definition sched_run_loop ::
    "'w sched_env \<Rightarrow> (nat \<Rightarrow> bool) \<Rightarrow> (nat \<Rightarrow> wait_result) \<Rightarrow> (nat \<Rightarrow> provider list option) \<Rightarrow> 'w sched \<Rightarrow> ('w sched \<times> loop_exit) option" where
  "sched_run_loop E is_set wait fetched s = stop_loop is_set wait (sched_round_body E fetched) 0 s"

section \<open>Lemmas\<close>

declare map_of_eq_Some_iff [simp del] split_paired_All [simp del] split_paired_Ex [simp del]

lemma bus_round_steps:
  assumes "\<forall>k s. (bus_step T b)\<^sup>*\<^sup>* s (others k s)" "(bus_step T b)\<^sup>*\<^sup>* s0 s"
  shows "(bus_step T b)\<^sup>*\<^sup>* s0 (fst (bus_round_body batch others rounds sub k s))"
proof -
  have "(bus_step T b)\<^sup>*\<^sup>* s0 (others k s)" using assms by (blast intro: rtranclp_trans)
  moreover have "bus_step T b (others k s) (poll_once batch h u sub (others k s))" for h u by (rule poll)
  ultimately have "(bus_step T b)\<^sup>*\<^sup>* s0 (poll_once batch h u sub (others k s))" for h u
    by (rule rtranclp.rtrancl_into_rtrancl)
  then show ?thesis by (simp add: bus_round_body_def split: bus_round.split)
qed

text \<open>Rounds in which nobody else does anything and nothing fails are polls.\<close>

abbreviation quiet :: "(nat \<Rightarrow> pg_bus \<Rightarrow> pg_bus) \<Rightarrow> (nat \<Rightarrow> bus_round) \<Rightarrow> nat \<Rightarrow> bool" where
  "quiet others rounds k \<equiv> others k = id \<and> rounds k = BusPoll (\<lambda>_. True) True"

lemma quiet_round:
  "quiet others rounds k \<Longrightarrow> bus_round_body batch others rounds sub k s = (poll_once batch (\<lambda>_. True) True sub s, None)"
  by (simp add: bus_round_body_def)

lemma quiet_rounds:
  "\<forall>k<n. quiet others rounds (Suc k) \<Longrightarrow>
    loop_state (\<lambda>k. bus_round_body batch others rounds sub (Suc k)) n (poll_once batch (\<lambda>_. True) True sub s) = polls (Suc n) batch sub s"
  by (induction n) (simp_all add: quiet_round polls_def)

text \<open>A batch that raises has a message that is no event; it is not acknowledged and not handed over.\<close>

lemma redis_deliver_raises:
  "snd (redis_deliver topic now returns acks ms s) \<Longrightarrow> distinct (map sm_id ms) \<Longrightarrow>
    \<exists>m \<in> set ms. redis_event topic now (sm_fields m) = None
      \<and> (sm_id m \<in> set (rb_unacked (fst (redis_deliver topic now returns acks ms s))) \<longleftrightarrow> sm_id m \<in> set (rb_unacked s))
      \<and> (sm_id m \<in> fst ` set (rb_called (fst (redis_deliver topic now returns acks ms s))) \<longleftrightarrow> sm_id m \<in> fst ` set (rb_called s))"
proof (induction ms arbitrary: s)
  case (Cons m ms)
  show ?case
  proof (cases "redis_event topic now (sm_fields m)")
    case (Some e)
    let ?s = "let s1 = s\<lparr>rb_called := rb_called s @ [(sm_id m, e)]\<rparr> in
      if returns (sm_id m) \<and> acks (sm_id m) then s1\<lparr>rb_unacked := removeAll (sm_id m) (rb_unacked s1)\<rparr> else s1"
    have eq: "redis_deliver topic now returns acks (m # ms) s = redis_deliver topic now returns acks ms ?s"
      using Some by (simp add: Let_def)
    have "snd (redis_deliver topic now returns acks ms ?s)" "distinct (map sm_id ms)" using Cons.prems unfolding eq by simp_all
    from Cons.IH [OF this] obtain m' where m': "m' \<in> set ms" "redis_event topic now (sm_fields m') = None"
      "sm_id m' \<in> set (rb_unacked (fst (redis_deliver topic now returns acks ms ?s))) \<longleftrightarrow> sm_id m' \<in> set (rb_unacked ?s)"
      "sm_id m' \<in> fst ` set (rb_called (fst (redis_deliver topic now returns acks ms ?s))) \<longleftrightarrow> sm_id m' \<in> fst ` set (rb_called ?s)"
      by blast
    have "sm_id m' \<noteq> sm_id m" using Cons.prems(2) m'(1) by (auto simp: image_iff)
    then have "sm_id m' \<in> set (rb_unacked ?s) \<longleftrightarrow> sm_id m' \<in> set (rb_unacked s)"
      "sm_id m' \<in> fst ` set (rb_called ?s) \<longleftrightarrow> sm_id m' \<in> fst ` set (rb_called s)"
      by (auto simp: Let_def image_iff)
    then show ?thesis unfolding eq using m' by (intro bexI [of _ m']) auto
  qed auto
qed simp

lemma redis_poll_raises:
  assumes "redis_ok s" "snd (redis_poll topic now returns acks s)"
  shows "\<exists>m \<in> set (rb_stream s). redis_event topic now (sm_fields m) = None
    \<and> sm_id m \<in> set (rb_unacked (fst (redis_poll topic now returns acks s)))
    \<and> sm_id m \<notin> fst ` set (rb_called (fst (redis_poll topic now returns acks s)))"
proof -
  let ?ms = "take READ_COUNT (drop (rb_given s) (rb_stream s))"
  let ?s = "s\<lparr>rb_given := rb_given s + length ?ms, rb_unacked := rb_unacked s @ map sm_id ?ms\<rparr>"
  have eq: "redis_poll topic now returns acks s = redis_deliver topic now returns acks ?ms ?s"
    by (simp add: redis_poll_def Let_def)
  have srt: "sorted_wrt (<) (map sm_id (rb_stream s))" using assms(1) by (simp add: redis_ok_def)
  then have "distinct (map sm_id (rb_stream s))" by (simp add: strict_sorted_iff)
  then have "distinct (map sm_id ?ms)" by (metis distinct_drop distinct_take drop_map take_map)
  from redis_deliver_raises [OF assms(2) [unfolded eq] this] obtain m where m: "m \<in> set ?ms"
    "redis_event topic now (sm_fields m) = None"
    "sm_id m \<in> set (rb_unacked (fst (redis_deliver topic now returns acks ?ms ?s)))"
    "sm_id m \<in> fst ` set (rb_called (fst (redis_deliver topic now returns acks ?ms ?s))) \<longleftrightarrow> sm_id m \<in> fst ` set (rb_called s)"
    by auto
  have "m \<in> set (drop (rb_given s) (rb_stream s))" using m(1) by (rule in_set_takeD)
  then have "sm_id m \<in> set (drop (rb_given s) (map sm_id (rb_stream s)))" by (simp add: drop_map)
  from sorted_wrt_split [OF srt _ this] have "sm_id m \<notin> set (take (rb_given s) (map sm_id (rb_stream s)))" by blast
  then have "sm_id m \<notin> fst ` set (rb_called s)" using assms(1) by (auto simp: redis_ok_def)
  moreover have "m \<in> set (rb_stream s)" using m(1) in_set_takeD in_set_dropD by metis
  ultimately show ?thesis unfolding eq using m by blast
qed

lemma redis_poll_stream: "rb_stream (fst (redis_poll topic now returns acks s)) = rb_stream s"
  by (simp add: redis_poll_def Let_def)

lemma redis_round_ok:
  assumes "\<forall>k s. redis_ok s \<longrightarrow> redis_ok (others k s)" "redis_ok s"
  shows "redis_ok (fst (redis_round_body topic others reads k s))"
  using assms redis_ok_poll [of "others k s" topic]
  by (simp add: redis_round_body_def split: redis_round.split prod.split) (metis fst_conv)

text \<open>The scheduler after \<open>n\<close> ticks, and the rounds that end its loop.\<close>

fun ticked :: "'w sched_env \<Rightarrow> (nat \<Rightarrow> provider list option) \<Rightarrow> nat \<Rightarrow> 'w sched \<Rightarrow> 'w sched" where
  "ticked E fetched 0 s = s"
| "ticked E fetched (Suc n) s = fst (reconcile E (fetched n) (ticked E fetched n s))"

definition tick_ends :: "'w sched_env \<Rightarrow> (nat \<Rightarrow> bool) \<Rightarrow> (nat \<Rightarrow> wait_result) \<Rightarrow> (nat \<Rightarrow> provider list option) \<Rightarrow> 'w sched \<Rightarrow> nat \<Rightarrow> bool" where
  "tick_ends E is_set wait fetched s n =
     (is_set n \<or> wait n \<noteq> WaitTimeout \<or> snd (reconcile E (fetched n) (ticked E fetched n s)))"

definition tick_exit :: "'w sched_env \<Rightarrow> (nat \<Rightarrow> bool) \<Rightarrow> (nat \<Rightarrow> wait_result) \<Rightarrow> (nat \<Rightarrow> provider list option) \<Rightarrow> 'w sched \<Rightarrow> nat \<Rightarrow> 'w sched \<times> loop_exit" where
  "tick_exit E is_set wait fetched s n =
     (if is_set n \<or> wait n = WaitStop then (ticked E fetched n s, LoopStopped)
      else if wait n = WaitCancel then (ticked E fetched n s, LoopCancelled)
      else (ticked E fetched (Suc n) s, LoopRaised))"

lemma sched_round_fst: "fst (sched_round_body E fetched k s) = fst (reconcile E (fetched k) s)"
  by (simp add: sched_round_body_def split: prod.split)

lemma tick_round:
  "round_exit is_set wait (sched_round_body E fetched) n s =
    (if tick_ends E is_set wait fetched s n then Some (tick_exit E is_set wait fetched s n) else None)"
proof -
  have "loop_state (sched_round_body E fetched) n s = ticked E fetched n s"
    by (induction n) (simp_all add: sched_round_fst)
  then show ?thesis
    by (cases "wait n") (simp_all add: round_exit_def tick_ends_def tick_exit_def sched_round_body_def Let_def split_beta)
qed

lemma in_sync_ticked:
  "backend_ok E live \<Longrightarrow> in_sync E live s \<Longrightarrow> in_sync E live (ticked E fetched n s)"
  by (induction n) (simp_all add: in_sync_reconcile)

section \<open>Properties\<close>

text \<open>
  C30. A subscription of the Postgres bus that returns was a run of the bus: whatever publishers and other
  consumers did between its polls, whichever handlers and updates failed, its result is a state the
  step relation reaches, so what holds of every reachable state holds of it.  When nothing fails and
  nobody publishes, and the stop is seen in round n, it has made n + 1 polls: it returns, its handler
  was called for exactly the first n + 1 batches, and with enough rounds nothing is left.
\<close>

theorem subscription_runs:
  assumes "(bus_step T b)\<^sup>*\<^sup>* bus_init s" "\<forall>k s. (bus_step T b)\<^sup>*\<^sup>* s (others k s)"
  shows "(pg_subscribe batch row_ok others is_set wait rounds sub s = Some (s', e) \<longrightarrow> (bus_step T b)\<^sup>*\<^sup>* bus_init s')
    \<and> ((\<forall>k\<le>n. quiet others rounds k) \<and> (\<forall>k<n. \<not> is_set k \<and> wait k = WaitTimeout) \<and> (is_set n \<or> wait n = WaitStop)
        \<and> (\<forall>r \<in> set (unseen sub (subscribe_row sub s)). event_of r \<noteq> None) \<longrightarrow>
        (\<exists>s'. pg_subscribe batch True others is_set wait rounds sub s = Some (s', LoopStopped)
          \<and> eb_handled s' = eb_handled s @ map (\<lambda>r. (sub, the (event_of r))) (take (Suc n * batch) (unseen sub (subscribe_row sub s)))
          \<and> unseen sub s' = drop (Suc n * batch) (unseen sub (subscribe_row sub s))))"
proof (intro conjI impI)
  have s1: "(bus_step T b)\<^sup>*\<^sup>* bus_init (subscribe_row sub s)"
    using assms(1) sub_row by (rule rtranclp.rtrancl_into_rtrancl)
  note round = bus_round_steps [OF assms(2)]
  show "(bus_step T b)\<^sup>*\<^sup>* bus_init s'" if r: "pg_subscribe batch row_ok others is_set wait rounds sub s = Some (s', e)"
  proof (cases row_ok)
    case True
    obtain s2 out where s2: "bus_round_body batch others rounds sub 0 (subscribe_row sub s) = (s2, out)" by fastforce
    have reach: "(bus_step T b)\<^sup>*\<^sup>* bus_init s2" using round [OF s1, where batch = batch and rounds = rounds and sub = sub and k = 0] s2 by simp
    show ?thesis
    proof (cases out)
      case None
      then have "stop_loop is_set wait (\<lambda>k. bus_round_body batch others rounds sub (Suc k)) 0 s2 = Some (s', e)"
        using r True s2 by (simp add: pg_subscribe_def)
      then show ?thesis using reach by (rule stop_loop_invariant) (rule round)
    qed (use r True s2 reach in \<open>simp add: pg_subscribe_def\<close>)
  qed (use r assms(1) in \<open>simp add: pg_subscribe_def\<close>)
  assume q: "(\<forall>k\<le>n. quiet others rounds k) \<and> (\<forall>k<n. \<not> is_set k \<and> wait k = WaitTimeout) \<and> (is_set n \<or> wait n = WaitStop)
    \<and> (\<forall>r \<in> set (unseen sub (subscribe_row sub s)). event_of r \<noteq> None)"
  let ?body = "\<lambda>k. bus_round_body batch others rounds sub (Suc k)" and ?s1 = "subscribe_row sub s"
  have first: "bus_round_body batch others rounds sub 0 ?s1 = (poll_once batch (\<lambda>_. True) True sub ?s1, None)"
    using q by (intro quiet_round) simp
  have state: "loop_state ?body m (poll_once batch (\<lambda>_. True) True sub ?s1) = polls (Suc m) batch sub ?s1" if "m \<le> n" for m
    using q that by (intro quiet_rounds) auto
  have "round_exit is_set wait ?body n (poll_once batch (\<lambda>_. True) True sub ?s1) = Some (polls (Suc n) batch sub ?s1, LoopStopped)"
    using q state [of n] by (simp add: round_exit_def)
  moreover have "round_exit is_set wait ?body m (poll_once batch (\<lambda>_. True) True sub ?s1) = None" if "m < n" for m
    using q that by (simp add: round_exit_def Let_def bus_round_body_def)
  ultimately have "stop_loop is_set wait ?body 0 (poll_once batch (\<lambda>_. True) True sub ?s1) = Some (polls (Suc n) batch sub ?s1, LoopStopped)"
    by (intro stop_loop_first [where n = n]) auto
  then have "pg_subscribe batch True others is_set wait rounds sub s = Some (polls (Suc n) batch sub ?s1, LoopStopped)"
    using first by (simp add: pg_subscribe_def)
  then show "\<exists>s'. pg_subscribe batch True others is_set wait rounds sub s = Some (s', LoopStopped)
      \<and> eb_handled s' = eb_handled s @ map (\<lambda>r. (sub, the (event_of r))) (take (Suc n * batch) (unseen sub ?s1))
      \<and> unseen sub s' = drop (Suc n * batch) (unseen sub ?s1)"
    using polls_handled [OF ids_ok_reach [OF s1], of sub "Suc n" batch] q by simp
qed

lemma subscription_runs_witness:
  "\<exists>s'. pg_subscribe 10 True (\<lambda>_. id) (\<lambda>_. True) (\<lambda>_. WaitTimeout) (\<lambda>_. BusPoll (\<lambda>_. True) True) toy_sub
      (toy_state [toy_event 1] [] 2 [] []) = Some (s', LoopStopped)
    \<and> eb_handled s' = [(toy_sub, the (event_of (toy_event 1)))] \<and> unseen toy_sub s' = []"
proof -
  let ?s = "toy_state [toy_event 1] [] 2 [] []"
  have reach: "(bus_step toy_types True)\<^sup>*\<^sup>* bus_init ?s"
    using toy_insert_step [of True "[]" "[]" 1 "[]" "[]"] toy_commit_step [of "toy_event 1" "[toy_event 1]" True "[]" 2 "[]" "[]"]
    by (simp add: toy_init numeral_2_eq_2)
  have u: "unseen toy_sub (subscribe_row toy_sub ?s) = [toy_event 1]"
    by (simp add: unseen_def toy_state_def toy_sub_def subscribe_row_def)
  have h: "eb_handled ?s = []" by (simp add: toy_state_def)
  have quiet: "\<forall>k s. (bus_step toy_types True)\<^sup>*\<^sup>* s (id s)" by simp
  show ?thesis
    using subscription_runs [OF reach, where others = "\<lambda>_. id" and n = 0 and rounds = "\<lambda>_. BusPoll (\<lambda>_. True) True" and is_set = "\<lambda>_. True"
        and wait = "\<lambda>_. WaitTimeout" and sub = toy_sub and batch = 10] u h quiet
    by (simp add: toy_event_of)
qed

text \<open>
  A subscription of the Redis bus keeps its invariant through failing reads and whatever entries others
  add: calls are made in stream order, for entries that were read, and once each.  When it returns it
  was stopped, cancelled or ended by an exception, and the exception is always that of an entry that is
  no event: this one stays on the pending list and was never handed over.
\<close>

theorem redis_subscription_runs:
  assumes "redis_ok s" "\<forall>k s. redis_ok s \<longrightarrow> redis_ok (others k s)"
    and "redis_subscribe topic others is_set reads s = Some (s', e)"
  shows "redis_ok s'
    \<and> (e = LoopStopped \<longrightarrow> (\<exists>n. is_set n)) \<and> (e = LoopCancelled \<longrightarrow> (\<exists>n. reads n = ReadCancelled))
    \<and> (e = LoopRaised \<longrightarrow> (\<exists>m \<in> set (rb_stream s'). \<exists>now. redis_event topic now (sm_fields m) = None
        \<and> sm_id m \<in> set (rb_unacked s') \<and> sm_id m \<notin> fst ` set (rb_called s')))"
proof -
  note run = assms(3) [unfolded redis_subscribe_def]
  note round = redis_round_ok [OF assms(2)]
  have reach: "redis_ok s'" using run assms(1) by (rule stop_loop_invariant) (rule round)
  from run show ?thesis
  proof (cases rule: stop_loop_exits)
    case (3 n)
    let ?s = "others n (loop_state (redis_round_body topic others reads) n s)"
    have "redis_ok (loop_state (redis_round_body topic others reads) n s)"
      using assms(1) by (rule loop_state_invariant) (rule round)
    then have ok: "redis_ok ?s" using assms(2) by blast
    show ?thesis
    proof (cases "reads n")
      case (ReadBatch now returns acks)
      then have p: "redis_poll topic now returns acks ?s = (s', True)" "e = LoopRaised"
        using 3(3) by (auto simp: redis_round_body_def split: prod.splits if_splits)
      moreover have "rb_stream s' = rb_stream ?s"
        using p(1) redis_deliver_keeps(1) by (metis fst_conv redis_poll_stream)
      ultimately show ?thesis using redis_poll_raises [OF ok, of topic now returns acks] reach by fastforce
    qed (use 3(3) reach in \<open>auto simp: redis_round_body_def\<close>)
  qed (use reach in auto)
qed

lemma redis_subscription_runs_witness:
  "\<exists>s'. redis_subscribe (py ''t'') (\<lambda>k s. if s = redis_init then redis_add 1 [] s else s) (\<lambda>_. False)
      (\<lambda>_. ReadBatch 0 (\<lambda>_. True) (\<lambda>_. True)) redis_init = Some (s', LoopRaised)
    \<and> 1 \<in> set (rb_unacked s') \<and> redis_ok s'"
proof -
  let ?run = "redis_subscribe (py ''t'') (\<lambda>k s. if s = redis_init then redis_add 1 [] s else s) (\<lambda>_. False)
      (\<lambda>_. ReadBatch 0 (\<lambda>_. True) (\<lambda>_. True)) redis_init"
  have keep: "\<forall>k s. redis_ok s \<longrightarrow> redis_ok (if s = redis_init then redis_add 1 [] s else s)" for k :: nat
    by (auto simp: redis_init_def intro: redis_ok_publish)
  have "redis_event (py ''t'') 0 [] = None" by (simp add: redis_event_def field_of_def decode_field_def)
  then have "?run = Some (\<lparr>rb_stream = [\<lparr>sm_id = 1, sm_fields = []\<rparr>], rb_given = 1, rb_unacked = [1], rb_called = []\<rparr>, LoopRaised)"
    unfolding redis_subscribe_def
    by (subst stop_loop.simps) (simp add: redis_round_body_def redis_poll_def redis_add_def redis_init_def READ_COUNT_def)
  with redis_subscription_runs [OF redis_ok_reach [OF rtranclp.rtrancl_refl] _ this] keep show ?thesis by auto
qed

text \<open>
  The scheduler's loop returns exactly when some round finds the event set, is cancelled in its wait,
  or reconciles with an exception, which is the only way it ends by itself; its result is that of
  one reconcile per round before (and the one that raised), and scheduler and backend are in step
  whenever they were at the start.
\<close>

theorem scheduler_loop_ends:
  "sched_run_loop E is_set wait fetched s =
    (if \<exists>n. tick_ends E is_set wait fetched s n
     then Some (tick_exit E is_set wait fetched s (LEAST n. tick_ends E is_set wait fetched s n)) else None)
   \<and> (backend_ok E live \<and> in_sync E live s \<longrightarrow> in_sync E live (fst (tick_exit E is_set wait fetched s n)))"
proof (intro conjI impI)
  show "sched_run_loop E is_set wait fetched s =
    (if \<exists>n. tick_ends E is_set wait fetched s n
     then Some (tick_exit E is_set wait fetched s (LEAST n. tick_ends E is_set wait fetched s n)) else None)"
    unfolding sched_run_loop_def by (rule stop_loop_least) (rule tick_round)
  assume "backend_ok E live \<and> in_sync E live s"
  then show "in_sync E live (fst (tick_exit E is_set wait fetched s n))"
    using in_sync_ticked [of E live s fetched] unfolding tick_exit_def by (auto simp del: ticked.simps)
qed

lemma scheduler_loop_ends_witness:
  "sched_run_loop toy_env (\<lambda>_. True) (\<lambda>_. WaitTimeout) (\<lambda>_. None) (sched_init []) = Some (sched_init [], LoopStopped)
   \<and> in_sync toy_env toy_live (sched_init [])"
proof -
  let ?ends = "tick_ends toy_env (\<lambda>_. True) (\<lambda>_. WaitTimeout) (\<lambda>_. None) (sched_init [])"
  have l: "(LEAST n. ?ends n) = 0" by (rule Least_equality) (simp_all add: tick_ends_def)
  have x: "tick_exit toy_env (\<lambda>_. True) (\<lambda>_. WaitTimeout) (\<lambda>_. None) (sched_init []) 0 = (sched_init [], LoopStopped)"
    by (simp add: tick_exit_def)
  have "in_sync toy_env toy_live (sched_init [])" by (rule in_sync_init) (auto simp: toy_live_def fun_eq_iff)
  then show ?thesis
    using scheduler_loop_ends [of toy_env "\<lambda>_. True" "\<lambda>_. WaitTimeout" "\<lambda>_. None" "sched_init []" toy_live 0] toy_backend_ok
    by (simp add: l x tick_ends_def)
qed

end
