(* ===== verification/Providers.thy ===== *)
theory Providers
  imports Envelope
begin

text \<open>
  \<open>omkit/provider/base.py\<close>: the two contracts a provider emits, a document and a metric, as pydantic
  builds them from a mapping.  The coercions of pydantic are those of \<open>Envelope\<close>; \<open>float()\<close> is the
  record \<open>py_float\<close>.  (The check of provider classes is in \<open>Services\<close>.)
\<close>

section \<open>Documents\<close>

record provider_document =
  doc_source :: pystr
  doc_source_id :: pystr
  doc_title :: pystr
  doc_content :: pystr
  doc_doc_type :: "pystr option"
  doc_doc_date :: "pystr option"
  doc_meta :: "(pystr \<times> json) list"

definition str_field :: "pydantic \<Rightarrow> (pystr \<times> json) list \<Rightarrow> string \<Rightarrow> pystr option" where
  "str_field P obj name = Option.bind (dget obj (py name)) (to_str P)"

text \<open>A field \<open>str | None\<close> with the default None: the outer None is a validation error.\<close>

definition optional_field :: "pydantic \<Rightarrow> (pystr \<times> json) list \<Rightarrow> string \<Rightarrow> pystr option option" where
  "optional_field P obj name =
     (case dget obj (py name) of
        None \<Rightarrow> Some None
      | Some JNull \<Rightarrow> Some None
      | Some v \<Rightarrow> map_option Some (to_str P v))"

definition meta_field :: "pydantic \<Rightarrow> (pystr \<times> json) list \<Rightarrow> (pystr \<times> json) list option" where
  "meta_field P obj = (case dget obj (py ''meta'') of None \<Rightarrow> Some [] | Some v \<Rightarrow> to_dict P v)"

text \<open>Unknown keys are ignored; None is the \<open>ValidationError\<close>.\<close>

definition document_new :: "pydantic \<Rightarrow> (pystr \<times> json) list \<Rightarrow> provider_document option" where
  "document_new P obj =
     (case (str_field P obj ''source'', str_field P obj ''source_id'', str_field P obj ''title'', str_field P obj ''content'') of
        (Some s, Some i, Some t, Some c) \<Rightarrow>
          (case (optional_field P obj ''doc_type'', optional_field P obj ''doc_date'', meta_field P obj) of
             (Some ty, Some d, Some m) \<Rightarrow>
               Some \<lparr>doc_source = s, doc_source_id = i, doc_title = t, doc_content = c, doc_doc_type = ty, doc_doc_date = d, doc_meta = m\<rparr>
           | _ \<Rightarrow> None)
      | _ \<Rightarrow> None)"

section \<open>Metrics\<close>

text \<open>\<open>float()\<close> of an integer (None when it is too large), of a JSON number and of a text (None when it is no number).\<close>

record 'f py_float =
  float_int :: "int \<Rightarrow> 'f option"
  float_number :: "pystr \<Rightarrow> 'f"
  float_text :: "pystr \<Rightarrow> 'f option"

datatype float_error = FloatValueError | FloatTypeError | FloatOverflowError

definition coerce_value :: "'f py_float \<Rightarrow> json \<Rightarrow> float_error + 'f" where
  "coerce_value F v =
     (case v of
        JInt n \<Rightarrow> (case float_int F n of None \<Rightarrow> Inl FloatOverflowError | Some f \<Rightarrow> Inr f)
      | JBool b \<Rightarrow> (case float_int F (if b then 1 else 0) of None \<Rightarrow> Inl FloatOverflowError | Some f \<Rightarrow> Inr f)
      | JFloat lit \<Rightarrow> Inr (float_number F lit)
      | JStr s \<Rightarrow> (case float_text F s of None \<Rightarrow> Inl FloatValueError | Some f \<Rightarrow> Inr f)
      | _ \<Rightarrow> Inl FloatTypeError)"

record 'f provider_metric =
  met_source :: pystr
  met_metric :: pystr
  met_value :: 'f
  met_unit :: pystr
  met_ts :: int
  met_tenant_id :: pystr
  met_meta :: "(pystr \<times> json) list"

text \<open>
  Of what a validator raises pydantic turns a \<open>ValueError\<close> into its \<open>ValidationError\<close>; a \<open>TypeError\<close> or
  an \<open>OverflowError\<close> leaves the constructor as it is, whatever the other fields are.
\<close>

datatype metric_error = MetricValidationError | MetricTypeError | MetricOverflowError

definition metric_new :: "pydantic \<Rightarrow> 'f py_float \<Rightarrow> (pystr \<times> json) list \<Rightarrow> metric_error + 'f provider_metric" where
  "metric_new P F obj =
     (case map_option (coerce_value F) (dget obj (py ''value'')) of
        Some (Inl FloatTypeError) \<Rightarrow> Inl MetricTypeError
      | Some (Inl FloatOverflowError) \<Rightarrow> Inl MetricOverflowError
      | Some (Inr f) \<Rightarrow>
          (case (str_field P obj ''source'', str_field P obj ''metric'', str_field P obj ''unit'', str_field P obj ''tenant_id'') of
             (Some s, Some m, Some u, Some t) \<Rightarrow>
               (case (Option.bind (dget obj (py ''ts'')) (to_int P), meta_field P obj) of
                  (Some ts, Some meta) \<Rightarrow>
                    Inr \<lparr>met_source = s, met_metric = m, met_value = f, met_unit = u, met_ts = ts, met_tenant_id = t, met_meta = meta\<rparr>
                | _ \<Rightarrow> Inl MetricValidationError)
           | _ \<Rightarrow> Inl MetricValidationError)
      | _ \<Rightarrow> Inl MetricValidationError)"

section \<open>Instances\<close>

record provider_instance =
  prv_tenant_id :: pystr
  prv_config :: "(pystr \<times> json) list"

definition provider_init :: "pystr \<Rightarrow> (pystr \<times> json) list \<Rightarrow> provider_instance" where
  "provider_init tenant_id config = \<lparr>prv_tenant_id = tenant_id, prv_config = config\<rparr>"

section \<open>Properties\<close>

text \<open>
  What a metric's constructor does with its value: it raises a \<open>TypeError\<close> exactly for null, an array
  or an object, whatever the other fields hold; a metric it returns carries the coerced value; and
  a text that is no number is a validation error, as is a missing value.
\<close>

theorem metric_value_errors:
  assumes "pydantic_ok P"
  shows "(metric_new P F obj = Inl MetricTypeError \<longleftrightarrow>
        (\<exists>v. dget obj (py ''value'') = Some v \<and> (v = JNull \<or> (\<exists>xs. v = JArr xs) \<or> (\<exists>kvs. v = JObj kvs))))
    \<and> (metric_new P F obj = Inr m \<longrightarrow>
        (\<exists>v. dget obj (py ''value'') = Some v \<and> coerce_value F v = Inr (met_value m))
        \<and> dget obj (py ''tenant_id'') = Some (JStr (met_tenant_id m)) \<and> dget obj (py ''source'') = Some (JStr (met_source m)))
    \<and> (dget obj (py ''value'') = None \<or> (\<exists>s. dget obj (py ''value'') = Some (JStr s) \<and> float_text F s = None) \<longrightarrow>
        metric_new P F obj = Inl MetricValidationError)"
proof -
  have str: "str_field P obj n = Some s \<Longrightarrow> dget obj (py n) = Some (JStr s)" for n s
    using pydantic_okD(3) [OF assms] by (auto simp: str_field_def bind_eq_Some_conv)
  show ?thesis
  proof (cases "dget obj (py ''value'')")
    case None
    then show ?thesis by (simp add: metric_new_def)
  next
    case (Some v)
    then show ?thesis
      by (cases v) (auto simp: metric_new_def coerce_value_def split: option.splits dest: str)
  qed
qed

definition int_float :: "int py_float" where
  "int_float = \<lparr>float_int = Some, float_number = (\<lambda>_. 0), float_text = (\<lambda>_. None)\<rparr>"

lemma metric_value_errors_witness:
  "metric_new strict_pydantic int_float [(py ''value'', JNull)] = Inl MetricTypeError"
  using metric_value_errors [OF strict_pydantic_ok, of int_float "[(py ''value'', JNull)]"] by simp

end
