(* ===== verification/Golden.thy ===== *)
theory Golden
  imports Encryption Envelope JsonIndent
begin

text \<open>
  \<open>scripts/regen_golden.py\<close>: the script that writes the fixtures which this SDK and the Go SDK both
  read in their tests.  The file system is the dictionary of the files' texts (that a directory cannot be made
  or a file not be written is left out), and the nonces the encryption draws are a function of their number.
\<close>

section \<open>The cases\<close>

datatype golden_error = WrapRaised envelope_error | EncryptRaised crypto_error | NotUtf8

text \<open>A loop that appends one result per element and is left by the first exception.\<close>

fun map_res :: "('a \<Rightarrow> 'e + 'b) \<Rightarrow> 'a list \<Rightarrow> 'e + 'b list" where
  "map_res f [] = Inr []"
| "map_res f (x # xs) = res_bind (f x) (\<lambda>y. res_bind (map_res f xs) (\<lambda>ys. Inr (y # ys)))"

definition envelope_cases :: "(pystr \<times> pystr \<times> pystr \<times> (pystr \<times> json) list) list" where
  "envelope_cases =
     [(py ''v1_no_request_id'', py ''11111111-1111-1111-1111-111111111111'', [], [(py ''doc_id'', JStr (py ''abc''))]),
      (py ''v1_with_request_id'', py ''22222222-2222-2222-2222-222222222222'', py ''req-abc-123'',
        [(py ''task'', JStr (py ''summarize''))])]"

definition envelope_case :: "pydantic \<Rightarrow> pystr \<times> pystr \<times> pystr \<times> (pystr \<times> json) list \<Rightarrow> golden_error + json" where
  "envelope_case P c =
     (case c of (name, tenant_id, rid, payload) \<Rightarrow>
       (case wrap P tenant_id payload rid of
          Inl e \<Rightarrow> Inl (WrapRaised e)
        | Inr raw \<Rightarrow>
            (case utf8_decode False raw of
               None \<Rightarrow> Inl NotUtf8
             | Some text \<Rightarrow> Inr (JObj [(py ''name'', JStr name), (py ''tenant_id'', JStr tenant_id),
                 (py ''request_id'', JStr rid), (py ''payload'', JObj payload), (py ''expected_json'', JStr text)]))))"

definition build_envelope_cases :: "pydantic \<Rightarrow> golden_error + json list" where
  "build_envelope_cases P = map_res (envelope_case P) envelope_cases"

text \<open>One token record; \<open>extra\<close> are the fields after the token.\<close>

definition token_case ::
    "aesgcm \<Rightarrow> (pystr \<times> json) list \<Rightarrow> bytes \<times> pystr \<times> pystr \<times> pystr \<Rightarrow> golden_error + json" where
  "token_case G extra c =
     (case c of (nonce, name, key, plain) \<Rightarrow>
       (case encrypt_value G nonce plain key of
          Inl e \<Rightarrow> Inl (EncryptRaised e)
        | Inr token \<Rightarrow> Inr (JObj ([(py ''name'', JStr name), (py ''key_b64'', JStr key), (py ''plaintext'', JStr plain),
            (py ''token'', JStr token)] @ extra))))"

definition encryption_cases :: "(nat \<Rightarrow> bytes) \<Rightarrow> (bytes \<times> pystr \<times> pystr \<times> pystr) list" where
  "encryption_cases nonces =
     (let keys = [b64_encode True (replicate 32 66), b64_encode True (replicate 32 66)];
          plaintexts = [py ''sk-prod-secret-token-v1'', []];
          names = [py ''v1_short_plaintext'', py ''v1_empty_plaintext'']
      in zip (map nonces [0..<2]) (zip names (zip keys plaintexts)))"

definition build_encryption_cases :: "aesgcm \<Rightarrow> (nat \<Rightarrow> bytes) \<Rightarrow> golden_error + json list" where
  "build_encryption_cases G nonces = map_res (token_case G []) (encryption_cases nonces)"

definition settings_entries :: "(pystr \<times> pystr) list" where
  "settings_entries =
     [(py ''anthropic_api_key'', py ''sk-ant-REDACTED''),
      (py ''openai_api_key'', py ''sk-proj-YYYYYYYYYYYYYYYYYYYYYYYYYYYYYYYYYYY''),
      (py ''openrouter_api_key'', py ''sk-or-v1-ZZZZZZZZZZZZZZZZZZZZZZZZZZZZZZZZZ'')]"

definition settings_cases :: "(nat \<Rightarrow> bytes) \<Rightarrow> (bytes \<times> pystr \<times> pystr \<times> pystr) list" where
  "settings_cases nonces =
     map (\<lambda>(i, name, plain). (nonces i, name, b64_encode True (replicate 32 (of_nat (32 + i))), plain)) (enumerate 0 settings_entries)"

definition build_settings_cases :: "aesgcm \<Rightarrow> (nat \<Rightarrow> bytes) \<Rightarrow> golden_error + json list" where
  "build_settings_cases G nonces =
     map_res (token_case G [(py ''produced_by'', JStr (py ''py''))]) (settings_cases nonces)"

section \<open>Writing the files\<close>

definition golden_file :: "pystr \<Rightarrow> string \<Rightarrow> pystr" where
  "golden_file root name = root @ py ''/tests/golden/'' @ py name"

definition write_json :: "pystr \<Rightarrow> json \<Rightarrow> (pystr, pystr) dict \<Rightarrow> (pystr, pystr) dict" where
  "write_json path data files = dset path (dumps_indent True 0 data @ [10]) files"

text \<open>The files afterwards, and what was raised.\<close>

definition regen_main ::
    "aesgcm \<Rightarrow> pydantic \<Rightarrow> (nat \<Rightarrow> bytes) \<Rightarrow> pystr \<Rightarrow> (pystr, pystr) dict \<Rightarrow> (pystr, pystr) dict \<times> golden_error option" where
  "regen_main G P nonces root files =
     (case build_envelope_cases P of
        Inl e \<Rightarrow> (files, Some e)
      | Inr envelopes \<Rightarrow>
          let files1 = write_json (golden_file root ''envelope_v1.json'') (JArr envelopes) files
          in (case build_encryption_cases G nonces of
                Inl e \<Rightarrow> (files1, Some e)
              | Inr tokens \<Rightarrow>
                  let files2 = write_json (golden_file root ''encryption_v1.json'') (JArr tokens) files1
                  in (case build_settings_cases G (\<lambda>i. nonces (2 + i)) of
                        Inl e \<Rightarrow> (files2, Some e)
                      | Inr settings \<Rightarrow> (write_json (golden_file root ''settings_v1.json'') (JArr settings) files2, None))))"

section \<open>Lemmas\<close>

lemma map_res_ok: "\<forall>x \<in> set xs. \<exists>y. f x = Inr y \<Longrightarrow> \<exists>ys. map_res f xs = Inr ys \<and> list_all2 (\<lambda>x y. f x = Inr y) xs ys"
  by (induction xs) auto

text \<open>What a reader of a token file checks of one record.\<close>

definition token_decrypts :: "aesgcm \<Rightarrow> json \<Rightarrow> bool" where
  "token_decrypts G r =
     (case r of
        JObj kvs \<Rightarrow>
          (case (dget kvs (py ''key_b64''), dget kvs (py ''plaintext''), dget kvs (py ''token'')) of
             (Some (JStr key), Some (JStr plain), Some (JStr token)) \<Rightarrow> decrypt_value G token key = Inr plain
           | _ \<Rightarrow> False)
      | _ \<Rightarrow> False)"

lemma token_case_ok:
  assumes "aead_ok G" "length nonce = 12" "length raw = 32" "list_all valid_cp plain" "list_all valid_cp name"
    and "extra = [] \<or> extra = [(py ''produced_by'', JStr (py ''py''))]"
  shows "\<exists>r. token_case G extra (nonce, name, b64_encode True raw, plain) = Inr r \<and> token_decrypts G r \<and> jwf r"
proof -
  have key: "decode_key (b64_encode True raw) = Inr raw" using decode_generated [OF assms(3)] by (simp add: generate_key_def)
  obtain pt where pt: "utf8_encode plain = Some pt" using utf8_encode_Some [OF assms(4)] by blast
  note enc = encrypt_value_token [OF key pt, of G nonce] and dec = decrypt_value_token [OF assms(1,2) key pt]
  have ascii: "list_all valid_cp s" if "list_all (\<lambda>c. c < 128) s" for s
    using that by (auto simp: list_all_iff valid_cp_def surrogate_def)
  show ?thesis
    using enc dec ascii [OF b64_encode_ascii] assms(4-6)
    by (auto simp: token_case_def token_decrypts_def)
qed


lemma token_cases_ok:
  assumes "aead_ok G" "extra = [] \<or> extra = [(py ''produced_by'', JStr (py ''py''))]"
    and "\<forall>(nonce, name, key, plain) \<in> set cs. length nonce = 12 \<and> list_all valid_cp name \<and> list_all valid_cp plain
      \<and> (\<exists>raw. length raw = 32 \<and> key = b64_encode True raw)"
  shows "\<exists>rs. map_res (token_case G extra) cs = Inr rs \<and> length rs = length cs \<and> (\<forall>r \<in> set rs. token_decrypts G r \<and> jwf r)"
  using assms(3)
proof (induction cs)
  case (Cons c cs)
  obtain nonce name key plain where c: "c = (nonce, name, key, plain)" by (cases c)
  with Cons.prems obtain raw where "length nonce = 12" "length raw = 32" "key = b64_encode True raw"
    "list_all valid_cp plain" "list_all valid_cp name" by auto
  with token_case_ok [OF assms(1) this(1,2,4,5) assms(2)] obtain r where
    r: "token_case G extra c = Inr r" "token_decrypts G r" "jwf r" unfolding c by blast
  moreover have "\<forall>(nonce, name, key, plain) \<in> set cs. length nonce = 12 \<and> list_all valid_cp name \<and> list_all valid_cp plain
      \<and> (\<exists>raw. length raw = 32 \<and> key = b64_encode True raw)" using Cons.prems by simp
  then obtain rs where "map_res (token_case G extra) cs = Inr rs" "length rs = length cs"
    "\<forall>r \<in> set rs. token_decrypts G r \<and> jwf r" using Cons.IH by blast
  ultimately show ?case by auto
qed simp

lemma encryption_cases_ok:
  "aead_ok G \<Longrightarrow> \<forall>i. length (nonces i) = 12 \<Longrightarrow>
    \<exists>rs. build_encryption_cases G nonces = Inr rs \<and> length rs = 2 \<and> (\<forall>r \<in> set rs. token_decrypts G r \<and> jwf r)"
  using token_cases_ok [of G "[]" "encryption_cases nonces"] unfolding build_encryption_cases_def
  by (fastforce simp: encryption_cases_def upt_rec numeral_2_eq_2)

lemma settings_cases_ok:
  "aead_ok G \<Longrightarrow> \<forall>i. length (nonces i) = 12 \<Longrightarrow>
    \<exists>rs. build_settings_cases G nonces = Inr rs \<and> length rs = 3 \<and> (\<forall>r \<in> set rs. token_decrypts G r \<and> jwf r)"
  using token_cases_ok [of G "[(py ''produced_by'', JStr (py ''py''))]" "settings_cases nonces"] unfolding build_settings_cases_def
  by (fastforce simp: settings_cases_def settings_entries_def)

text \<open>A file of records reads back.\<close>

lemma golden_reads:
  "\<forall>r \<in> set rs. jwf r \<Longrightarrow> loads (dumps_indent True 0 (JArr rs) @ [10]) = Some (JArr rs)"
  by (rule loads_dumps_indent_ws) (simp_all add: jwf_elems_iff json_ws_def delim_def)

text \<open>A tenant id whose digits are all the same.\<close>

lemma same_digit_uuid:
  assumes "0 < d" "d < 10"
  shows "valid_uuid (replicate 8 (48 + d) @ 45 # replicate 4 (48 + d) @ 45 # replicate 4 (48 + d) @ 45 # replicate 4 (48 + d) @ 45 # replicate 12 (48 + d))"
proof -
  let ?n = "of_hex (replicate 32 d)"
  have l: "list_all (\<lambda>d. d < 16) (replicate 32 d)" using assms(2) by (simp add: list_all_iff)
  have "hex_width 32 ?n = replicate 32 (48 + d)" using hex_width_of_hex [OF l] assms(2) by (simp add: hexchar_def)
  then have "uuid_text ?n = replicate 8 (48 + d) @ 45 # replicate 4 (48 + d) @ 45 # replicate 4 (48 + d) @ 45 # replicate 4 (48 + d) @ 45 # replicate 12 (48 + d)"
    by (simp add: uuid_text_def replicate_numeral)
  moreover have "valid_uuid (uuid_text ?n)" using of_hex_less [OF l] by (intro uuid_text_valid) simp
  ultimately show ?thesis by simp
qed

lemma golden_tenants:
  "valid_uuid (py ''11111111-1111-1111-1111-111111111111'')" "valid_uuid (py ''22222222-2222-2222-2222-222222222222'')"
  using same_digit_uuid [of 1] same_digit_uuid [of 2] by (simp_all add: py_def replicate_numeral)


lemma envelope_case_ok:
  assumes "pydantic_ok P" "valid_uuid (py t)" "list_all valid_cp rid" "payload \<noteq> []" "jwf (JObj payload)"
  shows "envelope_case P (name, py t, rid, payload) = Inr (JObj [(py ''name'', JStr name), (py ''tenant_id'', JStr (py t)),
     (py ''request_id'', JStr rid), (py ''payload'', JObj payload),
     (py ''expected_json'', JStr (dumps_compact (JObj (wrap_obj (py t) payload rid))))])"
proof -
  have "jwf (JObj (wrap_obj (py t) payload rid))" using wrap_obj_jwf assms valid_cp_py by blast
  then show ?thesis
    using wrap_args_valid [OF assms(1,2) valid_cp_py assms(3-5)] utf8_decode_encode [OF dumps_encode]
    by (simp add: envelope_case_def)
qed

lemma wire_texts:
  "dumps_compact (JObj (wrap_obj (py ''11111111-1111-1111-1111-111111111111'') [(py ''doc_id'', JStr (py ''abc''))] [])) =
    py ''{\"version\":1,\"tenant_id\":\"11111111-1111-1111-1111-111111111111\",\"payload\":{\"doc_id\":\"abc\"}}''"
  "dumps_compact (JObj (wrap_obj (py ''22222222-2222-2222-2222-222222222222'') [(py ''task'', JStr (py ''summarize''))] (py ''req-abc-123''))) =
    py ''{\"version\":1,\"tenant_id\":\"22222222-2222-2222-2222-222222222222\",\"request_id\":\"req-abc-123\",\"payload\":{\"task\":\"summarize\"}}''"
  by (simp_all add: dumps_compact_def wrap_obj_def ENVELOPE_VERSION_def str_int_def nat_digits.simps esc_plain plain_text_def)
    (simp_all add: py_def)

text \<open>A text given by its lines.\<close>

definition text_lines :: "pystr list \<Rightarrow> pystr" where
  "text_lines ls = concat (map (\<lambda>l. l @ [10]) ls)"

definition golden_envelope_text :: pystr where
  "golden_envelope_text = text_lines
     [py ''['',
      py ''  {'',
      py ''    \"name\": \"v1_no_request_id\",'',
      py ''    \"tenant_id\": \"11111111-1111-1111-1111-111111111111\",'',
      py ''    \"request_id\": \"\",'',
      py ''    \"payload\": {'',
      py ''      \"doc_id\": \"abc\"'',
      py ''    },'',
      py ''    \"expected_json\": '' @ esc_str (py ''{\"version\":1,\"tenant_id\":\"11111111-1111-1111-1111-111111111111\",\"payload\":{\"doc_id\":\"abc\"}}''),
      py ''  },'',
      py ''  {'',
      py ''    \"name\": \"v1_with_request_id\",'',
      py ''    \"tenant_id\": \"22222222-2222-2222-2222-222222222222\",'',
      py ''    \"request_id\": \"req-abc-123\",'',
      py ''    \"payload\": {'',
      py ''      \"task\": \"summarize\"'',
      py ''    },'',
      py ''    \"expected_json\": '' @ esc_str (py ''{\"version\":1,\"tenant_id\":\"22222222-2222-2222-2222-222222222222\",\"request_id\":\"req-abc-123\",\"payload\":{\"task\":\"summarize\"}}''),
      py ''  }'',
      py '']'']"

lemma esc_ind_ascii [simp]: "esc_ind_str True s = esc_str s"
proof -
  have "esc_ind True = esc_char" by (simp add: fun_eq_iff esc_ind_def)
  then show ?thesis by (simp add: esc_ind_str_def esc_str_def)
qed

lemma newline_simps: "newline 0 = [10]" "newline 1 = [10, 32, 32]" "newline (Suc 0) = [10, 32, 32]"
  "newline (Suc (Suc 0)) = [10, 32, 32, 32, 32]" "newline (Suc (Suc (Suc 0))) = [10, 32, 32, 32, 32, 32, 32]"
  by (simp_all add: newline_def replicate_numeral)

lemma esc_plain_str: "plain_text s \<Longrightarrow> esc_str (py s) = 34 # py s @ [34]"
  using esc_plain by blast

lemma golden_envelope_text_eq:
  assumes "pydantic_ok P"
  shows "\<exists>rs. build_envelope_cases P = Inr rs \<and> dumps_indent True 0 (JArr rs) @ [10] = golden_envelope_text"
proof -
  note cases = envelope_case_ok [OF assms golden_tenants(1), of "[]" "[(py ''doc_id'', JStr (py ''abc''))]"]
    envelope_case_ok [OF assms golden_tenants(2), of "py ''req-abc-123''" "[(py ''task'', JStr (py ''summarize''))]"]
  have e: "esc_str [] = py ''\"\"''" by (simp add: esc_str_def py_def)
  show ?thesis
    by (simp add: build_envelope_cases_def envelope_cases_def cases wire_texts golden_envelope_text_def text_lines_def newline_simps
        esc_plain_str plain_text_def e)
      (simp add: py_def)
qed


section \<open>Properties\<close>

text \<open>
  The fixtures hold what the tests of both SDKs read them for: a run writes the three files without
  raising, whatever nonces are drawn; the envelope file is, to the character, the file that is
  committed; every record of the two token files reads back and its token decrypts to its plaintext
  under its key; and no other file is touched.
\<close>

theorem golden_files_hold:
  fixes root :: pystr and files :: "(pystr, pystr) dict"
  assumes "aead_ok G" "pydantic_ok P" "\<forall>i. length (nonces i) = 12"
  defines "files' \<equiv> fst (regen_main G P nonces root files)"
  shows "snd (regen_main G P nonces root files) = None
    \<and> dget files' (golden_file root ''envelope_v1.json'') = Some golden_envelope_text
    \<and> (\<exists>rs. Option.bind (dget files' (golden_file root ''encryption_v1.json'')) loads = Some (JArr rs) \<and> length rs = 2
          \<and> list_all (token_decrypts G) rs)
    \<and> (\<exists>rs. Option.bind (dget files' (golden_file root ''settings_v1.json'')) loads = Some (JArr rs) \<and> length rs = 3
          \<and> list_all (token_decrypts G) rs)
    \<and> (\<forall>path. path \<notin> golden_file root ` {''envelope_v1.json'', ''encryption_v1.json'', ''settings_v1.json''} \<longrightarrow>
          dget files' path = dget files path)"
proof -
  obtain es where es: "build_envelope_cases P = Inr es" "dumps_indent True 0 (JArr es) @ [10] = golden_envelope_text"
    using golden_envelope_text_eq [OF assms(2)] by blast
  obtain ts where ts: "build_encryption_cases G nonces = Inr ts" "length ts = 2" "\<forall>r \<in> set ts. token_decrypts G r \<and> jwf r"
    using encryption_cases_ok [OF assms(1,3)] by blast
  obtain ss where ss: "build_settings_cases G (\<lambda>i. nonces (2 + i)) = Inr ss" "length ss = 3" "\<forall>r \<in> set ss. token_decrypts G r \<and> jwf r"
    using settings_cases_ok [OF assms(1), of "\<lambda>i. nonces (2 + i)"] assms(3) by auto
  have run: "regen_main G P nonces root files = (write_json (golden_file root ''settings_v1.json'') (JArr ss)
      (write_json (golden_file root ''encryption_v1.json'') (JArr ts)
        (write_json (golden_file root ''envelope_v1.json'') (JArr es) files)), None)"
    by (simp only: regen_main_def es(1) ts(1) ss(1) sum.case Let_def)
  have "loads (dumps_indent True 0 (JArr ts) @ [10]) = Some (JArr ts)" "loads (dumps_indent True 0 (JArr ss) @ [10]) = Some (JArr ss)"
    using golden_reads ts(3) ss(3) by blast+
  then show ?thesis
    using es(2) ts(2,3) ss(2,3)
    by (simp add: files'_def run write_json_def golden_file_def list_all_iff del: dumps_indent.simps)
qed

lemma golden_files_hold_witness:
  "dget (fst (regen_main toy_cipher strict_pydantic (\<lambda>i. replicate 12 (of_nat i)) (py ''/omkit'') [])) (py ''/omkit/tests/golden/envelope_v1.json'')
    = Some golden_envelope_text"
  using golden_files_hold [OF toy_cipher_ok strict_pydantic_ok, of "\<lambda>i. replicate 12 (of_nat i)" "py ''/omkit''" "[]"]
  by (simp add: golden_file_def flip: py_append)

end
