(* ===== verification/RowSecurity.thy ===== *)
theory RowSecurity
  imports Tenant Database Sessions
begin

text \<open>
  Row-level security over the life of a pooled connection: the role that \<open>omkit/dbpool.py\<close> sets when
  it opens one, the tenant that \<open>omkit/tenant.py\<close> sets inside a transaction, the role switch of the event
  bus (\<open>_as_bus_role\<close> in \<open>omkit/eventbus.py\<close>), and what the queries of the session store see
  (\<open>omkit/sessions.py\<close>).  Postgres is modelled as far as its documentation says what these statements
  do; which roles bypass row-level security and what the policies of the tables say is in no file of
  the repository: both are parameters.
\<close>

section \<open>A connection\<close>

text \<open>
  \<open>rc_role\<close> is the role of \<open>SET ROLE\<close>, None the user the pool logs in as; \<open>rc_saved\<close> is the role when the
  transaction began, to which a rollback returns.
\<close>

record rls_conn =
  rc_conn :: db_conn
  rc_role :: "pystr option"
  rc_row_security :: bool
  rc_saved :: "pystr option"

text \<open>A new connection of a pool, after its initialiser; \<open>caller\<close> is the role a caller's own one leaves.\<close>

definition open_conn :: "(nat \<Rightarrow> pystr option) \<Rightarrow> pool_call \<Rightarrow> rls_conn" where
  "open_conn caller p =
     \<lparr>rc_conn = pooled_conn,
      rc_role = (case pc_init p of None \<Rightarrow> None | Some (SetRole r) \<Rightarrow> Some r | Some (CallerInit n) \<Rightarrow> caller n),
      rc_row_security = True, rc_saved = None\<rparr>"

definition begin_transaction :: "rls_conn \<Rightarrow> rls_conn" where
  "begin_transaction c = c\<lparr>rc_conn := (rc_conn c)\<lparr>in_transaction := True\<rparr>, rc_saved := rc_role c\<rparr>"

text \<open>Local settings end with the transaction; a role that was set or reset in it stays after a commit.\<close>

definition commit :: "rls_conn \<Rightarrow> rls_conn" where
  "commit c = c\<lparr>rc_conn := pooled_conn, rc_row_security := True\<rparr>"

definition rollback :: "rls_conn \<Rightarrow> rls_conn" where
  "rollback c = c\<lparr>rc_conn := pooled_conn, rc_row_security := True, rc_role := rc_saved c\<rparr>"

text \<open>\<open>RESET ROLE; SET LOCAL row_security = off\<close>; outside a transaction the second has no effect.\<close>

definition as_bus_role :: "rls_conn \<Rightarrow> rls_conn" where
  "as_bus_role c =
     (let c1 = c\<lparr>rc_role := None\<rparr>
      in if in_transaction (rc_conn c1) then c1\<lparr>rc_row_security := False\<rparr> else c1)"

text \<open>A transaction of the bus, which ends by a commit or by the rollback that an exception causes.\<close>

definition bus_transaction :: "bool \<Rightarrow> rls_conn \<Rightarrow> rls_conn" where
  "bus_transaction commits c =
     (let c1 = as_bus_role (begin_transaction c) in if commits then commit c1 else rollback c1)"

text \<open>
  The rows a statement may see.  With \<open>row_security\<close> off a role that does not bypass gets an error (None)
  instead of rows that a policy has filtered.
\<close>

definition rls_rows ::
    "(pystr option \<Rightarrow> bool) \<Rightarrow> (pystr option \<Rightarrow> 'r \<Rightarrow> bool) \<Rightarrow> rls_conn \<Rightarrow> 'r list \<Rightarrow> 'r list option" where
  "rls_rows bypass policy c rows =
     (if bypass (rc_role c) then Some rows
      else if \<not> rc_row_security c then None
      else Some (filter (policy (app_tenant_id (rc_conn c))) rows))"

text \<open>
  The life of a connection in its pool: \<open>reset\<close> is what asyncpg runs when it is given back.  With
  \<open>shared\<close> the event bus uses the pool too.
\<close>

inductive rls_step :: "(rls_conn \<Rightarrow> rls_conn) \<Rightarrow> bool \<Rightarrow> rls_conn \<Rightarrow> rls_conn \<Rightarrow> bool" for reset shared where
  rs_begin: "\<not> in_transaction (rc_conn c) \<Longrightarrow> rls_step reset shared c (begin_transaction c)"
| rs_commit: "in_transaction (rc_conn c) \<Longrightarrow> rls_step reset shared c (commit c)"
| rs_rollback: "in_transaction (rc_conn c) \<Longrightarrow> rls_step reset shared c (rollback c)"
| rs_tenant: "set_rls ctx (rc_conn c) = Inr d \<Longrightarrow> rls_step reset shared c (c\<lparr>rc_conn := d\<rparr>)"
| rs_release: "\<not> in_transaction (rc_conn c) \<Longrightarrow> rls_step reset shared c (reset c)"
| rs_bus: "shared \<Longrightarrow> \<not> in_transaction (rc_conn c) \<Longrightarrow> rls_step reset shared c (bus_transaction commits c)"

text \<open>
  What asyncpg's reset does to these fields: \<open>RESET ALL\<close> gives every setting its default, and leaves the
  role alone.
\<close>

definition resets_settings :: "(rls_conn \<Rightarrow> rls_conn) \<Rightarrow> bool" where
  "resets_settings reset =
     (\<forall>c. rc_role (reset c) = rc_role c \<and> rc_conn (reset c) = rc_conn c \<and> rc_row_security (reset c))"

definition reset_all :: "rls_conn \<Rightarrow> rls_conn" where
  "reset_all c = c\<lparr>rc_row_security := True\<rparr>"

lemma reset_all_ok: "resets_settings reset_all"
  by (simp add: resets_settings_def reset_all_def)

section \<open>The session store under row-level security\<close>

text \<open>
  \<open>get\<close> and the unscoped \<open>delete\<close> run without a tenant, \<open>list\<close> and the scoped \<open>delete\<close> in a transaction that
  sets it; a DELETE removes only rows it sees.  An error of the query is \<open>SessionBroken\<close> or None.
\<close>

definition scoped_conn :: "pystr \<Rightarrow> rls_conn \<Rightarrow> rls_conn" where
  "scoped_conn t c = (let c1 = begin_transaction c in c1\<lparr>rc_conn := (rc_conn c1)\<lparr>app_tenant_id := Some t\<rparr>\<rparr>)"

definition session_get_on ::
    "(pystr option \<Rightarrow> bool) \<Rightarrow> (pystr option \<Rightarrow> session_row \<Rightarrow> bool) \<Rightarrow> rls_conn \<Rightarrow>
      pystr option \<Rightarrow> session_table \<Rightarrow> instant \<Rightarrow> pystr \<Rightarrow> session_error + session" where
  "session_get_on bypass policy c tenant_id tbl now token =
     (case rls_rows bypass policy c tbl of
        None \<Rightarrow> Inl SessionBroken
      | Some rows \<Rightarrow> pg_session_get tenant_id rows now token)"

definition session_delete_on ::
    "pg_types \<Rightarrow> (pystr option \<Rightarrow> bool) \<Rightarrow> (pystr option \<Rightarrow> session_row \<Rightarrow> bool) \<Rightarrow> rls_conn \<Rightarrow>
      pystr option \<Rightarrow> pystr \<Rightarrow> session_table \<Rightarrow> session_table option" where
  "session_delete_on T bypass policy c tenant_id token tbl =
     (case tenant_id of
        None \<Rightarrow> map_option (\<lambda>rows. filter (\<lambda>r. \<not> (r \<in> set rows \<and> sr_token r = token)) tbl) (rls_rows bypass policy c tbl)
      | Some t \<Rightarrow>
          (case (pg_uuid T t, rls_rows bypass policy (scoped_conn t c) tbl) of
             (Some u, Some rows) \<Rightarrow> Some (filter (\<lambda>r. \<not> (r \<in> set rows \<and> sr_token r = token \<and> sr_tenant r = u)) tbl)
           | _ \<Rightarrow> None))"

definition session_list_on ::
    "pg_types \<Rightarrow> (pystr option \<Rightarrow> bool) \<Rightarrow> (pystr option \<Rightarrow> session_row \<Rightarrow> bool) \<Rightarrow> rls_conn \<Rightarrow>
      session_table \<Rightarrow> instant \<Rightarrow> pystr \<Rightarrow> session_error + session list" where
  "session_list_on T bypass policy c tbl now tenant_id =
     (case rls_rows bypass policy (scoped_conn tenant_id c) tbl of
        None \<Rightarrow> Inl SessionBroken
      | Some rows \<Rightarrow> pg_session_list T rows now tenant_id)"

section \<open>Lemmas\<close>

lemma rls_rows_restricted:
  "\<not> bypass (rc_role c) \<Longrightarrow> rc_row_security c \<Longrightarrow>
    rls_rows bypass policy c rows = Some (filter (policy (app_tenant_id (rc_conn c))) rows)"
  by (simp add: rls_rows_def)

lemma rls_rows_bypass: "bypass (rc_role c) \<Longrightarrow> rls_rows bypass policy c rows = Some rows"
  by (simp add: rls_rows_def)

lemma scoped_fields [simp]:
  "rc_role (scoped_conn t c) = rc_role c" "rc_row_security (scoped_conn t c) = rc_row_security c"
  "app_tenant_id (rc_conn (scoped_conn t c)) = Some t"
  by (simp_all add: scoped_conn_def begin_transaction_def Let_def)

text \<open>A connection that no bus transaction touches keeps its role, and carries a tenant only in a transaction.\<close>

definition held :: "pystr option \<Rightarrow> rls_conn \<Rightarrow> bool" where
  "held role c = (rc_role c = role \<and> rc_row_security c
     \<and> (in_transaction (rc_conn c) \<longrightarrow> rc_saved c = role)
     \<and> (\<not> in_transaction (rc_conn c) \<longrightarrow> app_tenant_id (rc_conn c) = None))"

lemma held_open: "rc_role (open_conn caller p) = role \<Longrightarrow> held role (open_conn caller p)"
  by (simp add: held_def open_conn_def pooled_conn_def)

lemma set_rls_tenant:
  "set_rls ctx d = Inr d' \<Longrightarrow> in_transaction d \<and> in_transaction d' \<and> app_tenant_id d' = ctx_tenant ctx \<and> ctx_tenant ctx \<noteq> None"
  by (auto simp: set_rls_def res_bind_Inr_iff require_def split: if_splits option.splits)

lemma held_step:
  assumes "rls_step reset shared c c'" "resets_settings reset" "held role c" "shared \<longrightarrow> role = None"
  shows "held role c'"
  using assms(1)
proof cases
  case (rs_tenant ctx d)
  then show ?thesis using assms(3) set_rls_tenant [of ctx "rc_conn c" d] by (simp add: held_def)
next
  case rs_release
  then show ?thesis using assms(2,3) by (simp add: held_def resets_settings_def)
next
  case (rs_bus commits)
  then show ?thesis using assms(3,4)
    by (simp add: held_def bus_transaction_def as_bus_role_def begin_transaction_def commit_def rollback_def pooled_conn_def Let_def)
qed (use assms(3) in \<open>simp_all add: held_def begin_transaction_def commit_def rollback_def pooled_conn_def\<close>)

lemma held_steps:
  assumes "(rls_step reset shared)\<^sup>*\<^sup>* c c'" "resets_settings reset" "held role c" "shared \<longrightarrow> role = None"
  shows "held role c'"
  using assms(1,3) by (induction rule: rtranclp_induct) (use held_step assms(2,4) in blast)+

lemma held_bus: "held role c \<Longrightarrow> held None (bus_transaction True c)"
  by (simp add: held_def bus_transaction_def as_bus_role_def begin_transaction_def commit_def pooled_conn_def Let_def)

lemma bus_rollback: "rc_role (bus_transaction False c) = rc_role c"
  by (simp add: bus_transaction_def as_bus_role_def begin_transaction_def rollback_def Let_def)

section \<open>Properties\<close>

text \<open>
  C21. Tenant isolation of a pool with a role: whatever order transactions, tenant guards and returns to
  the pool come in, a connection of a pool made with a restricted role only ever sees the rows that the policy gives
  its tenant setting, which in a transaction is one that a guard has bound and outside is none.
\<close>

theorem restricted_pool_isolates:
  assumes "role \<noteq> []" "pk_init kw = None" "\<not> bypass (Some role)" "resets_settings reset"
    and "(rls_step reset False)\<^sup>*\<^sup>* (open_conn caller (create_pool dsn (Some role) lo hi kw)) c"
  shows "rls_rows bypass policy c rows = Some (filter (policy (app_tenant_id (rc_conn c))) rows)
    \<and> (\<not> in_transaction (rc_conn c) \<longrightarrow> app_tenant_id (rc_conn c) = None)
    \<and> (set_rls ctx (rc_conn c) = Inr d \<longrightarrow>
        rls_rows bypass policy (c\<lparr>rc_conn := d\<rparr>) rows = Some (filter (policy (ctx_tenant ctx)) rows) \<and> ctx_tenant ctx \<noteq> None)"
proof -
  have "rc_role (open_conn caller (create_pool dsn (Some role) lo hi kw)) = Some role"
    using assms(1,2) by (simp add: open_conn_def create_pool_def or_none_def)
  then have h: "held (Some role) c" using held_steps [OF assms(5,4) held_open] by simp
  then show ?thesis
    using assms(3) set_rls_tenant [of ctx "rc_conn c" d] by (auto simp: held_def rls_rows_def)
qed

lemma restricted_pool_isolates_witness:
  "\<exists>c. (rls_step reset_all False)\<^sup>*\<^sup>* (open_conn (\<lambda>_. None) (create_pool (py ''postgresql://db'') (Some (py ''app'')) 1 10 \<lparr>pk_init = None, pk_cache = None\<rparr>)) c
    \<and> in_transaction (rc_conn c)
    \<and> rls_rows (\<lambda>r. r = None) (\<lambda>t r. t = Some r) c [py ''a'', py ''b''] = Some []"
proof -
  let ?p = "create_pool (py ''postgresql://db'') (Some (py ''app'')) 1 10 \<lparr>pk_init = None, pk_cache = None\<rparr>"
  let ?c = "begin_transaction (open_conn (\<lambda>_. None) ?p)"
  have i: "py ''app'' \<noteq> []" "pk_init \<lparr>pk_init = None, pk_cache = None\<rparr> = None" by (simp_all add: py_def)
  have "rls_step reset_all False (open_conn (\<lambda>_. None) ?p) ?c" by (rule rs_begin) (simp add: open_conn_def pooled_conn_def)
  then have steps: "(rls_step reset_all False)\<^sup>*\<^sup>* (open_conn (\<lambda>_. None) ?p) ?c" by blast
  from restricted_pool_isolates [OF i _ reset_all_ok steps, where bypass = "\<lambda>r. r = None" and policy = "\<lambda>t r. t = Some r" and rows = "[py ''a'', py ''b'']"]
  have "rls_rows (\<lambda>r. r = None) (\<lambda>t r. t = Some r) ?c [py ''a'', py ''b''] = Some (filter (\<lambda>r. app_tenant_id (rc_conn ?c) = Some r) [py ''a'', py ''b''])"
    by simp
  moreover have "app_tenant_id (rc_conn ?c) = None" "in_transaction (rc_conn ?c)"
    by (simp_all add: begin_transaction_def open_conn_def pooled_conn_def)
  ultimately show ?thesis using steps by (intro exI [of _ ?c]) simp
qed

text \<open>
  C26. What the event bus leaves behind: inside its transaction it sees every row, as it means to, when
  the user of the pool bypasses row-level security.  A rollback gives the connection its role back; after a commit
  the role is gone for good, since the initialiser runs once per connection: whoever uses the connection next, under
  whichever tenant the guards bind, sees the rows of all tenants.
\<close>

theorem bus_role_leaks:
  assumes "bypass None" "resets_settings reset" "held role c" "\<not> in_transaction (rc_conn c)"
    and "(rls_step reset shared)\<^sup>*\<^sup>* (bus_transaction True c) c'"
  shows "rls_rows bypass policy (as_bus_role (begin_transaction c)) rows = Some rows
    \<and> rc_role (bus_transaction False c) = role
    \<and> rls_rows bypass policy c' rows = Some rows
    \<and> (set_rls ctx (rc_conn c') = Inr d \<longrightarrow> rls_rows bypass policy (c'\<lparr>rc_conn := d\<rparr>) rows = Some rows)"
proof -
  have "held None c'" using held_steps [OF assms(5,2) held_bus [OF assms(3)]] by simp
  then have "rc_role c' = None" by (simp add: held_def)
  moreover have "rc_role (as_bus_role (begin_transaction c)) = None" by (simp add: as_bus_role_def Let_def)
  moreover have "rc_role c = role" using assms(3) by (simp add: held_def)
  ultimately show ?thesis using assms(1) by (simp add: rls_rows_bypass bus_rollback)
qed

lemma bus_role_leaks_witness:
  "\<exists>d. set_rls \<lparr>ctx_tenant = Some (py ''t1''), ctx_request = None\<rparr> (rc_conn (begin_transaction (bus_transaction True
        (open_conn (\<lambda>_. None) (create_pool (py ''postgresql://db'') (Some (py ''app'')) 1 10 \<lparr>pk_init = None, pk_cache = None\<rparr>))))) = Inr d
    \<and> rls_rows (\<lambda>r. r = None) (\<lambda>t r. t = Some r) ((begin_transaction (bus_transaction True
        (open_conn (\<lambda>_. None) (create_pool (py ''postgresql://db'') (Some (py ''app'')) 1 10 \<lparr>pk_init = None, pk_cache = None\<rparr>))))\<lparr>rc_conn := d\<rparr>)
        [py ''t1'', py ''t2''] = Some [py ''t1'', py ''t2'']"
proof -
  let ?c = "open_conn (\<lambda>_. None) (create_pool (py ''postgresql://db'') (Some (py ''app'')) 1 10 \<lparr>pk_init = None, pk_cache = None\<rparr>)"
  let ?b = "bus_transaction True ?c"
  have held: "held (Some (py ''app'')) ?c" by (rule held_open) (simp add: open_conn_def create_pool_def or_none_def py_def)
  have out: "\<not> in_transaction (rc_conn ?c)" "\<not> in_transaction (rc_conn ?b)"
    by (simp_all add: open_conn_def pooled_conn_def bus_transaction_def commit_def Let_def)
  have "rls_step reset_all True ?b (begin_transaction ?b)" using out(2) by (rule rs_begin)
  then have steps: "(rls_step reset_all True)\<^sup>*\<^sup>* ?b (begin_transaction ?b)" by blast
  obtain d where d: "set_rls \<lparr>ctx_tenant = Some (py ''t1''), ctx_request = None\<rparr> (rc_conn (begin_transaction ?b)) = Inr d"
    by (simp add: set_rls_def begin_transaction_def require_def py_def)
  with bus_role_leaks [OF _ reset_all_ok held out(1) steps, where bypass = "\<lambda>r. r = None" and policy = "\<lambda>t r. t = Some r"
      and rows = "[py ''t1'', py ''t2'']"]
  show ?thesis by auto
qed

text \<open>
  The session store under either kind of role.  With a policy that gives a tenant its own rows and
  no tenant none, a pool with a restricted role finds no session by token and deletes none without a
  tenant, silently; \<open>list\<close> and the delete scoped to a tenant do under it exactly what they do under a role that
  bypasses, on which all three are those of the plain table.
\<close>

theorem session_store_roles:
  assumes "\<not> bypass (Some r)" "bypass None"
    and "rc_role c = Some r" "rc_row_security c" "app_tenant_id (rc_conn c) = None" "rc_role s = None"
    and "\<forall>x. \<not> policy None x" "\<forall>t x. policy (Some t) x \<longleftrightarrow> pg_uuid T t = Some (sr_tenant x)"
  shows "session_get_on bypass policy s tid tbl now token = pg_session_get tid tbl now token
    \<and> session_get_on bypass policy c tid tbl now token = Inl NotFound
    \<and> session_delete_on T bypass policy s tid token tbl = pg_session_delete T tid token tbl
    \<and> session_delete_on T bypass policy c None token tbl = Some tbl
    \<and> session_delete_on T bypass policy c (Some t) token tbl = pg_session_delete T (Some t) token tbl
    \<and> session_list_on T bypass policy s tbl now t = pg_session_list T tbl now t
    \<and> session_list_on T bypass policy c tbl now t = pg_session_list T tbl now t"
proof -
  have restricted: "rls_rows bypass policy c tbl = Some []" "rls_rows bypass policy (scoped_conn t c) tbl = Some (filter (policy (Some t)) tbl)" for t
    using assms(1,3-5,7) by (simp_all add: rls_rows_def)
  have all: "rls_rows bypass policy s tbl = Some tbl" "rls_rows bypass policy (scoped_conn t s) tbl = Some tbl" for t
    using assms(2,6) by (simp_all add: rls_rows_def)
  have "filter (\<lambda>x. \<not> (x \<in> set (filter (policy (Some t)) tbl) \<and> sr_token x = token \<and> sr_tenant x = u)) tbl
      = filter (\<lambda>x. \<not> (sr_token x = token \<and> sr_tenant x = u)) tbl" if "pg_uuid T t = Some u" for u
    using that assms(8) by (auto intro!: filter_cong)
  moreover have "filter (\<lambda>x. sr_tenant x = u \<and> micros now < micros (sr_expires x)) (filter (policy (Some t)) tbl)
      = filter (\<lambda>x. sr_tenant x = u \<and> micros now < micros (sr_expires x)) tbl" if "pg_uuid T t = Some u" for u
    using that assms(8) by (auto intro!: filter_cong)
  moreover have "filter (\<lambda>x. \<not> (x \<in> set tbl \<and> P x)) tbl = filter (\<lambda>x. \<not> P x) tbl" for P
    by (auto intro!: filter_cong)
  ultimately show ?thesis
    by (auto simp: session_get_on_def session_delete_on_def session_list_on_def restricted all pg_session_get_def
        pg_session_delete_def pg_session_list_def split: option.split intro!: filter_cong)
qed

lemma session_store_roles_witness:
  "\<exists>c. rc_role c = Some (py ''app'')
    \<and> (\<forall>tbl now token. session_get_on (\<lambda>r. r = None)
         (\<lambda>t x. case t of None \<Rightarrow> False | Some t \<Rightarrow> pg_uuid toy_types t = Some (sr_tenant x)) c None tbl now token = Inl NotFound)"
proof -
  let ?p = "\<lambda>t x. (case t of None \<Rightarrow> False | Some t \<Rightarrow> pg_uuid toy_types t = Some (sr_tenant x))"
  let ?c = "open_conn (\<lambda>_. Some (py ''app'')) \<lparr>pc_dsn = [], pc_min = 1, pc_max = 1, pc_init = Some (CallerInit 0), pc_cache = 0\<rparr>"
  let ?s = "open_conn (\<lambda>_. None) \<lparr>pc_dsn = [], pc_min = 1, pc_max = 1, pc_init = None, pc_cache = 0\<rparr>"
  have c: "rc_role ?c = Some (py ''app'')" "rc_row_security ?c" "app_tenant_id (rc_conn ?c) = None" "rc_role ?s = None"
    by (simp_all add: open_conn_def pooled_conn_def)
  from session_store_roles [OF _ _ c, where bypass = "\<lambda>r. r = None" and policy = ?p and T = toy_types and tid = None]
  show ?thesis using c(1) by auto
qed

end
