(* ===== verification/TokenLock.thy ===== *)
theory TokenLock
  imports OpenBao
begin

text \<open>
  \<open>omkit/kms/openbao.py\<close> under concurrent calls: \<open>OpenBao\<close> has \<open>_do\<close>, \<open>_get_token\<close> and \<open>_login_locked\<close> as
  functions of one call; here any number of calls share the adapter, its token and the lock
  \<open>_token_lock\<close>, and interleave wherever the code awaits.  A request is handled by the server, and the
  adapter's state changed, when its answer is taken; between the decision to send it and that
  moment other calls run.
\<close>

section \<open>The steps of a call\<close>

text \<open>
  Where a call of \<open>_do\<close> waits: for the lock in \<open>_get_token\<close> (the flag tells that it has dropped a token
  after a 403), for the answer of the login, for the answer to its own request, for the lock in the 403 branch; or it
  has ended.
\<close>

datatype call_phase =
    WantToken bool
  | LoggingIn bool
  | Calling bool json
  | WantDrop
  | Finished "kms_error + json"
  | CallCancelled

record 'w bao_run =
  br_bao :: "'w bao"
  br_lock :: "nat option"
  br_phase :: "nat \<Rightarrow> call_phase"
  br_logins :: "nat \<Rightarrow> nat"
  br_calls :: "nat \<Rightarrow> nat"

definition run_start :: "'w bao \<Rightarrow> nat set \<Rightarrow> 'w bao_run" where
  "run_start b calls =
     \<lparr>br_bao = b, br_lock = None, br_phase = (\<lambda>i. if i \<in> calls then WantToken False else CallCancelled),
      br_logins = (\<lambda>_. 0), br_calls = (\<lambda>_. 0)\<rparr>"

abbreviation to_phase :: "nat \<Rightarrow> call_phase \<Rightarrow> 'w bao_run \<Rightarrow> 'w bao_run" where
  "to_phase i p s \<equiv> s\<lparr>br_phase := (br_phase s)(i := p)\<rparr>"

abbreviation counted :: "nat \<Rightarrow> (nat \<Rightarrow> nat) \<Rightarrow> nat \<Rightarrow> nat" where
  "counted i f \<equiv> f(i := Suc (f i))"

text \<open>The method, path and body of each call; None is a call that cannot go on: it waits for the lock or has ended.\<close>

definition task_step ::
    "(json \<Rightarrow> int option) \<Rightarrow> 'w bao_env \<Rightarrow> (nat \<Rightarrow> http_method \<times> pystr \<times> json option) \<Rightarrow> nat \<Rightarrow> 'w bao_run \<Rightarrow> 'w bao_run option" where
  "task_step num E call i s =
     (case br_phase s i of
        WantToken retried \<Rightarrow>
          if br_lock s \<noteq> None then None
          else if token_fresh E (br_bao s) then Some (to_phase i (Calling retried (the (bo_token (br_bao s)))) s)
          else Some (to_phase i (LoggingIn retried) (s\<lparr>br_lock := Some i\<rparr>))
      | LoggingIn retried \<Rightarrow>
          (case login_locked num E (br_bao s) of
             (b, r) \<Rightarrow> Some (to_phase i (case r of Inl e \<Rightarrow> Finished (Inl e) | Inr tok \<Rightarrow> Calling retried tok)
                (s\<lparr>br_bao := b, br_lock := None, br_logins := counted i (br_logins s)\<rparr>)))
      | Calling retried tok \<Rightarrow>
          (case call i of (meth, path, body) \<Rightarrow>
            (case do_raw E (br_bao s) meth path (Some tok) body of
               (b, r) \<Rightarrow> Some (to_phase i (if r = Inl (KMSAuthError 403) \<and> \<not> retried then WantDrop else Finished r)
                  (s\<lparr>br_bao := b, br_calls := counted i (br_calls s)\<rparr>))))
      | WantDrop \<Rightarrow>
          if br_lock s \<noteq> None then None
          else Some (to_phase i (WantToken True) (s\<lparr>br_bao := (br_bao s)\<lparr>bo_token := None\<rparr>\<rparr>))
      | Finished _ \<Rightarrow> None
      | CallCancelled \<Rightarrow> None)"

text \<open>
  Any interleaving: a call goes on, time passes or the server changes on its own, or a call is
  cancelled, which leaves the lock it holds.
\<close>

definition cancel_call :: "nat \<Rightarrow> 'w bao_run \<Rightarrow> 'w bao_run" where
  "cancel_call i s =
     to_phase i (case br_phase s i of Finished r \<Rightarrow> Finished r | _ \<Rightarrow> CallCancelled)
       (s\<lparr>br_lock := (if br_lock s = Some i then None else br_lock s)\<rparr>)"

inductive run_step ::
    "(json \<Rightarrow> int option) \<Rightarrow> 'w bao_env \<Rightarrow> (nat \<Rightarrow> http_method \<times> pystr \<times> json option) \<Rightarrow> 'w bao_run \<Rightarrow> 'w bao_run \<Rightarrow> bool"
  for num E call where
  rn_task: "task_step num E call i s = Some s' \<Longrightarrow> run_step num E call s s'"
| rn_world: "run_step num E call s (s\<lparr>br_bao := (br_bao s)\<lparr>bo_world := w\<rparr>\<rparr>)"
| rn_cancel: "run_step num E call s (cancel_call i s)"

section \<open>The lock\<close>

fun rank :: "call_phase \<Rightarrow> nat" where
  "rank (WantToken r) = (if r then 3 else 7)"
| "rank (LoggingIn r) = (if r then 2 else 6)"
| "rank (Calling r tok) = (if r then 1 else 5)"
| "rank WantDrop = 4"
| "rank (Finished r) = 0"
| "rank CallCancelled = 0"

text \<open>How often a call in a phase has logged in and has sent its request, at most.\<close>

fun logins_of :: "call_phase \<Rightarrow> nat" where
  "logins_of (WantToken r) = (if r then 1 else 0)"
| "logins_of (LoggingIn r) = (if r then 1 else 0)"
| "logins_of (Calling r tok) = (if r then 2 else 1)"
| "logins_of WantDrop = 1"
| "logins_of (Finished r) = 2"
| "logins_of CallCancelled = 2"

fun calls_of :: "call_phase \<Rightarrow> nat" where
  "calls_of (WantToken r) = (if r then 1 else 0)"
| "calls_of (LoggingIn r) = (if r then 1 else 0)"
| "calls_of (Calling r tok) = (if r then 1 else 0)"
| "calls_of WantDrop = 1"
| "calls_of (Finished r) = 2"
| "calls_of CallCancelled = 2"

lemma call_counts_le: "logins_of p \<le> 2" "calls_of p \<le> 2"
  by (cases p; simp)+

text \<open>Only the holder of the lock logs in, calls carry a truthy token, and the counts are within their bounds.\<close>

definition lock_ok :: "'w bao_run \<Rightarrow> bool" where
  "lock_ok s = (\<forall>i. br_lock s = Some i \<longleftrightarrow> (\<exists>r. br_phase s i = LoggingIn r))"

definition call_ok :: "'w bao_run \<Rightarrow> nat \<Rightarrow> bool" where
  "call_ok s i = ((\<forall>r tok. br_phase s i = Calling r tok \<longrightarrow> json_truthy tok)
     \<and> br_logins s i \<le> logins_of (br_phase s i) \<and> br_calls s i \<le> calls_of (br_phase s i))"

definition run_inv :: "'w bao \<Rightarrow> 'w bao_run \<Rightarrow> bool" where
  "run_inv b s = (same_config b (br_bao s) \<and> token_inv (br_bao s) \<and> lock_ok s \<and> (\<forall>i. call_ok s i))"

lemma run_inv_start: "token_inv b \<Longrightarrow> run_inv b (run_start b calls)"
  by (simp add: run_inv_def run_start_def lock_ok_def call_ok_def)

lemma token_fresh_truthy: "token_fresh E s \<Longrightarrow> json_truthy (the (bo_token s))"
  by (simp add: token_fresh_def split: option.splits)

text \<open>The five kinds of steps of a call.\<close>

lemma task_stepE:
  assumes "task_step num E call i s = Some s'"
  obtains (fresh) r where "br_phase s i = WantToken r" "br_lock s = None" "token_fresh E (br_bao s)"
      "s' = to_phase i (Calling r (the (bo_token (br_bao s)))) s"
  | (locks) r where "br_phase s i = WantToken r" "br_lock s = None" "\<not> token_fresh E (br_bao s)"
      "s' = to_phase i (LoggingIn r) (s\<lparr>br_lock := Some i\<rparr>)"
  | (login) r b out where "br_phase s i = LoggingIn r" "login_locked num E (br_bao s) = (b, out)"
      "s' = to_phase i (case out of Inl e \<Rightarrow> Finished (Inl e) | Inr tok \<Rightarrow> Calling r tok)
         (s\<lparr>br_bao := b, br_lock := None, br_logins := counted i (br_logins s)\<rparr>)"
  | (answer) r tok meth path body b out where "br_phase s i = Calling r tok" "call i = (meth, path, body)"
      "do_raw E (br_bao s) meth path (Some tok) body = (b, out)"
      "s' = to_phase i (if out = Inl (KMSAuthError 403) \<and> \<not> r then WantDrop else Finished out)
         (s\<lparr>br_bao := b, br_calls := counted i (br_calls s)\<rparr>)"
  | (drop) "br_phase s i = WantDrop" "br_lock s = None"
      "s' = to_phase i (WantToken True) (s\<lparr>br_bao := (br_bao s)\<lparr>bo_token := None\<rparr>\<rparr>)"
  using assms by (auto simp: task_step_def split: call_phase.splits if_splits prod.splits)

text \<open>A step of a call changes its own phase and counts only.\<close>

lemma call_ok_others:
  "call_ok s j \<Longrightarrow> br_phase s' j = br_phase s j \<Longrightarrow> br_logins s' j = br_logins s j \<Longrightarrow> br_calls s' j = br_calls s j \<Longrightarrow> call_ok s' j"
  by (simp add: call_ok_def)

lemma task_step_others:
  "task_step num E call i s = Some s' \<Longrightarrow> j \<noteq> i \<Longrightarrow>
    br_phase s' j = br_phase s j \<and> br_logins s' j = br_logins s j \<and> br_calls s' j = br_calls s j"
  by (cases rule: task_stepE) auto

lemma lock_holder: "lock_ok s \<Longrightarrow> br_phase s i = LoggingIn r \<Longrightarrow> br_phase s j = LoggingIn r' \<Longrightarrow> j = i"
  unfolding lock_ok_def by (metis option.inject)

lemma run_inv_task:
  assumes "task_step num E call i s = Some s'" "run_inv b s"
  shows "run_inv b s'"
proof -
  have inv: "same_config b (br_bao s)" "token_inv (br_bao s)" "lock_ok s" "call_ok s i" "call_ok s j" for j
    using assms(2) by (simp_all add: run_inv_def)
  have others: "call_ok s' j" if "j \<noteq> i" for j
    using call_ok_others [OF inv(5)] task_step_others [OF assms(1) that] by blast
  have "same_config b (br_bao s') \<and> token_inv (br_bao s') \<and> lock_ok s' \<and> call_ok s' i"
    using assms(1)
  proof (cases rule: task_stepE)
    case (fresh r)
    then show ?thesis using inv token_fresh_truthy [OF fresh(3)] by (auto simp: lock_ok_def call_ok_def)
  next
    case (locks r)
    then show ?thesis using inv by (auto simp: lock_ok_def call_ok_def)
  next
    case (login r b' out)
    have "keeps (br_bao s) b'" using login(2) by (rule login_keeps)
    moreover have "json_truthy tok" if "out = Inr tok" for tok using login(2) that by (auto dest: login_truthy)
    moreover have "lock_ok s'"
      using lock_holder [OF inv(3) login(1)] by (auto simp: login(3) lock_ok_def split: sum.split)
    ultimately show ?thesis
      using login inv same_config_trans by (auto simp: keeps_def call_ok_def split: sum.split)
  next
    case (answer r tok meth path body b' out)
    have "keeps (br_bao s) b'" using answer(3) by (rule do_raw_keeps)
    then show ?thesis
      using answer inv same_config_trans by (auto simp: keeps_def lock_ok_def call_ok_def split: if_splits)
  next
    case drop
    then show ?thesis using inv by (auto simp: lock_ok_def call_ok_def)
  qed
  then show ?thesis using others unfolding run_inv_def by metis
qed

lemma run_inv_cancel: "run_inv b s \<Longrightarrow> run_inv b (cancel_call i s)"
proof -
  assume inv: "run_inv b s"
  then have "br_logins s i \<le> 2" "br_calls s i \<le> 2"
    using call_counts_le by (auto simp: run_inv_def call_ok_def intro: order_trans)
  then have "call_ok (cancel_call i s) j" for j
    using inv by (auto simp: run_inv_def call_ok_def cancel_call_def split: call_phase.split)
  moreover have "br_lock (cancel_call i s) = Some j \<longleftrightarrow> (\<exists>r. br_phase (cancel_call i s) j = LoggingIn r)" for j
  proof (cases "j = i")
    case True
    then show ?thesis by (simp add: cancel_call_def split: call_phase.split)
  next
    case False
    then have "br_lock (cancel_call i s) = Some j \<longleftrightarrow> br_lock s = Some j" by (auto simp: cancel_call_def)
    then show ?thesis using inv False by (simp add: run_inv_def lock_ok_def cancel_call_def)
  qed
  ultimately show ?thesis using inv by (simp add: run_inv_def lock_ok_def cancel_call_def)
qed

lemma run_inv_step: "run_step num E call s s' \<Longrightarrow> run_inv b s \<Longrightarrow> run_inv b s'"
proof (induction rule: run_step.induct)
  case (rn_task i s s')
  then show ?case using run_inv_task by blast
next
  case (rn_world s w)
  then show ?case by (auto simp: run_inv_def lock_ok_def call_ok_def)
qed (rule run_inv_cancel)

lemma run_inv_reach:
  "(run_step num E call)\<^sup>*\<^sup>* (run_start b calls) s \<Longrightarrow> token_inv b \<Longrightarrow> run_inv b s"
  by (induction rule: rtranclp_induct) (auto intro: run_inv_start run_inv_step)

text \<open>Every step of a call lowers its rank; a call that has not ended can go on, or the holder of the lock can.\<close>

lemma rank_step: "task_step num E call i s = Some s' \<Longrightarrow> rank (br_phase s' i) < rank (br_phase s i)"
  by (cases rule: task_stepE) (auto split: sum.split)

lemma task_step_blocked:
  "task_step num E call i s = None \<longleftrightarrow>
    rank (br_phase s i) = 0 \<or> br_lock s \<noteq> None \<and> ((\<exists>r. br_phase s i = WantToken r) \<or> br_phase s i = WantDrop)"
  by (cases "br_phase s i") (auto simp: task_step_def split: prod.split)

lemma some_call_goes_on:
  assumes "lock_ok s" "rank (br_phase s i) \<noteq> 0"
  shows "\<exists>j s'. task_step num E call j s = Some s'"
proof (cases "br_lock s")
  case None
  then show ?thesis using assms(2) task_step_blocked [of num E call i s] by (metis not_None_eq)
next
  case (Some j)
  then obtain r where "br_phase s j = LoggingIn r" using assms(1) unfolding lock_ok_def by blast
  then show ?thesis using task_step_blocked [of num E call j s] by (metis call_phase.distinct(1) call_phase.distinct(13) not_None_eq rank.simps(2) zero_neq_numeral)
qed

text \<open>Seven turns of one call, as far as it can go on.\<close>

definition turn :: "(json \<Rightarrow> int option) \<Rightarrow> 'w bao_env \<Rightarrow> (nat \<Rightarrow> http_method \<times> pystr \<times> json option) \<Rightarrow> nat \<Rightarrow> 'w bao_run \<Rightarrow> 'w bao_run" where
  "turn num E call i s = (case task_step num E call i s of None \<Rightarrow> s | Some s' \<Rightarrow> s')"

lemma turn_simps:
  "br_phase s i = WantToken r \<Longrightarrow> br_lock s = None \<Longrightarrow> token_fresh E (br_bao s) \<Longrightarrow>
    turn num E call i s = to_phase i (Calling r (the (bo_token (br_bao s)))) s"
  "br_phase s i = WantToken r \<Longrightarrow> br_lock s = None \<Longrightarrow> \<not> token_fresh E (br_bao s) \<Longrightarrow>
    turn num E call i s = to_phase i (LoggingIn r) (s\<lparr>br_lock := Some i\<rparr>)"
  "br_phase s i = LoggingIn r \<Longrightarrow> login_locked num E (br_bao s) = (b, out) \<Longrightarrow>
    turn num E call i s = to_phase i (case out of Inl e \<Rightarrow> Finished (Inl e) | Inr tok \<Rightarrow> Calling r tok)
      (s\<lparr>br_bao := b, br_lock := None, br_logins := counted i (br_logins s)\<rparr>)"
  "br_phase s i = Calling r tok \<Longrightarrow> call i = (meth, path, body) \<Longrightarrow> do_raw E (br_bao s) meth path (Some tok) body = (b, out') \<Longrightarrow>
    turn num E call i s = to_phase i (if out' = Inl (KMSAuthError 403) \<and> \<not> r then WantDrop else Finished out')
      (s\<lparr>br_bao := b, br_calls := counted i (br_calls s)\<rparr>)"
  "br_phase s i = WantDrop \<Longrightarrow> br_lock s = None \<Longrightarrow>
    turn num E call i s = to_phase i (WantToken True) (s\<lparr>br_bao := (br_bao s)\<lparr>bo_token := None\<rparr>\<rparr>)"
  "br_phase s i = Finished res \<Longrightarrow> turn num E call i s = s"
  by (simp_all add: turn_def task_step_def)

text \<open>From a state to one where the call has the token of \<open>get_token\<close>, or ended with its error, in at most two turns.\<close>

lemma token_turns:
  assumes "br_phase s i = WantToken r" "br_lock s = None" "get_token num E (br_bao s) = (b, out)"
  shows "\<exists>n\<le>2. let s' = (turn num E call i ^^ n) s in br_bao s' = b \<and> br_lock s' = None
    \<and> br_phase s' i = (case out of Inl e \<Rightarrow> Finished (Inl e) | Inr tok \<Rightarrow> Calling r tok)"
proof (cases "token_fresh E (br_bao s)")
  case True
  then have "get_token num E (br_bao s) = (br_bao s, Inr (the (bo_token (br_bao s))))" by (simp add: get_token_def)
  then have "b = br_bao s" "out = Inr (the (bo_token (br_bao s)))" using assms(3) by (metis Pair_inject)+
  then show ?thesis using assms(2)
    by (intro exI [of _ 1]) (simp add: turn_simps(1) [OF assms(1,2) True])
next
  case False
  let ?s1 = "to_phase i (LoggingIn r) (s\<lparr>br_lock := Some i\<rparr>)"
  have t: "turn num E call i s = ?s1" by (rule turn_simps(2) [OF assms(1,2) False])
  have l: "login_locked num E (br_bao ?s1) = (b, out)" using assms(3) False by (simp add: get_token_def)
  have "br_phase ?s1 i = LoggingIn r" by simp
  note turn_simps(3) [OF this l, of call]
  then have "(turn num E call i ^^ 2) s = to_phase i (case out of Inl e \<Rightarrow> Finished (Inl e) | Inr tok \<Rightarrow> Calling r tok)
      (?s1\<lparr>br_bao := b, br_lock := None, br_logins := counted i (br_logins s)\<rparr>)"
    by (simp add: numeral_2_eq_2 t)
  then show ?thesis by (intro exI [of _ 2]) (simp split: sum.split)
qed

lemma turns_stay: "br_phase s i = Finished res \<Longrightarrow> (turn num E call i ^^ n) s = s"
  by (induction n) (simp_all add: turn_simps)

text \<open>A call that has its token ends in one turn, or after a 403 in at most five.\<close>

lemma call_turns:
  assumes "br_phase s i = Calling r tok" "br_lock s = None" "call i = (meth, path, body)"
    and "do_raw E (br_bao s) meth path (Some tok) body = (b, out)" "r \<or> out \<noteq> Inl (KMSAuthError 403)"
  shows "br_bao (turn num E call i s) = b \<and> br_lock (turn num E call i s) = None \<and> br_phase (turn num E call i s) i = Finished out"
  using assms by (auto simp: turn_simps(4) [where call = call, OF assms(1,3,4)])

lemma turns_add: "(turn num E call i ^^ (m + n)) s = (turn num E call i ^^ n) ((turn num E call i ^^ m) s)"
  by (metis add.commute comp_apply funpow_add)

lemma turns_stay_le:
  assumes "m \<le> n" "br_phase ((turn num E call i ^^ m) s) i = Finished res"
  shows "(turn num E call i ^^ n) s = (turn num E call i ^^ m) s"
proof -
  have "(turn num E call i ^^ n) s = (turn num E call i ^^ (n - m)) ((turn num E call i ^^ m) s)"
    using turns_add [where m = m and n = "n - m" and s = s and num = num and E = E and call = call and i = i] assms(1) by simp
  then show ?thesis using turns_stay [OF assms(2), where n = "n - m" and num = num and E = E and call = call] by simp
qed

text \<open>How a call that is given its token goes on to its end, when it may not retry any more.\<close>

definition last_try ::
    "(json \<Rightarrow> int option) \<Rightarrow> 'w bao_env \<Rightarrow> 'w bao \<Rightarrow> http_method \<Rightarrow> pystr \<Rightarrow> json option \<Rightarrow> 'w bao \<times> (kms_error + json)" where
  "last_try num E s meth path body =
     (case get_token num E s of (s1, Inl e) \<Rightarrow> (s1, Inl e) | (s1, Inr tok) \<Rightarrow> do_raw E s1 meth path (Some tok) body)"

lemma last_try_turns:
  assumes "br_phase s i = WantToken True" "br_lock s = None" "call i = (meth, path, body)"
  shows "\<exists>n\<le>3. let s' = (turn num E call i ^^ n) s in
    br_phase s' i = Finished (snd (last_try num E (br_bao s) meth path body)) \<and> br_bao s' = fst (last_try num E (br_bao s) meth path body)"
proof -
  obtain b out where t: "get_token num E (br_bao s) = (b, out)" by fastforce
  obtain n where n: "n \<le> 2" "br_bao ((turn num E call i ^^ n) s) = b" "br_lock ((turn num E call i ^^ n) s) = None"
    "br_phase ((turn num E call i ^^ n) s) i = (case out of Inl e \<Rightarrow> Finished (Inl e) | Inr tok \<Rightarrow> Calling True tok)"
    using token_turns [OF assms(1,2) t, of call] by (auto simp: Let_def)
  show ?thesis
  proof (cases out)
    case (Inl e)
    then show ?thesis using n t by (intro exI [of _ n]) (simp add: last_try_def)
  next
    case (Inr tok)
    let ?s = "(turn num E call i ^^ n) s"
    obtain b' out' where d: "do_raw E (br_bao ?s) meth path (Some tok) body = (b', out')" by fastforce
    have "br_phase ?s i = Calling True tok" using n(4) Inr by simp
    from call_turns [where call = call, OF this n(3) assms(3) d] show ?thesis
      using n t d Inr by (intro exI [of _ "Suc n"]) (simp add: last_try_def)
  qed
qed

lemma bao_do_last_try:
  "bao_do num E s meth path body =
     (case get_token num E s of
        (s1, Inl e) \<Rightarrow> (s1, Inl e)
      | (s1, Inr tok) \<Rightarrow>
          (case do_raw E s1 meth path (Some tok) body of
             (s2, r) \<Rightarrow> if r = Inl (KMSAuthError 403) then last_try num E (s2\<lparr>bo_token := None\<rparr>) meth path body else (s2, r)))"
  by (auto simp: bao_do_def last_try_def split: prod.splits sum.splits)

lemma do_turns:
  assumes "br_phase s i = WantToken False" "br_lock s = None" "call i = (meth, path, body)"
  shows "\<exists>n\<le>7. let s' = (turn num E call i ^^ n) s in
    br_phase s' i = Finished (snd (bao_do num E (br_bao s) meth path body)) \<and> br_bao s' = fst (bao_do num E (br_bao s) meth path body)"
proof -
  obtain b out where t: "get_token num E (br_bao s) = (b, out)" by fastforce
  obtain n where n: "n \<le> 2" "br_bao ((turn num E call i ^^ n) s) = b" "br_lock ((turn num E call i ^^ n) s) = None"
    "br_phase ((turn num E call i ^^ n) s) i = (case out of Inl e \<Rightarrow> Finished (Inl e) | Inr tok \<Rightarrow> Calling False tok)"
    using token_turns [OF assms(1,2) t, of call] by (auto simp: Let_def)
  let ?s = "(turn num E call i ^^ n) s"
  show ?thesis
  proof (cases out)
    case (Inl e)
    then show ?thesis using n t by (intro exI [of _ n]) (simp add: bao_do_last_try)
  next
    case (Inr tok)
    obtain b' out' where d: "do_raw E (br_bao ?s) meth path (Some tok) body = (b', out')" by fastforce
    have c: "br_phase ?s i = Calling False tok" using n(4) Inr by simp
    show ?thesis
    proof (cases "out' = Inl (KMSAuthError 403)")
      case False
      from call_turns [where call = call, OF c n(3) assms(3) d] False show ?thesis
        using n t d Inr by (intro exI [of _ "Suc n"]) (simp add: bao_do_last_try)
    next
      case True
      let ?s2 = "(turn num E call i ^^ Suc (Suc n)) s"
      have "turn num E call i ?s = to_phase i WantDrop (?s\<lparr>br_bao := b', br_calls := counted i (br_calls ?s)\<rparr>)"
        using turn_simps(4) [where call = call, OF c assms(3) d, where num = num] True by simp
      then have s2: "br_phase ?s2 i = WantToken True" "br_lock ?s2 = None" "br_bao ?s2 = b'\<lparr>bo_token := None\<rparr>"
        using n(3) by (simp_all add: turn_simps(5))
      obtain k where "k \<le> 3" "let s' = (turn num E call i ^^ k) ?s2 in
          br_phase s' i = Finished (snd (last_try num E (br_bao ?s2) meth path body)) \<and> br_bao s' = fst (last_try num E (br_bao ?s2) meth path body)"
        using last_try_turns [where call = call, OF s2(1,2) assms(3)] by blast
      then show ?thesis using n(1,2) t d Inr True s2(3) turns_add [of "Suc (Suc n)" k num E call i s]
        by (intro exI [of _ "Suc (Suc n) + k"]) (simp add: bao_do_last_try Let_def)
    qed
  qed
qed

section \<open>A server that has revoked a token\<close>

text \<open>It refuses the token \<open>old\<close>, accepts every other, and counts its logins.\<close>

definition revoked_env :: "nat bao_env" where
  "revoked_env = \<lparr>send = (\<lambda>r w. case hr_token r of
        None \<Rightarrow> (Suc w, echo_answer echo_login)
      | Some t \<Rightarrow> (w, if t = JStr (py ''old'') then Response 403 [] else Response 200 [])),
     monotonic = (\<lambda>w. 0)\<rparr>"

definition stale_bao :: "nat bao" where
  "stale_bao = (example_bao 0)\<lparr>bo_token := Some (JStr (py ''old'')), bo_expiry := 3600\<rparr>"

lemma revoked_raw:
  "do_raw revoked_env s m p (Some (JStr (py ''old''))) b = (s, Inl (KMSAuthError 403))"
  "tok \<noteq> JStr (py ''old'') \<Longrightarrow> do_raw revoked_env s m p (Some tok) b = (s, Inr (JObj []))"
  by (simp_all add: do_raw_def revoked_env_def)

lemma revoked_login:
  "login_locked num revoked_env s =
     (s\<lparr>bo_world := Suc (bo_world s), bo_token := Some (JStr (py ''t'')), bo_expiry := 60\<rparr>, Inr (JStr (py ''t'')))"
proof -
  have "jwf echo_login" "length (dumps_compact echo_login) \<le> MAX_RESP_BYTES" "dumps_compact echo_login \<noteq> []"
    by (simp_all add: echo_login_def dumps_compact_def py_def esc_str_def MAX_RESP_BYTES_def valid_cp_def surrogate_def
        esc_char_def str_int_def nat_digits.simps)
  then have "do_raw revoked_env s POST (py ''/v1/auth/approle/login'') None (Some (login_body s)) =
      (s\<lparr>bo_world := Suc (bo_world s)\<rparr>, Inr echo_login)"
    by (simp add: do_raw_def revoked_env_def echo_answer_def json_loads_bytes_dumps MAX_RESP_BYTES_def)
  then show ?thesis
    by (simp add: login_locked_def echo_login_def login_fields_def jget_def jor_def json_truthy_def py_int_def Let_def
        revoked_env_def py_def)
qed

text \<open>
  The states of a run of \<open>n\<close> calls that all start with the revoked token: they send their requests;
  the first one is refused and logs in, and the others, refused while it does, wait for the lock; then one after
  the other ends its login, makes its second request, and leaves the lock to the next.
\<close>

definition sending :: "nat \<Rightarrow> nat \<Rightarrow> nat bao_run" where
  "sending n j = \<lparr>br_bao = stale_bao, br_lock = None,
     br_phase = (\<lambda>i. if i < j then Calling False (JStr (py ''old'')) else if i < n then WantToken False else CallCancelled),
     br_logins = (\<lambda>_. 0), br_calls = (\<lambda>_. 0)\<rparr>"

definition refused :: "nat \<Rightarrow> nat \<Rightarrow> nat bao_run" where
  "refused n j = \<lparr>br_bao = stale_bao\<lparr>bo_token := None\<rparr>, br_lock = Some 0,
     br_phase = (\<lambda>i. if i = 0 then LoggingIn True else if i < j then WantDrop
       else if i < n then Calling False (JStr (py ''old'')) else CallCancelled),
     br_logins = (\<lambda>_. 0), br_calls = (\<lambda>i. if i < j then 1 else 0)\<rparr>"

definition relogin :: "nat \<Rightarrow> nat \<Rightarrow> nat bao_run" where
  "relogin n k = \<lparr>br_bao = stale_bao\<lparr>bo_token := None, bo_expiry := (if k = 0 then 3600 else 60), bo_world := k\<rparr>,
     br_lock = Some k,
     br_phase = (\<lambda>i. if i < k then Finished (Inr (JObj [])) else if i = k then LoggingIn True
       else if i < n then WantDrop else CallCancelled),
     br_logins = (\<lambda>i. if i < k then 1 else 0), br_calls = (\<lambda>i. if i < k then 2 else if i < n then 1 else 0)\<rparr>"

definition served :: "nat \<Rightarrow> nat \<Rightarrow> nat bao_run" where
  "served n k = \<lparr>br_bao = stale_bao\<lparr>bo_token := Some (JStr (py ''t'')), bo_expiry := 60, bo_world := k\<rparr>,
     br_lock = None,
     br_phase = (\<lambda>i. if i < k then Finished (Inr (JObj [])) else if i < n then WantDrop else CallCancelled),
     br_logins = (\<lambda>i. if i < k then 1 else 0), br_calls = (\<lambda>i. if i < k then 2 else if i < n then 1 else 0)\<rparr>"

lemma stale_fresh: "token_fresh revoked_env stale_bao"
  by (simp add: token_fresh_def stale_bao_def revoked_env_def json_truthy_def TOKEN_REFRESH_WINDOW_def py_def)

lemma sending_step: "j < n \<Longrightarrow> task_step num revoked_env call j (sending n j) = Some (sending n (Suc j))"
  by (auto simp: task_step_def sending_def stale_fresh fun_eq_iff) (simp add: stale_bao_def)

lemma refused_first:
  assumes "0 < n"
  shows "\<exists>s1 s2. task_step num revoked_env call 0 (sending n n) = Some s1 \<and> task_step num revoked_env call 0 s1 = Some s2
    \<and> task_step num revoked_env call 0 s2 = Some (refused n 1)"
  using assms
  by (cases "call 0") (auto simp: task_step_def sending_def refused_def revoked_raw fun_eq_iff)

lemma refused_step:
  assumes "1 \<le> j" "j < n"
  shows "task_step num revoked_env call j (refused n j) = Some (refused n (Suc j))"
  using assms by (cases "call j") (auto simp: task_step_def refused_def revoked_raw fun_eq_iff)

lemma refused_relogin: "0 < n \<Longrightarrow> refused n n = relogin n 0"
  by (auto simp: refused_def relogin_def stale_bao_def example_bao_def)

lemma served_steps:
  assumes "k < n"
  shows "\<exists>s1. task_step num revoked_env call k (relogin n k) = Some s1 \<and> task_step num revoked_env call k s1 = Some (served n (Suc k))"
proof -
  have "JStr (py ''t'') \<noteq> JStr (py ''old'')" by (simp add: py_def)
  then show ?thesis using assms
    by (cases "call k") (auto simp: task_step_def relogin_def served_def revoked_login revoked_raw fun_eq_iff)
qed

lemma relogin_steps:
  assumes "k < n" "0 < k"
  shows "\<exists>s1. task_step num revoked_env call k (served n k) = Some s1 \<and> task_step num revoked_env call k s1 = Some (relogin n k)"
  using assms by (auto simp: task_step_def relogin_def served_def fun_eq_iff)

abbreviation revoked_run :: "(json \<Rightarrow> int option) \<Rightarrow> (nat \<Rightarrow> http_method \<times> pystr \<times> json option) \<Rightarrow> nat bao_run \<Rightarrow> nat bao_run \<Rightarrow> bool" where
  "revoked_run num call \<equiv> (run_step num revoked_env call)\<^sup>*\<^sup>*"

lemma run_task: "task_step num E call i s = Some s' \<Longrightarrow> (run_step num E call)\<^sup>*\<^sup>* s s'"
  by (blast intro: rn_task)

lemma all_sending: "j \<le> n \<Longrightarrow> revoked_run num call (sending n 0) (sending n j)"
proof (induction j)
  case (Suc j)
  then show ?case using run_task [OF sending_step [of j n num call]] by (auto intro: rtranclp_trans)
qed simp

lemma all_refused: "1 \<le> j \<Longrightarrow> j \<le> n \<Longrightarrow> revoked_run num call (refused n 1) (refused n j)"
proof (induction j rule: nat_induct_at_least)
  case (Suc j)
  then show ?case using run_task [OF refused_step [of j n num call]] by (auto intro: rtranclp_trans)
qed simp

lemma all_served: "k < n \<Longrightarrow> revoked_run num call (relogin n 0) (served n (Suc k))"
proof (induction k)
  case 0
  then show ?case using served_steps [of 0 n num call] run_task rtranclp_trans by metis
next
  case (Suc k)
  then have "revoked_run num call (relogin n 0) (served n (Suc k))" by simp
  moreover have "revoked_run num call (served n (Suc k)) (relogin n (Suc k))"
    using relogin_steps [of "Suc k" n num call] Suc.prems run_task rtranclp_trans by (metis zero_less_Suc)
  moreover have "revoked_run num call (relogin n (Suc k)) (served n (Suc (Suc k)))"
    using served_steps [of "Suc k" n num call] Suc.prems run_task rtranclp_trans by metis
  ultimately show ?case by (meson rtranclp_trans)
qed

lemma sending_start: "sending n 0 = run_start stale_bao {..<n}"
  by (auto simp: sending_def run_start_def)

lemma stampede: "0 < n \<Longrightarrow> revoked_run num call (run_start stale_bao {..<n}) (served n n)"
proof -
  assume n: "0 < n"
  then obtain k where k: "n = Suc k" by (cases n) auto
  have "revoked_run num call (sending n n) (refused n 1)"
    using refused_first [OF n, of num call] run_task rtranclp_trans by metis
  then show ?thesis
    using n k all_sending [of n n num call] all_refused [of n n num call] all_served [of k n num call]
    unfolding sending_start refused_relogin [OF n, symmetric] by (auto intro: rtranclp_trans)
qed

section \<open>Steps and ranks\<close>

text \<open>A run that counts the steps of the calls, among those of the server, the clock and the cancellations.\<close>

inductive run_count ::
    "(json \<Rightarrow> int option) \<Rightarrow> 'w bao_env \<Rightarrow> (nat \<Rightarrow> http_method \<times> pystr \<times> json option) \<Rightarrow> nat \<Rightarrow> 'w bao_run \<Rightarrow> 'w bao_run \<Rightarrow> bool"
  for num E call where
  rc_none: "run_count num E call 0 s s"
| rc_task: "run_count num E call n s s' \<Longrightarrow> task_step num E call i s' = Some s'' \<Longrightarrow> run_count num E call (Suc n) s s''"
| rc_world: "run_count num E call n s s' \<Longrightarrow> run_count num E call n s (s'\<lparr>br_bao := (br_bao s')\<lparr>bo_world := w\<rparr>\<rparr>)"
| rc_cancel: "run_count num E call n s s' \<Longrightarrow> run_count num E call n s (cancel_call i s')"

lemma run_count_reach: "run_count num E call n s s' \<Longrightarrow> (run_step num E call)\<^sup>*\<^sup>* s s'"
  by (induction rule: run_count.induct) (auto intro: run_step.intros rtranclp.rtrancl_into_rtrancl)

lemma run_reach_count: "(run_step num E call)\<^sup>*\<^sup>* s s' \<Longrightarrow> \<exists>n. run_count num E call n s s'"
proof (induction rule: rtranclp_induct)
  case base
  show ?case using rc_none by blast
next
  case (step s' s'')
  then show ?case by (auto elim!: run_step.cases intro: run_count.intros)
qed

lemma rank_0: "rank p = 0 \<longleftrightarrow> (\<exists>r. p = Finished r) \<or> p = CallCancelled"
  by (cases p) auto

lemma rank_cancel: "rank (br_phase (cancel_call i s) j) \<le> rank (br_phase s j)"
  by (simp add: cancel_call_def split: call_phase.split)

lemma rank_others_step:
  assumes "task_step num E call i s = Some s'"
  shows "rank (br_phase s' j) \<le> rank (br_phase s j)"
  using rank_step [OF assms] task_step_others [OF assms, of j] by (cases "j = i") auto

lemma rank_sum_step:
  assumes "finite calls" "\<forall>j. j \<notin> calls \<longrightarrow> rank (br_phase s j) = 0" "task_step num E call i s = Some s'"
  shows "(\<Sum>j\<in>calls. rank (br_phase s' j)) < (\<Sum>j\<in>calls. rank (br_phase s j))"
proof -
  have "i \<in> calls" using assms(2) rank_step [OF assms(3)] by force
  then show ?thesis using assms(1) rank_step [OF assms(3)] rank_others_step [OF assms(3)] by (intro sum_strict_mono_ex1) auto
qed

lemma run_count_rank:
  assumes "run_count num E call n s s'" "finite calls"
  shows "\<forall>j. j \<notin> calls \<longrightarrow> rank (br_phase s j) = 0 \<Longrightarrow>
    n + (\<Sum>j\<in>calls. rank (br_phase s' j)) \<le> (\<Sum>j\<in>calls. rank (br_phase s j)) \<and> (\<forall>j. j \<notin> calls \<longrightarrow> rank (br_phase s' j) = 0)"
  using assms(1)
proof (induction rule: run_count.induct)
  case (rc_task n s s' i s'')
  have ih: "n + (\<Sum>j\<in>calls. rank (br_phase s' j)) \<le> (\<Sum>j\<in>calls. rank (br_phase s j))"
    "\<forall>j. j \<notin> calls \<longrightarrow> rank (br_phase s' j) = 0"
    using rc_task by blast+
  have "\<forall>j. j \<notin> calls \<longrightarrow> rank (br_phase s'' j) = 0" using ih(2) rank_others_step [OF rc_task(2)] by (metis le_zero_eq)
  then show ?case using ih(1) rank_sum_step [OF assms(2) ih(2) rc_task(2)] by simp
next
  case (rc_cancel n s s' i)
  have ih: "n + (\<Sum>j\<in>calls. rank (br_phase s' j)) \<le> (\<Sum>j\<in>calls. rank (br_phase s j))"
    "\<forall>j. j \<notin> calls \<longrightarrow> rank (br_phase s' j) = 0"
    using rc_cancel by blast+
  have "(\<Sum>j\<in>calls. rank (br_phase (cancel_call i s') j)) \<le> (\<Sum>j\<in>calls. rank (br_phase s' j))"
    using rank_cancel by (intro sum_mono)
  moreover have "\<forall>j. j \<notin> calls \<longrightarrow> rank (br_phase (cancel_call i s') j) = 0" using ih(2) rank_cancel by (metis le_zero_eq)
  ultimately show ?case using ih(1) by simp
qed auto

section \<open>Properties\<close>

text \<open>
  C23. However calls of the adapter interleave, are cancelled, and the server and the clock move: at
  most one login is under way, and it is the one of the holder of the token lock; each call logs in
  at most twice and sends its request at most twice; every request carries a token; and the
  configuration never changes.
\<close>

theorem token_lock_safe:
  assumes "(run_step num E call)\<^sup>*\<^sup>* (run_start b calls) s" "token_inv b"
  shows "(br_phase s i = LoggingIn r \<longrightarrow> br_lock s = Some i \<and> (\<forall>j r'. br_phase s j = LoggingIn r' \<longrightarrow> j = i))
    \<and> (br_lock s = Some i \<longrightarrow> (\<exists>r. br_phase s i = LoggingIn r))
    \<and> br_logins s i \<le> 2 \<and> br_calls s i \<le> 2
    \<and> (\<forall>r tok. br_phase s i = Calling r tok \<longrightarrow> json_truthy tok)
    \<and> same_config b (br_bao s) \<and> token_inv (br_bao s)"
proof -
  have inv: "run_inv b s" using run_inv_reach [OF assms] .
  have "br_logins s i \<le> 2" "br_calls s i \<le> 2"
    using inv call_counts_le by (auto simp: run_inv_def call_ok_def intro: order_trans)
  moreover have "br_lock s = Some i \<longleftrightarrow> (\<exists>r. br_phase s i = LoggingIn r)" using inv by (simp add: run_inv_def lock_ok_def)
  ultimately show ?thesis using inv lock_holder [of s i r] unfolding run_inv_def call_ok_def by blast
qed

lemma token_lock_safe_witness:
  "br_logins (served 2 2) 0 \<le> 2 \<and> br_calls (served 2 2) 0 \<le> 2 \<and> same_config stale_bao (br_bao (served 2 2))"
proof -
  have "token_inv stale_bao" by (simp add: token_inv_def stale_bao_def json_truthy_def py_def)
  moreover have "revoked_run (\<lambda>_. None) (\<lambda>_. (GET, [], None)) (run_start stale_bao {..<2}) (served 2 2)"
    by (rule stampede) simp
  ultimately show ?thesis by (blast dest: token_lock_safe)
qed

text \<open>
  C24. No set of concurrent calls hangs on the token lock: however they are scheduled and cancelled,
  and whatever the server and the clock do meanwhile, their tasks take at most seven steps each, and
  where none can go on every one of them has ended.
\<close>

theorem calls_all_end:
  assumes "run_count num E call n (run_start b calls) s" "token_inv b" "finite calls"
  shows "n \<le> 7 * card calls
    \<and> ((\<forall>i. task_step num E call i s = None) \<longrightarrow> (\<forall>i. (\<exists>r. br_phase s i = Finished r) \<or> br_phase s i = CallCancelled))"
proof -
  have "(\<Sum>i\<in>calls. rank (br_phase (run_start b calls) i)) = 7 * card calls" by (simp add: run_start_def)
  then have "n \<le> 7 * card calls"
    using run_count_rank [OF assms(1,3)] by (simp add: run_start_def)
  moreover have "lock_ok s" using run_inv_reach [OF run_count_reach [OF assms(1)] assms(2)] by (simp add: run_inv_def)
  ultimately show ?thesis using some_call_goes_on rank_0 by (metis not_None_eq)
qed

lemma calls_all_end_witness:
  "\<exists>n. run_count (\<lambda>_. None) revoked_env (\<lambda>_. (GET, [], None)) n (run_start stale_bao {..<2}) (served 2 2) \<and> n \<le> 14"
proof -
  have "token_inv stale_bao" by (simp add: token_inv_def stale_bao_def json_truthy_def py_def)
  moreover obtain n where
    "run_count (\<lambda>_. None) revoked_env (\<lambda>_. (GET, [], None)) n (run_start stale_bao {..<2}) (served 2 2)"
    using run_reach_count [OF stampede [of 2]] by auto
  ultimately show ?thesis using calls_all_end [of "\<lambda>_. None" revoked_env "\<lambda>_. (GET, [], None)" n stale_bao "{..<2}" "served 2 2"] by auto
qed

text \<open>
  C25. Alone with the adapter a call of the interleaved model does what \<open>_do\<close> does: in seven turns it
  has the same answer, and has left the adapter, its token and the server in the same state.
\<close>

theorem call_alone_is_do:
  assumes "br_phase s i = WantToken False" "br_lock s = None" "call i = (meth, path, body)"
  shows "case bao_do num E (br_bao s) meth path body of (b, r) \<Rightarrow>
    br_phase ((turn num E call i ^^ 7) s) i = Finished r \<and> br_bao ((turn num E call i ^^ 7) s) = b"
proof -
  obtain n where "n \<le> 7" "br_phase ((turn num E call i ^^ n) s) i = Finished (snd (bao_do num E (br_bao s) meth path body))"
    "br_bao ((turn num E call i ^^ n) s) = fst (bao_do num E (br_bao s) meth path body)"
    using do_turns [where call = call, OF assms, of num E] by (auto simp: Let_def)
  then show ?thesis using turns_stay_le [where m = n and n = 7 and i = i and num = num and E = E and call = call and s = s] by (simp split: prod.split)
qed

lemma call_alone_is_do_witness:
  "br_bao ((turn (\<lambda>_. None) revoked_env (\<lambda>_. (GET, [], None)) 0 ^^ 7) (run_start stale_bao {0}))
     = stale_bao\<lparr>bo_token := Some (JStr (py ''t'')), bo_expiry := 60, bo_world := 1\<rparr>"
proof -
  have "JStr (py ''t'') \<noteq> JStr (py ''old'')" by (simp add: py_def)
  then have "bao_do (\<lambda>_. None) revoked_env stale_bao GET [] None =
      (stale_bao\<lparr>bo_token := Some (JStr (py ''t'')), bo_expiry := 60, bo_world := 1\<rparr>, Inr (JObj []))"
    by (simp add: bao_do_def get_token_def stale_fresh stale_bao_def revoked_raw revoked_login example_bao_def
        not_fresh_dropped token_fresh_def)
  then show ?thesis
    using call_alone_is_do [of "run_start stale_bao {0}" 0 "\<lambda>_. (GET, [], None)" GET "[]" None "\<lambda>_. None" revoked_env]
    by (simp add: run_start_def)
qed

text \<open>
  The 403 branch drops whatever token is cached, also one that another call has just fetched:
  when a token is revoked, \<open>n\<close> calls that hold it can take turns to drop the token of the one before and log in,
  \<open>n\<close> logins in all, though the token of the first would have served them all.
\<close>

theorem revoked_token_stampede:
  "\<exists>s. (run_step num revoked_env call)\<^sup>*\<^sup>* (run_start stale_bao {..<Suc n}) s \<and> bo_world (br_bao s) = Suc n
     \<and> br_phase s = (\<lambda>i. if i < Suc n then Finished (Inr (JObj [])) else CallCancelled)
     \<and> br_logins s = (\<lambda>i. if i < Suc n then 1 else 0)"
  by (intro exI [of _ "served (Suc n) (Suc n)"] conjI stampede) (auto simp: served_def)

end
