(* ===== verification/Pollers.thy ===== *)
theory Pollers
  imports EventBus
begin

text \<open>
  \<open>_poll_once\<close> of \<open>omkit/eventbus.py\<close> in small steps: the replicas of a service subscribe under one consumer
  name, and a poll awaits at its query, at every call of the handler and at its update, where the
  polls of the others and the publishers run.  \<open>EventBus\<close> has a poll as one step.
\<close>

declare map_of_eq_Some_iff [simp del] split_paired_All [simp del] split_paired_Ex [simp del]

section \<open>Polls in progress\<close>

text \<open>The rows that are left of the batch, and \<open>last_id\<close>.\<close>

datatype poll_phase = PollIdle | PollLoop "event_row list" nat

record pollers =
  ps_bus :: pg_bus
  ps_poll :: "nat \<Rightarrow> poll_phase"

definition pollers_init :: pollers where
  "pollers_init = \<lparr>ps_bus = bus_init, ps_poll = (\<lambda>_. PollIdle)\<rparr>"

abbreviation set_poll :: "nat \<Rightarrow> poll_phase \<Rightarrow> pollers \<Rightarrow> pollers" where
  "set_poll i p s \<equiv> s\<lparr>ps_poll := (ps_poll s)(i := p)\<rparr>"

text \<open>The query, with the offset as it is now.\<close>

definition fetch_batch :: "(nat \<Rightarrow> subscription) \<Rightarrow> (nat \<Rightarrow> nat) \<Rightarrow> nat \<Rightarrow> pollers \<Rightarrow> pollers" where
  "fetch_batch sub_of batch i s = set_poll i (PollLoop (take (batch i) (unseen (sub_of i) (ps_bus s))) 0) s"

text \<open>One round of the loop; an exception of the parsing or of the handler ends the poll.\<close>

definition handle_row :: "(nat \<Rightarrow> subscription) \<Rightarrow> (event \<Rightarrow> bool) \<Rightarrow> nat \<Rightarrow> pollers \<Rightarrow> pollers" where
  "handle_row sub_of handler i s =
     (case ps_poll s i of
        PollLoop (r # rs) _ \<Rightarrow>
          (case event_of r of
             None \<Rightarrow> set_poll i PollIdle s
           | Some e \<Rightarrow>
               if \<not> handler e then set_poll i PollIdle s
               else set_poll i (PollLoop rs (er_id r))
                      (s\<lparr>ps_bus := (ps_bus s)\<lparr>eb_handled := eb_handled (ps_bus s) @ [(sub_of i, e)]\<rparr>\<rparr>))
      | _ \<Rightarrow> s)"

text \<open>The update at the end, which changes a row that is there; \<open>updated\<close> tells whether it commits.\<close>

definition store_offset :: "(nat \<Rightarrow> subscription) \<Rightarrow> bool \<Rightarrow> nat \<Rightarrow> pollers \<Rightarrow> pollers" where
  "store_offset sub_of updated i s =
     (case ps_poll s i of
        PollLoop [] last_id \<Rightarrow>
          if last_id \<noteq> 0 \<and> updated \<and> sub_of i \<in> set (keys (eb_offsets (ps_bus s))) then
            set_poll i PollIdle (s\<lparr>ps_bus := (ps_bus s)\<lparr>eb_offsets := dset (sub_of i) last_id (eb_offsets (ps_bus s))\<rparr>\<rparr>)
          else set_poll i PollIdle s
      | _ \<Rightarrow> s)"

text \<open>The steps of the polls, of the publishers and of subscriptions, and a poll that is cancelled or dies.\<close>

inductive poller_step ::
    "pg_types \<Rightarrow> bool \<Rightarrow> (nat \<Rightarrow> subscription) \<Rightarrow> (nat \<Rightarrow> nat) \<Rightarrow> pollers \<Rightarrow> pollers \<Rightarrow> bool" for T in_order sub_of batch where
  ps_tables: "bus_step T in_order (ps_bus s) b \<Longrightarrow> poller_step T in_order sub_of batch s (s\<lparr>ps_bus := b\<rparr>)"
| ps_fetch: "ps_poll s i = PollIdle \<Longrightarrow> poller_step T in_order sub_of batch s (fetch_batch sub_of batch i s)"
| ps_handle: "poller_step T in_order sub_of batch s (handle_row sub_of handler i s)"
| ps_store: "poller_step T in_order sub_of batch s (store_offset sub_of updated i s)"
| ps_dies: "poller_step T in_order sub_of batch s (set_poll i PollIdle s)"

section \<open>What is at or below a poll\<close>

lemma handled_upto_0: "ids_ok s \<Longrightarrow> handled_upto s sub 0"
  by (force simp: handled_upto_def ids_ok_def)

lemma handled_upto_step:
  assumes "bus_step T True s s'" "ids_ok s" "handled_upto s sub o'"
  shows "handled_upto s' sub o'"
  using assms(1)
proof (cases rule: bus_step.cases)
  case (insert_row tenant topic payload now)
  from this(1) show ?thesis by (rule insert_event_rows) (use assms(3) in \<open>simp add: handled_upto_def\<close>)
next
  case (commit_row r)
  have "0 < er_id r" using assms(2) commit_row(2) by (auto simp: ids_ok_def)
  then have "\<not> er_id r \<le> o'" using assms(3) commit_row(3) by (force simp: handled_upto_def)
  then show ?thesis using assms(3) commit_row(1) by (auto simp: handled_upto_def)
next
  case (poll batch h upd sub')
  have "set (eb_handled s) \<subseteq> set (eb_handled s')" unfolding poll by (cases rule: poll_once_cases [of batch h upd sub' s]) auto
  then show ?thesis using assms(3) poll handled_upto_mono by simp
qed (use assms(3) in \<open>simp_all add: handled_upto_def\<close>)

text \<open>
  A poll in its loop: everything up to \<open>lo\<close> was handled, and the rows it has left are all the decided
  ones from there to the last of them.
\<close>

definition loop_ok :: "pg_bus \<Rightarrow> subscription \<Rightarrow> event_row list \<Rightarrow> nat \<Rightarrow> nat \<Rightarrow> bool" where
  "loop_ok b sub rs last_id lo =
     (handled_upto b sub lo \<and> (last_id \<noteq> 0 \<longrightarrow> last_id = lo)
      \<and> sorted (map er_id rs) \<and> distinct (map er_id rs)
      \<and> (\<forall>r \<in> set rs. r \<in> set (eb_rows b) \<and> er_topic r = snd sub \<and> lo < er_id r)
      \<and> (\<forall>r \<in> set (eb_rows b). er_topic r = snd sub \<and> lo < er_id r \<and> rs \<noteq> [] \<and> er_id r \<le> er_id (last rs) \<longrightarrow> r \<in> set rs))"

lemma loop_ok_rows:
  "loop_ok b sub rs last_id lo \<Longrightarrow> handled_upto b' sub lo \<Longrightarrow> eb_rows b' = eb_rows b \<Longrightarrow> loop_ok b' sub rs last_id lo"
  unfolding loop_ok_def by metis

lemma loop_ok_fetch:
  assumes "none_skipped b" "ids_ok b"
  shows "\<exists>lo. loop_ok b sub (take n (unseen sub b)) 0 lo"
proof (cases "dget (eb_offsets b) sub")
  case None
  then show ?thesis using handled_upto_0 [OF assms(2), of sub] by (intro exI [of _ 0]) (simp add: loop_ok_def unseen_def)
next
  case (Some o')
  have "sorted (map er_id (take n (unseen sub b)))" "distinct (map er_id (take n (unseen sub b)))"
    using sorted_unseen distinct_unseen [OF assms(2)] by (simp_all add: take_map [symmetric] sorted_wrt_take)
  moreover have "r \<in> set (take n (unseen sub b))"
    if "r \<in> set (eb_rows b)" "er_topic r = snd sub" "o' < er_id r" "take n (unseen sub b) \<noteq> []"
      "er_id r \<le> er_id (last (take n (unseen sub b)))" for r
    using sorted_take_closed [OF sorted_unseen distinct_unseen [OF assms(2)] _ that(4,5)] that(1-3) Some by (auto simp: in_unseen)
  ultimately have "loop_ok b sub (take n (unseen sub b)) 0 o'"
    using assms(1) Some by (auto simp: loop_ok_def none_skipped_def in_unseen dest!: in_set_takeD)
  then show ?thesis by blast
qed

lemma sorted_distinct_least:
  assumes "sorted (map f (x # xs))" "distinct (map f (x # xs))" "y \<in> set (x # xs)" "f y \<le> f x"
  shows "y = x"
  using assms by (auto simp: image_iff) (metis order_antisym)

lemma loop_ok_handle:
  assumes "loop_ok b sub (r # rs) last_id lo" "event_of r = Some e"
  shows "loop_ok (b\<lparr>eb_handled := eb_handled b @ [(sub, e)]\<rparr>) sub rs (er_id r) (er_id r)"
proof -
  have r: "r \<in> set (eb_rows b)" "lo < er_id r" using assms(1) by (auto simp: loop_ok_def)
  have least: "er_id r \<le> er_id (last (r # rs))" using assms(1) by (cases rs rule: rev_cases) (auto simp: loop_ok_def sorted_append)
  have "\<exists>e'. event_of q = Some e' \<and> (sub, e') \<in> set (eb_handled b @ [(sub, e)])"
    if q: "q \<in> set (eb_rows b)" "er_topic q = snd sub" "er_id q \<le> er_id r" for q
  proof (cases "er_id q \<le> lo")
    case True
    then show ?thesis using assms(1) q unfolding loop_ok_def handled_upto_def by fastforce
  next
    case False
    then have "q \<in> set (r # rs)" using assms(1) q least unfolding loop_ok_def by (metis le_trans linorder_not_le list.distinct(1))
    then have "q = r" using sorted_distinct_least [of er_id r rs q] assms(1) q(3) by (simp add: loop_ok_def)
    then show ?thesis using assms(2) by simp
  qed
  then have "handled_upto (b\<lparr>eb_handled := eb_handled b @ [(sub, e)]\<rparr>) sub (er_id r)"
    using r(1) by (simp add: handled_upto_def)
  then show ?thesis using assms(1) unfolding loop_ok_def by (auto simp: order_le_less)
qed

lemma loop_ok_tables:
  assumes "bus_step T True b b'" "ids_ok b" "loop_ok b sub rs last_id lo"
  shows "loop_ok b' sub rs last_id lo"
proof -
  have h: "handled_upto b' sub lo" using handled_upto_step [OF assms(1,2)] assms(3) unfolding loop_ok_def by blast
  from assms(1) show ?thesis
  proof (cases rule: bus_step.cases)
    case (insert_row tenant topic payload now)
    from this(1) show ?thesis by (rule insert_event_rows) (use loop_ok_rows [OF assms(3) h] in simp)
  next
    case (commit_row r)
    have new: "\<not> er_id r \<le> er_id (last rs)" if ne: "rs \<noteq> []"
    proof -
      have "last rs \<in> set (eb_rows b)" using assms(3) last_in_set [OF ne] unfolding loop_ok_def by blast
      then show ?thesis using commit_row(3) by force
    qed
    have rows: "set (eb_rows b') = insert r (set (eb_rows b))" using commit_row(1) by simp
    have "\<forall>q \<in> set (eb_rows b'). er_topic q = snd sub \<and> lo < er_id q \<and> rs \<noteq> [] \<and> er_id q \<le> er_id (last rs) \<longrightarrow> q \<in> set rs"
      using assms(3) new unfolding loop_ok_def rows by (metis insert_iff)
    moreover have "\<forall>q \<in> set rs. q \<in> set (eb_rows b') \<and> er_topic q = snd sub \<and> lo < er_id q"
      using assms(3) unfolding loop_ok_def rows by (metis insert_iff)
    ultimately show ?thesis using assms(3) h unfolding loop_ok_def by metis
  qed (use loop_ok_rows [OF assms(3) h] in simp_all)
qed

lemma handled_upto_more:
  "handled_upto b sub o' \<Longrightarrow> handled_upto (b\<lparr>eb_handled := eb_handled b @ xs, eb_offsets := os\<rparr>) sub o'"
  by (rule handled_upto_mono) auto

text \<open>The invariant of the whole: no offset and no poll has passed an event that was not handled.\<close>

definition pollers_ok :: "(nat \<Rightarrow> subscription) \<Rightarrow> pollers \<Rightarrow> bool" where
  "pollers_ok sub_of s = (ids_ok (ps_bus s) \<and> none_skipped (ps_bus s)
     \<and> (\<forall>i rs l. ps_poll s i = PollLoop rs l \<longrightarrow> (\<exists>lo. loop_ok (ps_bus s) (sub_of i) rs l lo)))"

lemma pollers_okD:
  assumes "pollers_ok sub_of s"
  shows "ids_ok (ps_bus s)" "none_skipped (ps_bus s)" "ps_poll s i = PollLoop rs l \<Longrightarrow> \<exists>lo. loop_ok (ps_bus s) (sub_of i) rs l lo"
  using assms unfolding pollers_ok_def by blast+

lemma loop_ok_more:
  assumes "loop_ok b sub rs l lo"
  shows "loop_ok (b\<lparr>eb_handled := eb_handled b @ xs, eb_offsets := os\<rparr>) sub rs l lo"
proof -
  have "handled_upto b sub lo" using assms by (simp add: loop_ok_def)
  then show ?thesis using loop_ok_rows [OF assms handled_upto_more] by simp
qed

text \<open>A poll may change its phase to one that is in order, the others stay in order with the tables.\<close>

lemma pollers_ok_set:
  assumes "pollers_ok sub_of s" "ids_ok b" "none_skipped b"
    and "\<forall>j rs l lo. loop_ok (ps_bus s) (sub_of j) rs l lo \<longrightarrow> loop_ok b (sub_of j) rs l lo"
    and "\<forall>rs l. p = PollLoop rs l \<longrightarrow> (\<exists>lo. loop_ok b (sub_of i) rs l lo)"
  shows "pollers_ok sub_of (set_poll i p (s\<lparr>ps_bus := b\<rparr>))"
proof -
  have "\<exists>lo. loop_ok b (sub_of j) rs l lo" if "((ps_poll s)(i := p)) j = PollLoop rs l" for j rs l
  proof (cases "j = i")
    case True
    then show ?thesis using that assms(5) by simp
  next
    case False
    then have "ps_poll s j = PollLoop rs l" using that by simp
    then show ?thesis using pollers_okD(3) [OF assms(1)] assms(4) by blast
  qed
  then show ?thesis using assms(2,3) by (simp add: pollers_ok_def)
qed

lemma pollers_ok_idle: "pollers_ok sub_of s \<Longrightarrow> pollers_ok sub_of (set_poll i PollIdle s)"
  using pollers_ok_set [of sub_of s "ps_bus s" PollIdle i] pollers_okD(1,2) [of sub_of s] by simp

lemma pollers_ok_handle:
  assumes "pollers_ok sub_of s"
  shows "pollers_ok sub_of (handle_row sub_of h i s)"
proof (cases "ps_poll s i")
  case (PollLoop rs l)
  show ?thesis
  proof (cases rs)
    case (Cons r rs')
    obtain lo where lo: "loop_ok (ps_bus s) (sub_of i) (r # rs') l lo" using pollers_okD(3) [OF assms] PollLoop Cons by blast
    show ?thesis
    proof (cases "event_of r")
      case None
      then show ?thesis using pollers_ok_idle [OF assms] PollLoop Cons by (simp add: handle_row_def)
    next
      case (Some e)
      let ?b = "(ps_bus s)\<lparr>eb_handled := eb_handled (ps_bus s) @ [(sub_of i, e)]\<rparr>"
      have more: "loop_ok ?b sub qs k lo" if "loop_ok (ps_bus s) sub qs k lo" for sub qs k lo
        using loop_ok_more [OF that, where xs = "[(sub_of i, e)]" and os = "eb_offsets (ps_bus s)"] by simp
      have "none_skipped ?b"
        using pollers_okD(2) [OF assms] handled_upto_more [where b = "ps_bus s" and xs = "[(sub_of i, e)]" and os = "eb_offsets (ps_bus s)"]
        by (simp add: none_skipped_def)
      moreover have "ids_ok ?b" using pollers_okD(1) [OF assms] by (simp add: ids_ok_def)
      ultimately have "pollers_ok sub_of (set_poll i (PollLoop rs' (er_id r)) (s\<lparr>ps_bus := ?b\<rparr>))"
        using loop_ok_handle [OF lo Some] more by (intro pollers_ok_set [OF assms]) blast+
      then show ?thesis using pollers_ok_idle [OF assms] PollLoop Cons Some by (simp add: handle_row_def)
    qed
  qed (use assms PollLoop in \<open>simp add: handle_row_def\<close>)
qed (use assms in \<open>simp add: handle_row_def\<close>)

lemma pollers_ok_store:
  assumes "pollers_ok sub_of s"
  shows "pollers_ok sub_of (store_offset sub_of upd i s)"
proof (cases "ps_poll s i")
  case (PollLoop rs l)
  let ?b = "(ps_bus s)\<lparr>eb_offsets := dset (sub_of i) l (eb_offsets (ps_bus s))\<rparr>"
  obtain lo where lo: "loop_ok (ps_bus s) (sub_of i) rs l lo" using pollers_okD(3) [OF assms] PollLoop by blast
  have more: "handled_upto (ps_bus s) sub o' \<Longrightarrow> handled_upto ?b sub o'" for sub o'
    using handled_upto_more [where b = "ps_bus s" and xs = "[]"] by simp
  have loops: "loop_ok (ps_bus s) sub qs k lo \<Longrightarrow> loop_ok ?b sub qs k lo" for sub qs k lo
    using loop_ok_more [where b = "ps_bus s" and xs = "[]"] by simp
  have "pollers_ok sub_of (set_poll i PollIdle (s\<lparr>ps_bus := ?b\<rparr>))" if "l \<noteq> 0"
  proof (rule pollers_ok_set [OF assms])
    have "handled_upto (ps_bus s) (sub_of i) l" using lo that by (auto simp: loop_ok_def)
    then show "none_skipped ?b" using pollers_okD(2) [OF assms] more by (auto simp: none_skipped_def)
    show "ids_ok ?b" using pollers_okD(1) [OF assms] by (simp add: ids_ok_def)
  qed (use loops in auto)
  then show ?thesis using assms PollLoop pollers_ok_idle [OF assms] by (simp add: store_offset_def split: list.split)
qed (use assms in \<open>simp add: store_offset_def\<close>)

lemma pollers_ok_step:
  assumes "poller_step T True sub_of batch s s'" "pollers_ok sub_of s"
  shows "pollers_ok sub_of s'"
  using assms(1)
proof (cases rule: poller_step.cases)
  case (ps_tables b)
  have "ids_ok b" "none_skipped b" using ps_tables(2) pollers_okD(1,2) [OF assms(2)] ids_ok_step none_skipped_step by blast+
  moreover have "\<exists>lo. loop_ok b (sub_of i) rs l lo" if "ps_poll s i = PollLoop rs l" for i rs l
    using pollers_okD(3) [OF assms(2) that] loop_ok_tables [OF ps_tables(2) pollers_okD(1) [OF assms(2)]] by blast
  ultimately show ?thesis using ps_tables(1) by (simp add: pollers_ok_def)
next
  case (ps_fetch i)
  have "pollers_ok sub_of (set_poll i (PollLoop (take (batch i) (unseen (sub_of i) (ps_bus s))) 0) (s\<lparr>ps_bus := ps_bus s\<rparr>))"
    using loop_ok_fetch [OF pollers_okD(2,1) [OF assms(2)]] pollers_okD(1,2) [OF assms(2)]
    by (intro pollers_ok_set [OF assms(2)]) auto
  then show ?thesis using ps_fetch(1) by (simp add: fetch_batch_def)
next
  case (ps_handle h i)
  then show ?thesis using pollers_ok_handle [OF assms(2)] by simp
next
  case (ps_store upd i)
  then show ?thesis using pollers_ok_store [OF assms(2)] by simp
next
  case (ps_dies i)
  then show ?thesis using pollers_ok_idle [OF assms(2)] by simp
qed

lemma pollers_ok_reach:
  "(poller_step T True sub_of batch)\<^sup>*\<^sup>* pollers_init s \<Longrightarrow> pollers_ok sub_of s"
proof (induction rule: rtranclp_induct)
  case base
  show ?case by (simp add: pollers_ok_def pollers_init_def ids_ok_init none_skipped_def) (simp add: bus_init_def)
qed (rule pollers_ok_step)

section \<open>A poll without interruption\<close>

definition whole_poll ::
    "(nat \<Rightarrow> subscription) \<Rightarrow> (nat \<Rightarrow> nat) \<Rightarrow> (event \<Rightarrow> bool) \<Rightarrow> bool \<Rightarrow> nat \<Rightarrow> pollers \<Rightarrow> pollers" where
  "whole_poll sub_of batch handler updated i s =
     store_offset sub_of updated i
       (fold (\<lambda>_. handle_row sub_of handler i) (take (batch i) (unseen (sub_of i) (ps_bus s))) (fetch_batch sub_of batch i s))"

lemma handle_idle: "ps_poll s i = PollIdle \<Longrightarrow> fold (\<lambda>_. handle_row sub_of h i) xs s = s"
  by (induction xs) (simp_all add: handle_row_def)

lemma handle_rows:
  assumes "ps_poll s i = PollLoop rs l" "deliver h rs = (es, ok)"
  shows "fold (\<lambda>_. handle_row sub_of h i) rs s =
    set_poll i (if ok then PollLoop [] (if rs = [] then l else er_id (last rs)) else PollIdle)
      (s\<lparr>ps_bus := (ps_bus s)\<lparr>eb_handled := eb_handled (ps_bus s) @ map (Pair (sub_of i)) es\<rparr>\<rparr>)"
  using assms
proof (induction rs arbitrary: s l es ok)
  case Nil
  then have "(ps_poll s)(i := PollLoop [] l) = ps_poll s" by auto
  then show ?case using Nil by simp
next
  case (Cons r rs)
  have idle: "fold (\<lambda>_. handle_row sub_of h i) rs (set_poll i PollIdle s) = set_poll i PollIdle s" by (rule handle_idle) simp
  show ?case
  proof (cases "event_of r")
    case None
    then have "handle_row sub_of h i s = set_poll i PollIdle s" using Cons.prems(1) by (simp add: handle_row_def)
    moreover have "\<not> ok" "es = []" using Cons.prems(2) None by auto
    ultimately show ?thesis using idle by (simp add: fun_upd_def)
  next
    case (Some e)
    obtain es' ok' where d: "deliver h rs = (es', ok')" by fastforce
    show ?thesis
    proof (cases "h e")
      case False
      then have "handle_row sub_of h i s = set_poll i PollIdle s" using Cons.prems(1) Some by (simp add: handle_row_def)
      moreover have "\<not> ok" "es = []" using Cons.prems(2) Some False by auto
      ultimately show ?thesis using idle by (simp add: fun_upd_def)
    next
      case True
      let ?s = "set_poll i (PollLoop rs (er_id r)) (s\<lparr>ps_bus := (ps_bus s)\<lparr>eb_handled := eb_handled (ps_bus s) @ [(sub_of i, e)]\<rparr>\<rparr>)"
      have "handle_row sub_of h i s = ?s" using Cons.prems Some True by (simp add: handle_row_def)
      moreover have "ps_poll ?s i = PollLoop rs (er_id r)" by simp
      from Cons.IH [OF this d]
      have "fold (\<lambda>_. handle_row sub_of h i) rs ?s =
          set_poll i (if ok' then PollLoop [] (if rs = [] then er_id r else er_id (last rs)) else PollIdle)
            (?s\<lparr>ps_bus := (ps_bus ?s)\<lparr>eb_handled := eb_handled (ps_bus ?s) @ map (Pair (sub_of i)) es'\<rparr>\<rparr>)" .
      moreover have "ok' = ok" "es = e # es'" using Cons.prems(2) Some True d by auto
      ultimately show ?thesis by (simp add: fun_upd_def cong: if_cong)
    qed
  qed
qed

lemma handle_reach: "(poller_step T b sub_of batch)\<^sup>*\<^sup>* s (fold (\<lambda>_. handle_row sub_of h i) xs s)"
proof (induction xs arbitrary: s)
  case (Cons x xs)
  have "poller_step T b sub_of batch s (handle_row sub_of h i s)" by (rule ps_handle)
  then show ?case using Cons.IH [of "handle_row sub_of h i s"] by (simp add: converse_rtranclp_into_rtranclp)
qed simp

lemma whole_poll_reach:
  assumes "ps_poll s i = PollIdle"
  shows "(poller_step T b sub_of batch)\<^sup>*\<^sup>* s (whole_poll sub_of batch h upd i s)"
proof -
  let ?s = "fetch_batch sub_of batch i s" and ?rows = "take (batch i) (unseen (sub_of i) (ps_bus s))"
  have "poller_step T b sub_of batch s ?s" using assms by (rule ps_fetch)
  also have "(poller_step T b sub_of batch)\<^sup>*\<^sup>* ?s (fold (\<lambda>_. handle_row sub_of h i) ?rows ?s)" by (rule handle_reach)
  also have "poller_step T b sub_of batch (fold (\<lambda>_. handle_row sub_of h i) ?rows ?s) (whole_poll sub_of batch h upd i s)"
    unfolding whole_poll_def by (rule ps_store)
  finally show ?thesis by (simp add: converse_rtranclp_into_rtranclp)
qed

lemma tables_reach:
  assumes "(bus_step T b)\<^sup>*\<^sup>* x y"
  shows "(poller_step T b sub_of batch)\<^sup>*\<^sup>* \<lparr>ps_bus = x, ps_poll = f\<rparr> \<lparr>ps_bus = y, ps_poll = f\<rparr>"
  using assms
proof (induction rule: rtranclp_induct)
  case (step y z)
  have "poller_step T b sub_of batch \<lparr>ps_bus = y, ps_poll = f\<rparr> \<lparr>ps_bus = z, ps_poll = f\<rparr>"
    using ps_tables [of T b "\<lparr>ps_bus = y, ps_poll = f\<rparr>" z] step(2) by simp
  then show ?case using step(3) by simp
qed simp

section \<open>Two replicas\<close>

text \<open>Replica 0 has fetched the first event and is slow; replica 1 takes both events meanwhile.\<close>

definition toy_call :: "nat \<Rightarrow> subscription \<times> event" where
  "toy_call i = (toy_sub, the (event_of (toy_event i)))"

definition two_events :: "nat \<Rightarrow> (subscription \<times> event) list \<Rightarrow> pg_bus" where
  "two_events o' hs = toy_state [toy_event 1, toy_event 2] [] 3 [(toy_sub, o')] hs"

abbreviation one_sub :: "nat \<Rightarrow> subscription" where "one_sub \<equiv> \<lambda>_. toy_sub"
abbreviation one_row :: "nat \<Rightarrow> nat" where "one_row \<equiv> \<lambda>_. 1"

definition race :: pollers where
  "race = \<lparr>ps_bus = two_events 2 [toy_call 1, toy_call 2, toy_call 1], ps_poll = (\<lambda>_. PollIdle)(0 := PollLoop [] 1)\<rparr>"

lemma two_events_reach: "(bus_step toy_types True)\<^sup>*\<^sup>* bus_init (two_events 0 [])"
proof -
  have "(bus_step toy_types True)\<^sup>*\<^sup>* bus_init (toy_state [toy_event 1] [] 2 [] [])"
    using toy_insert_step [of True "[]" "[]" 1 "[]" "[]"] toy_commit_step [of "toy_event 1" "[toy_event 1]" True "[]" 2 "[]" "[]"]
    by (simp add: toy_init numeral_2_eq_2)
  also have "(bus_step toy_types True)\<^sup>*\<^sup>* \<dots> (toy_state [toy_event 1, toy_event 2] [] 3 [] [])"
    using toy_insert_step [of True "[toy_event 1]" "[]" 2 "[]" "[]"] toy_commit_step [of "toy_event 2" "[toy_event 2]" True "[toy_event 1]" 3 "[]" "[]"]
    by (simp add: numeral_3_eq_3 numeral_2_eq_2)
  also have "(bus_step toy_types True)\<^sup>*\<^sup>* \<dots> (two_events 0 [])"
    using toy_subscribe_step [of True "[toy_event 1, toy_event 2]" "[]" 3 "[]"] by (simp add: two_events_def)
  finally show ?thesis .
qed

lemma two_events_unseen:
  "unseen toy_sub (two_events 0 hs) = [toy_event 1, toy_event 2]" "unseen toy_sub (two_events 1 hs) = [toy_event 2]"
  by (simp_all add: unseen_def two_events_def toy_state_def toy_sub_def)

lemma race_reach: "(poller_step toy_types True one_sub one_row)\<^sup>*\<^sup>* pollers_init race"
proof -
  let ?R = "(poller_step toy_types True one_sub one_row)\<^sup>*\<^sup>*"
  let ?f = "(\<lambda>_. PollIdle)(0 := PollLoop [toy_event 1] 0)"
  let ?s = "\<lambda>o' hs. \<lparr>ps_bus = two_events o' hs, ps_poll = ?f\<rparr>"
  have one: "whole_poll one_sub one_row (\<lambda>_. True) True 1 (?s 0 []) = ?s 1 [toy_call 1]"
    by (simp add: whole_poll_def fetch_batch_def two_events_unseen [unfolded One_nat_def] handle_row_def store_offset_def toy_event_of)
      (auto simp: two_events_def toy_state_def toy_call_def toy_event_of fun_upd_def)
  have two: "whole_poll one_sub one_row (\<lambda>_. True) True 1 (?s 1 [toy_call 1]) = ?s 2 [toy_call 1, toy_call 2]"
    by (simp add: whole_poll_def fetch_batch_def two_events_unseen [unfolded One_nat_def] handle_row_def store_offset_def toy_event_of)
      (auto simp: two_events_def toy_state_def toy_call_def toy_event_of fun_upd_def)
  have "?R pollers_init \<lparr>ps_bus = two_events 0 [], ps_poll = (\<lambda>_. PollIdle)\<rparr>"
    using tables_reach [OF two_events_reach] by (simp add: pollers_init_def)
  also have "?R \<dots> (?s 0 [])"
    using ps_fetch [of "\<lparr>ps_bus = two_events 0 [], ps_poll = (\<lambda>_. PollIdle)\<rparr>" 0 toy_types True one_sub one_row]
    by (simp add: fetch_batch_def two_events_unseen)
  also have "?R \<dots> (?s 1 [toy_call 1])" unfolding one [symmetric] by (rule whole_poll_reach) simp
  also have "?R \<dots> (?s 2 [toy_call 1, toy_call 2])" unfolding two [symmetric] by (rule whole_poll_reach) simp
  also have "?R \<dots> race"
    using ps_handle [of toy_types True one_sub one_row "?s 2 [toy_call 1, toy_call 2]" "\<lambda>_. True" 0]
    by (simp add: handle_row_def toy_event_of race_def two_events_def toy_state_def toy_call_def)
  finally show ?thesis .
qed

section \<open>Properties\<close>

text \<open>
  C15. However many replicas poll under one consumer name and however their polls, their crashes and the publishers
  interleave: when transactions commit in the order of their ids, every committed event at or below
  the offset was handled by one of them; an offset that a slower poll moves back is still one with that property.
\<close>

theorem pollers_never_skip:
  assumes "(poller_step T True sub_of batch)\<^sup>*\<^sup>* pollers_init s" "dget (eb_offsets (ps_bus s)) sub = Some o'"
    and "r \<in> set (eb_rows (ps_bus s))" "er_topic r = snd sub" "er_id r \<le> o'"
  shows "\<exists>e. event_of r = Some e \<and> (sub, e) \<in> set (eb_handled (ps_bus s))"
proof -
  have "handled_upto (ps_bus s) sub o'" using pollers_okD(2) [OF pollers_ok_reach [OF assms(1)]] assms(2) by (simp add: none_skipped_def)
  then show ?thesis using assms(3-5) by (simp add: handled_upto_def)
qed

lemma pollers_never_skip_witness:
  "\<exists>e. event_of (toy_event 2) = Some e \<and> (toy_sub, e) \<in> set (eb_handled (ps_bus race)) \<and> ps_poll race 0 = PollLoop [] 1"
proof -
  have "dget (eb_offsets (ps_bus race)) toy_sub = Some 2" "toy_event 2 \<in> set (eb_rows (ps_bus race))" "er_topic (toy_event 2) = snd toy_sub"
    by (simp_all add: race_def two_events_def toy_state_def toy_sub_def)
  from pollers_never_skip [OF race_reach this] show ?thesis by (auto simp: race_def)
qed

text \<open>
  A poll that nothing interrupts, in its small steps, is the poll of the atomic model, errors
  included.
\<close>

theorem whole_poll_is_poll_once:
  "whole_poll sub_of batch h upd i s =
     (set_poll i PollIdle s)\<lparr>ps_bus := poll_once (batch i) h upd (sub_of i) (ps_bus s)\<rparr>"
proof -
  let ?rows = "take (batch i) (unseen (sub_of i) (ps_bus s))"
  obtain es ok where d: "deliver h ?rows = (es, ok)" by fastforce
  have f: "ps_poll (fetch_batch sub_of batch i s) i = PollLoop ?rows 0" by (simp add: fetch_batch_def)
  have "sub_of i \<in> set (keys (eb_offsets (ps_bus s)))" if ne: "?rows \<noteq> []"
  proof -
    have "hd ?rows \<in> set (unseen (sub_of i) (ps_bus s))" using hd_in_set [OF ne] by (rule in_set_takeD)
    then show ?thesis using dget_None_iff [of "eb_offsets (ps_bus s)" "sub_of i"] by (auto simp: in_unseen)
  qed
  then show ?thesis
    unfolding whole_poll_def handle_rows [OF f d]
    by (auto simp: store_offset_def fetch_batch_def poll_once_def d Let_def)
qed

text \<open>
  C29. The update is unconditional: where another poll of the same consumer has stored a later offset meanwhile, it moves the
  offset back, and every event in between, though it has been handled without any failure, is handed over
  again by the next poll.
\<close>

theorem slow_poll_moves_offset_back:
  assumes "(poller_step T True sub_of batch)\<^sup>*\<^sup>* pollers_init s" "ps_poll s i = PollLoop [] l" "l \<noteq> 0"
    and "dget (eb_offsets (ps_bus s)) (sub_of i) = Some o'" "l < o'"
  defines "s' \<equiv> store_offset sub_of True i s"
  shows "dget (eb_offsets (ps_bus s')) (sub_of i) = Some l
    \<and> (\<forall>r. r \<in> set (eb_rows (ps_bus s)) \<and> er_topic r = snd (sub_of i) \<and> l < er_id r \<and> er_id r \<le> o' \<longrightarrow>
         (\<exists>e. event_of r = Some e \<and> (sub_of i, e) \<in> set (eb_handled (ps_bus s'))) \<and> r \<in> set (unseen (sub_of i) (ps_bus s')))"
proof -
  have "sub_of i \<in> set (keys (eb_offsets (ps_bus s)))" using assms(4) dget_None_iff [of "eb_offsets (ps_bus s)" "sub_of i"] by simp
  then have s': "s' = set_poll i PollIdle (s\<lparr>ps_bus := (ps_bus s)\<lparr>eb_offsets := dset (sub_of i) l (eb_offsets (ps_bus s))\<rparr>\<rparr>)"
    using assms(2,3) by (simp add: s'_def store_offset_def)
  have "handled_upto (ps_bus s) (sub_of i) o'"
    using pollers_okD(2) [OF pollers_ok_reach [OF assms(1)]] assms(4) by (simp add: none_skipped_def)
  then show ?thesis by (auto simp: s' in_unseen handled_upto_def)
qed

lemma slow_poll_moves_offset_back_witness:
  "\<exists>s'. (poller_step toy_types True one_sub one_row)\<^sup>*\<^sup>* pollers_init s'
    \<and> dget (eb_offsets (ps_bus race)) toy_sub = Some 2 \<and> dget (eb_offsets (ps_bus s')) toy_sub = Some 1
    \<and> toy_event 2 \<in> set (unseen toy_sub (ps_bus s'))"
proof -
  let ?s = "store_offset one_sub True 0 race"
  have r: "ps_poll race 0 = PollLoop [] 1" "dget (eb_offsets (ps_bus race)) toy_sub = Some 2" "toy_event 2 \<in> set (eb_rows (ps_bus race))"
    by (simp_all add: race_def two_events_def toy_state_def)
  have "(poller_step toy_types True one_sub one_row)\<^sup>*\<^sup>* pollers_init ?s"
    using race_reach ps_store by (rule rtranclp.rtrancl_into_rtrancl)
  then show ?thesis
    using slow_poll_moves_offset_back [OF race_reach r(1) _ r(2)] r(2,3) by (intro exI [of _ ?s]) (simp add: toy_sub_def)
qed

end
