(* ===== verification/ModelTasks.thy ===== *)
theory ModelTasks
  imports Lifecycle
begin

text \<open>
  \<open>omkit/model_lifecycle.py\<close> with callers that are cancelled: a task that waits for \<open>_do_load\<close> or
  \<open>_do_unload\<close> leaves the lock when it is cancelled (\<open>except Exception\<close> does not see a
  \<open>CancelledError\<close>), but the executor's thread runs on.  \<open>Lifecycle\<close> has the calls and the lock; here are the
  threads without a caller, and the reaper whose task \<open>stop_reaper\<close> and \<open>start_reaper\<close> cancel.
\<close>

section \<open>Threads without a caller\<close>

text \<open>
  How many such threads load a model, whose object nobody gets, and the objects that such threads release.
\<close>

record model_tasks =
  mt_lc :: lifecycle
  mt_loads :: nat
  mt_unloads :: "nat list"

definition model_tasks_init :: model_tasks where
  "model_tasks_init = \<lparr>mt_lc = lifecycle_init, mt_loads = 0, mt_unloads = []\<rparr>"

definition cancel_load :: "model_tasks \<Rightarrow> model_tasks" where
  "cancel_load s = s\<lparr>mt_lc := (mt_lc s)\<lparr>lc_phase := Resting\<rparr>, mt_loads := Suc (mt_loads s)\<rparr>"

definition cancel_unload :: "model_tasks \<Rightarrow> model_tasks" where
  "cancel_unload s =
     s\<lparr>mt_lc := (mt_lc s)\<lparr>lc_phase := Resting\<rparr>,
       mt_unloads := (case lc_model (mt_lc s) of None \<Rightarrow> mt_unloads s | Some m \<Rightarrow> m # mt_unloads s)\<rparr>"

text \<open>The thread of a cancelled unload ends, having released the object unless it raises.\<close>

definition end_orphan :: "nat \<Rightarrow> bool \<Rightarrow> model_tasks \<Rightarrow> model_tasks" where
  "end_orphan m ok s =
     s\<lparr>mt_unloads := remove1 m (mt_unloads s),
       mt_lc := (mt_lc s)\<lparr>lc_memory := (if ok then removeAll m (lc_memory (mt_lc s)) else lc_memory (mt_lc s))\<rparr>\<rparr>"

text \<open>With \<open>unloads\<close> a caller of \<open>unload\<close> may be cancelled as well.\<close>

inductive model_step :: "bool \<Rightarrow> model_tasks \<Rightarrow> model_tasks \<Rightarrow> bool" for unloads where
  md_calls: "lifecycle_step (mt_lc s) l \<Longrightarrow> (\<forall>m. lc_model l = Some m \<and> lc_model (mt_lc s) \<noteq> Some m \<longrightarrow> m \<notin> set (mt_unloads s)) \<Longrightarrow>
    model_step unloads s (s\<lparr>mt_lc := l\<rparr>)"
| md_cancel_load: "lc_phase (mt_lc s) = Loading \<Longrightarrow> model_step unloads s (cancel_load s)"
| md_cancel_unload: "unloads \<Longrightarrow> lc_phase (mt_lc s) = Unloading \<Longrightarrow> model_step unloads s (cancel_unload s)"
| md_load_ends: "0 < mt_loads s \<Longrightarrow> model_step unloads s (s\<lparr>mt_loads := mt_loads s - 1\<rparr>)"
| md_unload_ends: "m \<in> set (mt_unloads s) \<Longrightarrow> model_step unloads s (end_orphan m ok s)"

section \<open>The reaper's task\<close>

text \<open>
  The task sleeps, or waits for the unload of one model; it is gone when it was cancelled.  The models
  are those of the registry.
\<close>

datatype reaper_task = ReaperGone | ReaperSleeps | ReaperUnloads pystr

record reaper_run =
  rp_models :: "(pystr, model_tasks) dict"
  rp_ttl :: rat
  rp_task :: reaper_task
  rp_counts :: "(pystr \<times> string) list"

abbreviation set_model :: "pystr \<Rightarrow> model_tasks \<Rightarrow> reaper_run \<Rightarrow> reaper_run" where
  "set_model n x s \<equiv> s\<lparr>rp_models := dset n x (rp_models s)\<rparr>"

text \<open>An idle model that nobody else loads or unloads: it is counted, and its unload begins.\<close>

definition reaper_begins :: "rat \<Rightarrow> pystr \<Rightarrow> reaper_run \<Rightarrow> reaper_run option" where
  "reaper_begins now n s =
     (case dget (rp_models s) n of
        None \<Rightarrow> None
      | Some x \<Rightarrow>
          if rp_task s = ReaperSleeps \<and> 0 < rp_ttl s \<and> is_idle now (rp_ttl s) (mt_lc x) \<and> lc_phase (mt_lc x) = Resting then
            Some (set_model n (x\<lparr>mt_lc := begin_unload (mt_lc x)\<rparr>)
              (s\<lparr>rp_task := ReaperUnloads n, rp_counts := rp_counts s @ [(n, ''idle'')]\<rparr>))
          else None)"

definition reaper_ends :: "bool \<Rightarrow> reaper_run \<Rightarrow> reaper_run option" where
  "reaper_ends ok s =
     (case rp_task s of
        ReaperUnloads n \<Rightarrow>
          (case dget (rp_models s) n of
             None \<Rightarrow> None
           | Some x \<Rightarrow> Some (set_model n (x\<lparr>mt_lc := end_unload ok (mt_lc x)\<rparr>) (s\<lparr>rp_task := ReaperSleeps\<rparr>)))
      | _ \<Rightarrow> None)"

text \<open>\<open>cancel()\<close> on the reaper's task, which leaves the unload it waits for; a new task starts asleep.\<close>

definition cancel_reaper :: "reaper_run \<Rightarrow> reaper_run" where
  "cancel_reaper s =
     (case rp_task s of
        ReaperUnloads n \<Rightarrow>
          (case dget (rp_models s) n of
             None \<Rightarrow> s\<lparr>rp_task := ReaperGone\<rparr>
           | Some x \<Rightarrow> set_model n (cancel_unload x) (s\<lparr>rp_task := ReaperGone\<rparr>))
      | _ \<Rightarrow> s\<lparr>rp_task := ReaperGone\<rparr>)"

definition restart_reaper :: "rat \<Rightarrow> reaper_run \<Rightarrow> reaper_run" where
  "restart_reaper ttl s = (cancel_reaper s)\<lparr>rp_ttl := ttl, rp_task := ReaperSleeps\<rparr>"

text \<open>\<open>unload_all\<close> up to its first unload that waits: the reaper is stopped, a loaded model is counted and unloaded.\<close>

definition shutdown_begins :: "pystr \<Rightarrow> reaper_run \<Rightarrow> reaper_run option" where
  "shutdown_begins n s0 =
     (let s = cancel_reaper s0 in
      case dget (rp_models s) n of
        None \<Rightarrow> None
      | Some x \<Rightarrow>
          if is_loaded (mt_lc x) \<and> lc_phase (mt_lc x) = Resting then
            Some (set_model n (x\<lparr>mt_lc := begin_unload (mt_lc x)\<rparr>) (s\<lparr>rp_counts := rp_counts s @ [(n, ''shutdown'')]\<rparr>))
          else None)"

section \<open>Lemmas\<close>

text \<open>At most the visible object is in memory; it is there unless an unload was cancelled.\<close>

definition tasks_ok :: "bool \<Rightarrow> model_tasks \<Rightarrow> bool" where
  "tasks_ok unloads s =
     ((let l = mt_lc s in
        (lc_phase l = Loading \<longrightarrow> lc_model l = None) \<and> (lc_phase l = Unloading \<longrightarrow> lc_model l \<noteq> None)
        \<and> (lc_gauge l \<longrightarrow> lc_model l \<noteq> None \<and> lc_phase l = Resting)
        \<and> (lc_memory l = [] \<or> (\<exists>m. lc_model l = Some m \<and> lc_memory l = [m]))
        \<and> (lc_model l \<noteq> None \<and> lc_memory l = [] \<longrightarrow> unloads))
      \<and> (mt_unloads s \<noteq> [] \<longrightarrow> unloads))"

lemma tasks_ok_init: "tasks_ok unloads model_tasks_init"
  by (simp add: tasks_ok_def model_tasks_init_def lifecycle_init_def Let_def)

lemma tasks_ok_calls:
  assumes "lifecycle_step (mt_lc s) l" "tasks_ok unloads s"
  shows "tasks_ok unloads (s\<lparr>mt_lc := l\<rparr>)"
  using assms
  by (cases rule: lifecycle_step.cases)
    (auto simp: tasks_ok_def Let_def begin_ensure_def end_load_def begin_unload_def end_unload_def touch_def split: option.splits)

lemma tasks_ok_step: "model_step unloads s s' \<Longrightarrow> tasks_ok unloads s \<Longrightarrow> tasks_ok unloads s'"
proof (induction rule: model_step.induct)
  case (md_calls s l)
  then show ?case using tasks_ok_calls by blast
next
  case (md_unload_ends m s ok)
  let ?l = "mt_lc s" and ?mem = "lc_memory (mt_lc (end_orphan m ok s))"
  have "?mem = [] \<or> ?mem = lc_memory ?l" if "lc_memory ?l = [] \<or> (\<exists>k. lc_model ?l = Some k \<and> lc_memory ?l = [k])"
    using that by (auto simp: end_orphan_def split: if_splits)
  moreover have "unloads" using md_unload_ends by (auto simp: tasks_ok_def)
  moreover have "lc_phase (mt_lc (end_orphan m ok s)) = lc_phase ?l" "lc_model (mt_lc (end_orphan m ok s)) = lc_model ?l"
    "lc_gauge (mt_lc (end_orphan m ok s)) = lc_gauge ?l" by (simp_all add: end_orphan_def)
  ultimately show ?case using md_unload_ends(2) unfolding tasks_ok_def Let_def by metis
qed (auto simp: tasks_ok_def Let_def cancel_load_def cancel_unload_def end_orphan_def split: option.splits)

lemma tasks_ok_reach: "(model_step unloads)\<^sup>*\<^sup>* model_tasks_init s \<Longrightarrow> tasks_ok unloads s"
  by (induction rule: rtranclp_induct) (auto intro: tasks_ok_init tasks_ok_step)

lemma md_step_reach: "(model_step b)\<^sup>*\<^sup>* x s \<Longrightarrow> model_step b s s' \<Longrightarrow> (model_step b)\<^sup>*\<^sup>* x s'"
  by (rule rtranclp.rtrancl_into_rtrancl)

text \<open>A model that is loaded, one whose unload has begun, and the reaper over such a model.\<close>

definition loaded_tasks :: model_tasks where
  "loaded_tasks = model_tasks_init\<lparr>mt_lc := end_load 2 (Some 4) (begin_ensure 1 lifecycle_init)\<rparr>"

definition unloading_tasks :: model_tasks where
  "unloading_tasks = loaded_tasks\<lparr>mt_lc := begin_unload (mt_lc loaded_tasks)\<rparr>"

definition reaper_over :: "model_tasks \<Rightarrow> reaper_task \<Rightarrow> reaper_run" where
  "reaper_over x t = \<lparr>rp_models = [(py ''llm'', x)], rp_ttl = 300, rp_task = t, rp_counts = []\<rparr>"

lemma loaded_tasks_reach: "(model_step b)\<^sup>*\<^sup>* model_tasks_init loaded_tasks"
proof -
  let ?a = "model_tasks_init\<lparr>mt_lc := begin_ensure 1 lifecycle_init\<rparr>"
  have l: "mt_lc model_tasks_init = lifecycle_init" "mt_unloads ?a = []" "mt_unloads model_tasks_init = []"
    by (simp_all add: model_tasks_init_def)
  have "lifecycle_step (mt_lc model_tasks_init) (begin_ensure 1 lifecycle_init)" unfolding l(1) by (rule ensure) (simp add: lifecycle_init_def)
  then have 1: "model_step b model_tasks_init ?a" by (rule md_calls) (simp add: l)
  have "lifecycle_step (mt_lc ?a) (end_load 2 (Some 4) (begin_ensure 1 lifecycle_init))"
    using loaded [of "begin_ensure 1 lifecycle_init" "Some 4" 2] by (simp add: begin_ensure_def lifecycle_init_def)
  then have "model_step b ?a (?a\<lparr>mt_lc := end_load 2 (Some 4) (begin_ensure 1 lifecycle_init)\<rparr>)" by (rule md_calls) (simp add: l)
  then show ?thesis using 1 by (auto simp: loaded_tasks_def)
qed

lemma unloading_tasks_reach: "(model_step b)\<^sup>*\<^sup>* model_tasks_init unloading_tasks"
proof -
  have "lifecycle_step (mt_lc loaded_tasks) (begin_unload (mt_lc loaded_tasks))"
    by (rule unload) (simp add: loaded_tasks_def end_load_def begin_ensure_def lifecycle_init_def)
  then have "model_step b loaded_tasks unloading_tasks" unfolding unloading_tasks_def
    by (rule md_calls) (simp add: loaded_tasks_def model_tasks_init_def)
  then show ?thesis by (rule md_step_reach [OF loaded_tasks_reach])
qed

section \<open>Properties\<close>



text \<open>
  The lock does not bound the loads that run at once: each caller that is cancelled while it waits leaves the
  lock and its thread behind, and the next one starts another, so that \<open>n\<close> cancelled callers
  and a waiting one have \<open>n + 1\<close> loads under way.
\<close>

theorem cancelled_loads_pile_up:
  "\<exists>s. (model_step False)\<^sup>*\<^sup>* model_tasks_init s \<and> mt_loads s = n \<and> lc_phase (mt_lc s) = Loading"
proof (induction n)
  case 0
  have "lifecycle_step (mt_lc model_tasks_init) (begin_ensure 0 (mt_lc model_tasks_init))"
    by (rule ensure) (simp add: model_tasks_init_def lifecycle_init_def)
  then have "model_step False model_tasks_init (model_tasks_init\<lparr>mt_lc := begin_ensure 0 (mt_lc model_tasks_init)\<rparr>)"
    by (rule md_calls) (simp add: model_tasks_init_def)
  then show ?case by (intro exI [of _ "model_tasks_init\<lparr>mt_lc := begin_ensure 0 (mt_lc model_tasks_init)\<rparr>"])
    (auto simp: begin_ensure_def model_tasks_init_def lifecycle_init_def)
next
  case (Suc n)
  then obtain s where s: "(model_step False)\<^sup>*\<^sup>* model_tasks_init s" "mt_loads s = n" "lc_phase (mt_lc s) = Loading" by blast
  let ?c = "cancel_load s"
  let ?t = "?c\<lparr>mt_lc := begin_ensure 0 (mt_lc ?c)\<rparr>"
  have none: "lc_model (mt_lc s) = None" using tasks_ok_reach [OF s(1)] s(3) by (simp add: tasks_ok_def Let_def)
  have "lifecycle_step (mt_lc ?c) (begin_ensure 0 (mt_lc ?c))" by (rule ensure) (simp add: cancel_load_def)
  then have "model_step False ?c ?t" by (rule md_calls) (simp add: begin_ensure_def cancel_load_def none)
  then have "(model_step False)\<^sup>*\<^sup>* model_tasks_init ?t"
    using md_step_reach [OF s(1) md_cancel_load [OF s(3)]] md_step_reach by blast
  then show ?case using s(2) none by (intro exI [of _ ?t]) (simp add: begin_ensure_def cancel_load_def)
qed

text \<open>
  C34. Stopping the reaper while it unloads a model: the thread goes on and releases the object, but the model stays
  visible, at rest; until something unloads it every \<open>ensure_loaded\<close> returns at once and hands out a released object,
  and the gauge stays at 0.
\<close>

theorem stopped_reaper_leaves_released_model:
  assumes "rp_task s = ReaperUnloads n" "dget (rp_models s) n = Some x"
    and "(model_step True)\<^sup>*\<^sup>* model_tasks_init x" "lc_phase (mt_lc x) = Unloading"
  shows "\<exists>y m. dget (rp_models (cancel_reaper s)) n = Some y \<and> (model_step True)\<^sup>*\<^sup>* model_tasks_init y
    \<and> m \<in> set (mt_unloads y)
    \<and> (let l = mt_lc (end_orphan m True y) in
        is_loaded l \<and> lc_phase l = Resting \<and> m \<notin> set (lc_memory l) \<and> lc_model l = Some m \<and> \<not> lc_gauge l
        \<and> (\<forall>now. begin_ensure now l = l\<lparr>lc_last_used := now\<rparr>))"
proof -
  have ok: "tasks_ok True x" by (rule tasks_ok_reach [OF assms(3)])
  then obtain m where m: "lc_model (mt_lc x) = Some m" using assms(4) by (auto simp: tasks_ok_def Let_def)
  have y: "dget (rp_models (cancel_reaper s)) n = Some (cancel_unload x)" using assms(1,2) by (simp add: cancel_reaper_def)
  have "(model_step True)\<^sup>*\<^sup>* model_tasks_init (cancel_unload x)" by (rule md_step_reach [OF assms(3) md_cancel_unload [OF _ assms(4)]]) simp
  moreover have "\<not> lc_gauge (mt_lc x)" using ok assms(4) by (auto simp: tasks_ok_def Let_def)
  ultimately show ?thesis using y m
    by (intro exI [of _ "cancel_unload x"] exI [of _ m])
      (simp add: cancel_unload_def end_orphan_def is_loaded_def begin_ensure_def Let_def)
qed

lemma stopped_reaper_leaves_released_model_witness:
  "\<exists>y m. dget (rp_models (cancel_reaper (reaper_over unloading_tasks (ReaperUnloads (py ''llm''))))) (py ''llm'') = Some y
    \<and> m \<in> set (mt_unloads y) \<and> is_loaded (mt_lc (end_orphan m True y)) \<and> m \<notin> set (lc_memory (mt_lc (end_orphan m True y)))"
proof -
  let ?s = "reaper_over unloading_tasks (ReaperUnloads (py ''llm''))"
  have "rp_task ?s = ReaperUnloads (py ''llm'')" "dget (rp_models ?s) (py ''llm'') = Some unloading_tasks" by (simp_all add: reaper_over_def)
  moreover have "lc_phase (mt_lc unloading_tasks) = Unloading"
    by (simp add: unloading_tasks_def loaded_tasks_def begin_unload_def end_load_def)
  ultimately show ?thesis
    using stopped_reaper_leaves_released_model [OF _ _ unloading_tasks_reach] unfolding Let_def by blast
qed

text \<open>
  And \<open>unload_all\<close> in that moment, which stops the reaper first, runs \<open>_do_unload\<close> a second time beside the
  first, on the same object; the unload is counted twice, as idle and as shutdown.
\<close>

theorem shutdown_unloads_twice:
  assumes "reaper_begins now n s = Some s1"
  shows "\<exists>s2 x m. shutdown_begins n s1 = Some s2 \<and> dget (rp_models s2) n = Some x
    \<and> lc_phase (mt_lc x) = Unloading \<and> lc_model (mt_lc x) = Some m \<and> m \<in> set (mt_unloads x)
    \<and> rp_counts s2 = rp_counts s @ [(n, ''idle''), (n, ''shutdown'')]"
  using assms
  by (auto simp: reaper_begins_def shutdown_begins_def cancel_reaper_def cancel_unload_def begin_unload_def is_idle_def
      is_loaded_def Let_def split: option.splits if_splits)

lemma shutdown_unloads_twice_witness:
  "\<exists>s1 s2. reaper_begins 400 (py ''llm'') (reaper_over loaded_tasks ReaperSleeps) = Some s1 \<and> shutdown_begins (py ''llm'') s1 = Some s2
    \<and> rp_counts s2 = [(py ''llm'', ''idle''), (py ''llm'', ''shutdown'')]"
proof -
  obtain s1 where s1: "reaper_begins 400 (py ''llm'') (reaper_over loaded_tasks ReaperSleeps) = Some s1"
    by (simp add: reaper_begins_def reaper_over_def loaded_tasks_def end_load_def is_idle_def is_loaded_def)
  then show ?thesis using shutdown_unloads_twice [OF s1] by (auto simp: reaper_over_def)
qed

end
