(* ===== verification/SchedulerCancel.thy ===== *)
theory SchedulerCancel
  imports Scheduler
begin

text \<open>
  A reconcile of \<open>omkit/scheduler/scheduler.py\<close> that is cancelled: \<open>stop\<close> cancels the loop's task wherever it
  waits, and \<open>except Exception\<close> does not catch a \<open>CancelledError\<close>.  \<open>Scheduler\<close> has a reconcile as one step; here
  it is cut at one of its awaits, and what was sent to the backend may have taken effect there.
\<close>

declare map_of_eq_Some_iff [simp del]

section \<open>A reconcile up to its cancellation\<close>

text \<open>
  \<open>Going s n r\<close>: the code has gone on, \<open>n\<close> more awaits return before the cancellation comes, and \<open>r\<close> is the flag of the
  uncut operation; \<open>CutOff s\<close>: the cancellation came.  \<open>took\<close> tells whether the call that it interrupted took
  effect outside.
\<close>

datatype 'w cut_run = Going "'w sched" nat bool | CutOff "'w sched"

definition unregister_cut :: "'w sched_env \<Rightarrow> bool \<Rightarrow> pystr \<Rightarrow> nat \<Rightarrow> 'w sched \<Rightarrow> 'w cut_run" where
  "unregister_cut E took k n s =
     (case dget (sc_entries s) k of
        None \<Rightarrow> Going s n False
      | Some ent \<Rightarrow>
          (case n of
             0 \<Rightarrow> CutOff (if took then s\<lparr>sc_world := fst (se_unregister E (ent_id ent) (sc_world s))\<rparr> else s)
           | Suc m \<Rightarrow> (case unregister_entry E k s of (s', ok) \<Rightarrow> Going s' m ok)))"

definition register_cut ::
    "'w sched_env \<Rightarrow> bool \<Rightarrow> pystr \<Rightarrow> provider \<Rightarrow> pystr \<Rightarrow> pystr \<Rightarrow> nat \<Rightarrow> 'w sched \<Rightarrow> 'w cut_run" where
  "register_cut E took k p cronspec h n s =
     (case register_body E p of
        Inl _ \<Rightarrow> Going s n False
      | Inr body \<Rightarrow>
          (case (n, se_register E cronspec (se_task_type E) body (se_queue E) (sc_world s)) of
             (0, w, _) \<Rightarrow> CutOff (if took then s\<lparr>sc_world := w\<rparr> else s)
           | (Suc m, w, None) \<Rightarrow> Going (s\<lparr>sc_world := w\<rparr>) m False
           | (Suc m, w, Some eid) \<Rightarrow>
               (let s1 = s\<lparr>sc_entries := dset k \<lparr>ent_id = eid, ent_hash = h, ent_cronspec = cronspec\<rparr> (sc_entries s), sc_world := w\<rparr>
                in if se_enqueue E = None then Going s1 m False
                   else (case m of
                      0 \<Rightarrow> CutOff (if took then s1\<lparr>sc_world := enqueue_now E p w\<rparr> else s1)
                    | Suc j \<Rightarrow> Going (s1\<lparr>sc_world := enqueue_now E p w\<rparr>) j False))))"

definition place_cut :: "'w sched_env \<Rightarrow> bool \<Rightarrow> pystr \<Rightarrow> provider \<Rightarrow> nat \<Rightarrow> 'w sched \<Rightarrow> 'w cut_run" where
  "place_cut E took k p n s =
     (case se_derive E p of
        Inl _ \<Rightarrow> Going s n True
      | Inr (cronspec, ok) \<Rightarrow>
          if \<not> ok then Going s n False
          else (case config_hash cronspec (pr_config p) of
             None \<Rightarrow> Going s n True
           | Some h \<Rightarrow>
               (case dget (sc_entries s) k of
                  None \<Rightarrow> register_cut E took k p cronspec h n s
                | Some existing \<Rightarrow>
                    if ent_hash existing = h then Going s n False
                    else (case unregister_cut E took k n s of
                       CutOff s' \<Rightarrow> CutOff s'
                     | Going s' m False \<Rightarrow> Going s' m False
                     | Going s' m True \<Rightarrow> register_cut E took k p cronspec h m s'))))"

fun place_all_cut :: "'w sched_env \<Rightarrow> bool \<Rightarrow> (pystr \<times> provider) list \<Rightarrow> nat \<Rightarrow> 'w sched \<Rightarrow> 'w cut_run" where
  "place_all_cut E took [] n s = Going s n False"
| "place_all_cut E took ((k, p) # kps) n s =
     (case place_cut E took k p n s of
        CutOff s' \<Rightarrow> CutOff s'
      | Going s' m True \<Rightarrow> Going s' m True
      | Going s' m False \<Rightarrow> place_all_cut E took kps m s')"

fun drop_cut :: "'w sched_env \<Rightarrow> bool \<Rightarrow> pystr list \<Rightarrow> nat \<Rightarrow> 'w sched \<Rightarrow> 'w cut_run" where
  "drop_cut E took [] n s = Going s n False"
| "drop_cut E took (k # ks) n s =
     (case unregister_cut E took k n s of CutOff s' \<Rightarrow> CutOff s' | Going s' m _ \<Rightarrow> drop_cut E took ks m s')"

text \<open>The first await is the query, or the lock.\<close>

definition reconcile_cut :: "'w sched_env \<Rightarrow> bool \<Rightarrow> provider list option \<Rightarrow> nat \<Rightarrow> 'w sched \<Rightarrow> 'w cut_run" where
  "reconcile_cut E took fetched n s =
     (case n of
        0 \<Rightarrow> CutOff s
      | Suc m \<Rightarrow>
          (case fetched of
             None \<Rightarrow> Going s m False
           | Some rows \<Rightarrow>
               (let desired = desired_of rows in
                case drop_cut E took (filter (\<lambda>k. k \<notin> set (keys desired)) (keys (sc_entries s))) m s of
                  CutOff s' \<Rightarrow> CutOff s'
                | Going s' j _ \<Rightarrow> place_all_cut E took desired j s')))"

text \<open>The steps of \<open>Scheduler\<close>, and a stop that cancels the loop inside its reconcile.\<close>

inductive cancel_step :: "'w sched_env \<Rightarrow> 'w sched \<Rightarrow> 'w sched \<Rightarrow> bool" for E where
  cs_whole: "sched_step E s s' \<Longrightarrow> cancel_step E s s'"
| cs_cut: "0 < sc_loops s \<Longrightarrow> \<not> sc_stopped s \<Longrightarrow> reconcile_cut E took f n s = CutOff s' \<Longrightarrow>
    cancel_step E s (s'\<lparr>sc_stopped := True, sc_loops := 0\<rparr>)"

section \<open>A reconcile that is not cut\<close>

lemma unregister_going: "unregister_cut E took k n s = Going s' m ok \<Longrightarrow> unregister_entry E k s = (s', ok)"
  by (auto simp: unregister_cut_def unregister_entry_def split: option.splits nat.splits prod.splits)

lemma register_going: "register_cut E took k p c h n s = Going s' m r \<Longrightarrow> s' = register_entry E k p c h s \<and> \<not> r"
  by (auto simp: register_cut_def register_entry_def register_one_def enqueue_now_def Let_def
      split: sum.splits nat.splits prod.splits option.splits if_splits)

lemma place_going: "place_cut E took k p n s = Going s' m r \<Longrightarrow> place_provider E k p s = (s', r)"
  by (auto simp: place_cut_def place_provider_def
      split: sum.splits prod.splits if_splits option.splits cut_run.splits bool.splits dest!: unregister_going register_going)

lemma place_all_going: "place_all_cut E took kps n s = Going s' m r \<Longrightarrow> place_all E kps s = (s', r)"
proof (induction kps arbitrary: n s)
  case (Cons kp kps)
  then show ?case by (cases kp) (auto split: cut_run.splits bool.splits dest!: place_going)
qed simp

lemma drop_going: "drop_cut E took ks n s = Going s' m r \<Longrightarrow> foldl (\<lambda>s k. fst (unregister_entry E k s)) s ks = s'"
proof (induction ks arbitrary: n s)
  case (Cons k ks)
  then show ?case by (auto split: cut_run.splits dest!: unregister_going)
qed simp

lemma reconcile_going: "reconcile_cut E took f n s = Going s' m r \<Longrightarrow> reconcile E f s = (s', r)"
  by (auto simp: reconcile_cut_def reconcile_def drop_stale_def Let_def
      split: nat.splits option.splits cut_run.splits dest!: place_all_going drop_going)

section \<open>What a cancellation leaves\<close>

text \<open>A schedule that is live under an id of no entry, and an entry whose schedule is gone; all else is in step.\<close>

definition leaked :: "'w sched_env \<Rightarrow> 'w schedules \<Rightarrow> 'w sched \<Rightarrow> pystr \<Rightarrow> bool" where
  "leaked E live s i = (live (sc_world s) i \<noteq> None \<and> (\<forall>k ent. dget (sc_entries s) k = Some ent \<longrightarrow> ent_id ent \<noteq> i)
     \<and> in_sync E (\<lambda>w. (live w)(i := None)) s)"

definition lost :: "'w sched_env \<Rightarrow> 'w schedules \<Rightarrow> 'w sched \<Rightarrow> pystr \<Rightarrow> reg_entry \<Rightarrow> bool" where
  "lost E live s k ent = (dget (sc_entries s) k = Some ent \<and> live (sc_world s) (ent_id ent) = None
     \<and> in_sync E live (s\<lparr>sc_entries := dpop k (sc_entries s)\<rparr>))"

definition damage :: "'w sched_env \<Rightarrow> 'w schedules \<Rightarrow> bool \<Rightarrow> 'w sched \<Rightarrow> bool" where
  "damage E live took s = (in_sync E live s \<or> took \<and> ((\<exists>i. leaked E live s i) \<or> (\<exists>k ent. lost E live s k ent)))"

lemma in_sync_at:
  "in_sync E live s \<Longrightarrow> live' (sc_world s') = live (sc_world s) \<Longrightarrow> sc_entries s' = sc_entries s \<Longrightarrow> in_sync E live' s'"
  by (simp add: in_sync_def entry_sound_def)

lemma unregister_damage:
  assumes "unregister_cut E took k n s = CutOff s'" "backend_ok E live" "in_sync E live s"
  shows "damage E live took s'"
proof -
  obtain ent where e: "dget (sc_entries s) k = Some ent"
    and s': "s' = (if took then s\<lparr>sc_world := fst (se_unregister E (ent_id ent) (sc_world s))\<rparr> else s)"
    using assms(1) by (auto simp: unregister_cut_def split: option.splits nat.splits prod.splits)
  obtain w ok where u: "se_unregister E (ent_id ent) (sc_world s) = (w, ok)" by fastforce
  show ?thesis
  proof (cases "took \<and> ok")
    case True
    then have "live w = (live (sc_world s))(ent_id ent := None)" using assms(2) u by (auto simp: backend_ok_def)
    moreover have "in_sync E live (s\<lparr>sc_world := w, sc_entries := dpop k (sc_entries s)\<rparr>)"
      using in_sync_unregister [OF assms(2,3), of k] e u True by (simp add: unregister_entry_def)
    ultimately have "lost E live s' k ent" using e s' u True by (simp add: lost_def)
    then show ?thesis using True by (auto simp: damage_def)
  next
    case False
    then have "took \<Longrightarrow> live w = live (sc_world s)" using assms(2) u by (auto simp: backend_ok_def)
    then have "in_sync E live s'" using s' u assms(3) in_sync_cong by auto
    then show ?thesis by (simp add: damage_def)
  qed
qed

lemma register_damage:
  assumes "register_cut E took k p c h n s = CutOff s'" "backend_ok E live" "in_sync E live s"
    and "dget (sc_entries s) k = None" "sched_key (pr_tenant p) (pr_name p) = k" "config_hash c (pr_config p) = Some h"
  shows "damage E live took s'"
proof -
  obtain body where b: "register_body E p = Inr body" using assms(1) by (auto simp: register_cut_def split: sum.splits)
  obtain w r where reg: "se_register E c (se_task_type E) body (se_queue E) (sc_world s) = (w, r)" by fastforce
  show ?thesis
  proof (cases n)
    case 0
    then have s': "s' = (if took then s\<lparr>sc_world := w\<rparr> else s)" using assms(1) b reg by (simp add: register_cut_def)
    show ?thesis
    proof (cases "took \<and> r \<noteq> None")
      case True
      then obtain i where i: "r = Some i" by blast
      then have l: "live (sc_world s) i = None" "live w = (live (sc_world s))(i \<mapsto> (c, se_task_type E, body, se_queue E))"
        using assms(2) reg by (auto simp: backend_ok_def)
      have "live (sc_world s) (ent_id ent) \<noteq> None" if "dget (sc_entries s) k' = Some ent" for k' ent
        using assms(3) that unfolding in_sync_def entry_sound_def by fastforce
      then have "ent_id ent \<noteq> i" if "dget (sc_entries s) k' = Some ent" for k' ent using that l(1) by metis
      moreover have "(live w)(i := None) = live (sc_world s)" using l by auto
      then have "in_sync E (\<lambda>w. (live w)(i := None)) (s\<lparr>sc_world := w\<rparr>)" by (intro in_sync_at [OF assms(3)]) simp_all
      ultimately have "leaked E live s' i" using s' True l(2) by (simp add: leaked_def)
      then show ?thesis using True by (auto simp: damage_def)
    next
      case False
      then have "took \<Longrightarrow> live w = live (sc_world s)" using assms(2) reg by (auto simp: backend_ok_def)
      then have "in_sync E live s'" using s' assms(3) in_sync_cong by auto
      then show ?thesis by (simp add: damage_def)
    qed
  next
    case (Suc m)
    then obtain i where i: "r = Some i" and "s' = s\<lparr>sc_entries := dset k \<lparr>ent_id = i, ent_hash = h, ent_cronspec = c\<rparr> (sc_entries s), sc_world := w\<rparr>
        \<or> s' = s\<lparr>sc_entries := dset k \<lparr>ent_id = i, ent_hash = h, ent_cronspec = c\<rparr> (sc_entries s), sc_world := enqueue_now E p w\<rparr>"
      using assms(1) b reg by (auto simp: register_cut_def Let_def split: option.splits if_splits nat.splits)
    moreover have "register_entry E k p c h s = s\<lparr>sc_entries := dset k \<lparr>ent_id = i, ent_hash = h, ent_cronspec = c\<rparr> (sc_entries s), sc_world := enqueue_now E p w\<rparr>"
      using b reg i by (simp add: register_entry_def register_one_def)
    ultimately have "live (sc_world s') = live (sc_world (register_entry E k p c h s))" "sc_entries s' = sc_entries (register_entry E k p c h s)"
      using enqueue_live [OF assms(2)] by auto
    then have "in_sync E live s'" using in_sync_at [OF in_sync_register [OF assms(2-6)]] by blast
    then show ?thesis by (simp add: damage_def)
  qed
qed

lemma place_damage:
  assumes "place_cut E took k p n s = CutOff s'" "backend_ok E live" "in_sync E live s" "sched_key (pr_tenant p) (pr_name p) = k"
  shows "damage E live took s'"
proof -
  obtain c h where d: "se_derive E p = Inr (c, True)" and h: "config_hash c (pr_config p) = Some h"
    using assms(1) by (auto simp: place_cut_def split: sum.splits prod.splits if_splits option.splits)
  note place = place_cut_def d h
  show ?thesis
  proof (cases "dget (sc_entries s) k")
    case None
    then show ?thesis using register_damage [OF _ assms(2,3) None assms(4) h] assms(1) by (simp add: place)
  next
    case (Some ent)
    then have ne: "ent_hash ent \<noteq> h" using assms(1) by (auto simp: place)
    show ?thesis
    proof (cases "unregister_cut E took k n s")
      case (CutOff s1)
      then show ?thesis using unregister_damage [OF CutOff assms(2,3)] assms(1) Some ne by (simp add: place)
    next
      case (Going s1 m ok)
      have u: "unregister_entry E k s = (s1, ok)" by (rule unregister_going [OF Going])
      have ok: "ok" using assms(1) Some ne Going by (cases ok) (simp_all add: place)
      have "in_sync E live s1" using in_sync_unregister [OF assms(2,3), of k] u by simp
      moreover have "dget (sc_entries s1) k = None" using unregister_True [of E k s s1] u ok by simp
      ultimately show ?thesis
        using register_damage [OF _ assms(2) _ _ assms(4) h, of took m s1 s'] assms(1) Some ne Going ok by (simp add: place)
    qed
  qed
qed

lemma place_all_damage:
  "place_all_cut E took kps n s = CutOff s' \<Longrightarrow> backend_ok E live \<Longrightarrow> in_sync E live s \<Longrightarrow>
     \<forall>(k, p) \<in> set kps. sched_key (pr_tenant p) (pr_name p) = k \<Longrightarrow> damage E live took s'"
proof (induction kps arbitrary: n s)
  case (Cons kp kps)
  obtain k p where kp: "kp = (k, p)" by (cases kp)
  then have k: "sched_key (pr_tenant p) (pr_name p) = k" using Cons.prems(4) by simp
  show ?case
  proof (cases "place_cut E took k p n s")
    case (CutOff s1)
    then show ?thesis using place_damage [OF CutOff Cons.prems(2,3) k] Cons.prems(1) kp by simp
  next
    case (Going s1 m r)
    then have "in_sync E live s1" using in_sync_place [OF Cons.prems(2,3) k] place_going [OF Going] by simp
    then show ?thesis using Cons.IH [of m s1] Cons.prems kp Going by (cases r) auto
  qed
qed simp

lemma drop_damage:
  "drop_cut E took ks n s = CutOff s' \<Longrightarrow> backend_ok E live \<Longrightarrow> in_sync E live s \<Longrightarrow> damage E live took s'"
proof (induction ks arbitrary: n s)
  case (Cons k ks)
  show ?case
  proof (cases "unregister_cut E took k n s")
    case (CutOff s1)
    then show ?thesis using unregister_damage [OF CutOff Cons.prems(2,3)] Cons.prems(1) by simp
  next
    case (Going s1 m r)
    have "in_sync E live s1" using in_sync_unregister [OF Cons.prems(2,3), of k] unregister_going [OF Going] by simp
    then show ?thesis using Cons.IH [of m s1] Cons.prems Going by simp
  qed
qed simp

lemma reconcile_damage:
  assumes "reconcile_cut E took f n s = CutOff s'" "backend_ok E live" "in_sync E live s"
  shows "damage E live took s'"
proof (cases n)
  case 0
  then show ?thesis using assms(1,3) by (simp add: reconcile_cut_def damage_def)
next
  case (Suc m)
  then obtain rows where f: "f = Some rows" using assms(1) by (auto simp: reconcile_cut_def split: option.splits)
  let ?ks = "filter (\<lambda>k. k \<notin> set (keys (desired_of rows))) (keys (sc_entries s))"
  show ?thesis
  proof (cases "drop_cut E took ?ks m s")
    case (CutOff s1)
    then show ?thesis using drop_damage [OF CutOff assms(2,3)] assms(1) Suc f by (simp add: reconcile_cut_def Let_def)
  next
    case (Going s1 j r)
    have "in_sync E live s1" using in_sync_foldl [OF assms(2,3), of ?ks] drop_going [OF Going] by simp
    moreover have "\<forall>(k, p) \<in> set (desired_of rows). sched_key (pr_tenant p) (pr_name p) = k" using in_desired by blast
    moreover have "place_all_cut E took (desired_of rows) j s1 = CutOff s'"
      using assms(1) Suc f Going by (simp add: reconcile_cut_def Let_def)
    ultimately show ?thesis using place_all_damage [OF _ assms(2)] by blast
  qed
qed

section \<open>A leaked schedule stays\<close>

definition orphan :: "'w schedules \<Rightarrow> pystr \<Rightarrow> pystr \<times> pystr \<times> bytes \<times> pystr \<Rightarrow> 'w sched \<Rightarrow> bool" where
  "orphan live i x s = (live (sc_world s) i = Some x \<and> (\<forall>k ent. dget (sc_entries s) k = Some ent \<longrightarrow> ent_id ent \<noteq> i))"

lemma orphan_unregister_call:
  assumes "backend_ok E live" "orphan live i x s" "dget (sc_entries s) k = Some ent"
  shows "live (fst (se_unregister E (ent_id ent) (sc_world s))) i = Some x"
proof -
  obtain w ok where u: "se_unregister E (ent_id ent) (sc_world s) = (w, ok)" by fastforce
  have "live w = live (sc_world s) \<or> live w = (live (sc_world s))(ent_id ent := None)"
    using assms(1) u by (cases ok) (auto simp: backend_ok_def)
  moreover have "ent_id ent \<noteq> i" "live (sc_world s) i = Some x" using assms(2,3) unfolding orphan_def by blast+
  ultimately show ?thesis using u by auto
qed

lemma orphan_register_call:
  assumes "backend_ok E live" "orphan live i x s" "se_register E c t b q (sc_world s) = (w, r)"
  shows "live w i = Some x" "r \<noteq> Some i"
proof -
  have "live w = live (sc_world s)" if "r = None" using assms(1,3) that by (auto simp: backend_ok_def)
  moreover have "live (sc_world s) j = None \<and> live w = (live (sc_world s))(j \<mapsto> (c, t, b, q))" if "r = Some j" for j
    using assms(1,3) that by (auto simp: backend_ok_def)
  ultimately show "live w i = Some x" "r \<noteq> Some i" using assms(2) by (cases r; fastforce simp: orphan_def)+
qed

text \<open>Every operation keeps it, cut or not.\<close>

definition cut_keeps :: "('w sched \<Rightarrow> bool) \<Rightarrow> 'w cut_run \<Rightarrow> bool" where
  "cut_keeps P r = (case r of Going s _ _ \<Rightarrow> P s | CutOff s \<Rightarrow> P s)"

lemma orphan_unregister:
  assumes "backend_ok E live" "orphan live i x s"
  shows "orphan live i x (fst (unregister_entry E k s))" "cut_keeps (orphan live i x) (unregister_cut E took k n s)"
proof -
  show u: "orphan live i x (fst (unregister_entry E k s))"
  proof (cases "dget (sc_entries s) k")
    case None
    then show ?thesis using assms(2) by (simp add: unregister_entry_def)
  next
    case (Some ent)
    obtain w ok where r: "se_unregister E (ent_id ent) (sc_world s) = (w, ok)" by fastforce
    have "live w i = Some x" using orphan_unregister_call [OF assms Some] r by simp
    then show ?thesis using assms(2) Some r by (cases ok) (auto simp: unregister_entry_def orphan_def split: if_splits)
  qed
  have "orphan live i x (s\<lparr>sc_world := fst (se_unregister E (ent_id ent) (sc_world s))\<rparr>)" if "dget (sc_entries s) k = Some ent" for ent
    using assms(2) orphan_unregister_call [OF assms that] by (simp add: orphan_def)
  then show "cut_keeps (orphan live i x) (unregister_cut E took k n s)"
    using u assms(2) by (auto simp: unregister_cut_def cut_keeps_def split: option.split nat.split prod.split)
qed

lemma orphan_world: "orphan live i x s \<Longrightarrow> live w i = Some x \<Longrightarrow> orphan live i x (s\<lparr>sc_world := w\<rparr>)"
  by (simp add: orphan_def)

lemma orphan_register_cut:
  assumes "backend_ok E live" "orphan live i x s"
  shows "cut_keeps (orphan live i x) (register_cut E took k p c h n s)"
proof (cases "register_body E p")
  case (Inl e)
  then show ?thesis using assms(2) by (simp add: register_cut_def cut_keeps_def)
next
  case (Inr body)
  obtain w r where reg: "se_register E c (se_task_type E) body (se_queue E) (sc_world s) = (w, r)" by fastforce
  note w = orphan_register_call [OF assms reg]
  have "orphan live i x (s\<lparr>sc_entries := dset k \<lparr>ent_id = j, ent_hash = h, ent_cronspec = c\<rparr> (sc_entries s), sc_world := v\<rparr>)"
    if "r = Some j" "live v = live w" for j v
    using assms(2) w that by (auto simp: orphan_def split: if_splits)
  then show ?thesis
    using assms(2) orphan_world [OF assms(2) w(1)] enqueue_live [OF assms(1), of p w] Inr reg
    by (auto simp: register_cut_def cut_keeps_def Let_def split: nat.split option.split)
qed

lemma orphan_place_cut:
  assumes "backend_ok E live" "orphan live i x s"
  shows "cut_keeps (orphan live i x) (place_cut E took k p n s)"
proof -
  have reg: "orphan live i x s' \<Longrightarrow> cut_keeps (orphan live i x) (register_cut E took k p c h m s')" for c h m s'
    by (rule orphan_register_cut [OF assms(1)])
  have "cut_keeps (orphan live i x) (case unregister_cut E took k n s of CutOff s' \<Rightarrow> CutOff s'
      | Going s' m False \<Rightarrow> Going s' m False | Going s' m True \<Rightarrow> register_cut E took k p c h m s')" for c h
    using orphan_unregister(2) [OF assms, of took k n] reg
    by (auto simp: cut_keeps_def [of _ "Going _ _ _"] cut_keeps_def [of _ "CutOff _"] split: cut_run.split bool.split)
  then show ?thesis
    using assms(2) reg [OF assms(2)]
    by (auto simp: place_cut_def cut_keeps_def [of _ "Going _ _ _"] split: sum.split option.split)
qed

lemma orphan_place_all_cut:
  "backend_ok E live \<Longrightarrow> orphan live i x s \<Longrightarrow> cut_keeps (orphan live i x) (place_all_cut E took kps n s)"
proof (induction kps arbitrary: n s)
  case (Cons kp kps)
  obtain k p where kp: "kp = (k, p)" by (cases kp)
  show ?case
    using orphan_place_cut [OF Cons.prems, of took k p n] Cons.IH [OF Cons.prems(1)] kp
    by (auto simp: cut_keeps_def [of _ "Going _ _ _"] cut_keeps_def [of _ "CutOff _"] split: cut_run.split bool.split)
qed (simp add: cut_keeps_def)

lemma orphan_drop_cut:
  "backend_ok E live \<Longrightarrow> orphan live i x s \<Longrightarrow> cut_keeps (orphan live i x) (drop_cut E took ks n s)"
proof (induction ks arbitrary: n s)
  case (Cons k ks)
  show ?case
    using orphan_unregister(2) [OF Cons.prems, of took k n] Cons.IH [OF Cons.prems(1)]
    by (auto simp: cut_keeps_def [of _ "Going _ _ _"] cut_keeps_def [of _ "CutOff _"] split: cut_run.split)
qed (simp add: cut_keeps_def)

lemma orphan_reconcile_cut:
  assumes "backend_ok E live" "orphan live i x s"
  shows "cut_keeps (orphan live i x) (reconcile_cut E took f n s)"
proof -
  have place: "orphan live i x s' \<Longrightarrow> cut_keeps (orphan live i x) (place_all_cut E took kps m s')" for kps m s'
    by (rule orphan_place_all_cut [OF assms(1)])
  have drop: "cut_keeps (orphan live i x) (drop_cut E took ks m s)" for ks m by (rule orphan_drop_cut [OF assms])
  show ?thesis
    using assms(2) place drop [of "filter (\<lambda>k. k \<notin> set (keys (desired_of (the f)))) (keys (sc_entries s))" "n - 1"]
    by (auto simp: reconcile_cut_def cut_keeps_def [of _ "Going _ _ _"] cut_keeps_def [of _ "CutOff _"] Let_def
        split: nat.split option.split cut_run.split)
qed

section \<open>A late cancellation comes too late\<close>

text \<open>The most awaits an operation has.\<close>

lemma unregister_uncut:
  "1 \<le> n \<Longrightarrow> \<exists>m. n \<le> m + 1 \<and> unregister_cut E took k n s = Going (fst (unregister_entry E k s)) m (snd (unregister_entry E k s))"
  by (cases n) (auto simp: unregister_cut_def unregister_entry_def split: option.split prod.split)

lemma register_uncut:
  assumes "2 \<le> n"
  shows "\<exists>m. n \<le> m + 2 \<and> register_cut E took k p c h n s = Going (register_entry E k p c h s) m False"
proof -
  obtain j where j: "n = Suc (Suc j)" using assms by (metis add_2_eq_Suc le_Suc_ex)
  show ?thesis
  proof (cases "register_body E p")
    case (Inr body)
    obtain w r where "se_register E c (se_task_type E) body (se_queue E) (sc_world s) = (w, r)" by fastforce
    then show ?thesis using j Inr
      by (cases r) (auto simp: register_cut_def register_entry_def register_one_def enqueue_now_def Let_def)
  qed (simp add: register_cut_def register_entry_def register_one_def)
qed

lemma place_uncut:
  assumes "3 \<le> n"
  shows "\<exists>m. n \<le> m + 3 \<and> place_cut E took k p n s = Going (fst (place_provider E k p s)) m (snd (place_provider E k p s))"
proof (cases "\<exists>c h ent. se_derive E p = Inr (c, True) \<and> config_hash c (pr_config p) = Some h \<and> dget (sc_entries s) k = Some ent \<and> ent_hash ent \<noteq> h")
  case True
  then obtain c h ent where e: "se_derive E p = Inr (c, True)" "config_hash c (pr_config p) = Some h" "dget (sc_entries s) k = Some ent" "ent_hash ent \<noteq> h"
    by blast
  obtain s1 ok where u: "unregister_entry E k s = (s1, ok)" by fastforce
  obtain m where m: "n \<le> m + 1" "unregister_cut E took k n s = Going s1 m ok"
    using unregister_uncut [of n E took k s] assms u by auto
  show ?thesis
  proof (cases ok)
    case False
    then show ?thesis using m e u by (intro exI [of _ m]) (simp add: place_cut_def place_provider_def)
  next
    case True
    obtain j where "m \<le> j + 2" "register_cut E took k p c h m s1 = Going (register_entry E k p c h s1) j False"
      using register_uncut [of m E took k p c h s1] assms m(1) by auto
    then show ?thesis using m e u True by (intro exI [of _ j]) (simp add: place_cut_def place_provider_def)
  qed
next
  case False
  show ?thesis
  proof (cases "\<exists>c h. se_derive E p = Inr (c, True) \<and> config_hash c (pr_config p) = Some h \<and> dget (sc_entries s) k = None")
    case True
    then obtain c h where e: "se_derive E p = Inr (c, True)" "config_hash c (pr_config p) = Some h" "dget (sc_entries s) k = None" by blast
    obtain m where "n \<le> m + 2" "register_cut E took k p c h n s = Going (register_entry E k p c h s) m False"
      using register_uncut [of n E took k p c h s] assms by auto
    then show ?thesis using e by (intro exI [of _ m]) (simp add: place_cut_def place_provider_def)
  next
    case none: False
    have "\<exists>r. place_cut E took k p n s = Going s n r \<and> place_provider E k p s = (s, r)"
    proof (cases "se_derive E p")
      case (Inr d)
      obtain c ok where d: "d = (c, ok)" by (cases d)
      show ?thesis
      proof (cases "ok \<and> config_hash c (pr_config p) \<noteq> None")
        case True
        then obtain h where h: "config_hash c (pr_config p) = Some h" by blast
        then obtain ent where "dget (sc_entries s) k = Some ent" "ent_hash ent = h"
          using none False Inr d True by (cases "dget (sc_entries s) k") auto
        then show ?thesis using Inr d True h by (simp add: place_cut_def place_provider_def ex_bool_eq)
      qed (use Inr d in \<open>auto simp: place_cut_def place_provider_def ex_bool_eq split: option.split\<close>)
    qed (simp add: place_cut_def place_provider_def ex_bool_eq)
    then show ?thesis by fastforce
  qed
qed

lemma place_all_uncut:
  "3 * length kps \<le> n \<Longrightarrow>
    \<exists>m. n \<le> m + 3 * length kps \<and> place_all_cut E took kps n s = Going (fst (place_all E kps s)) m (snd (place_all E kps s))"
proof (induction kps arbitrary: n s)
  case (Cons kp kps)
  obtain k p where kp: "kp = (k, p)" by (cases kp)
  obtain s1 r where pl: "place_provider E k p s = (s1, r)" by fastforce
  have "3 \<le> n" using Cons.prems by simp
  from place_uncut [OF this, of E took k p s] pl obtain m where m: "n \<le> m + 3" "place_cut E took k p n s = Going s1 m r" by auto
  show ?case
  proof (cases r)
    case True
    then show ?thesis using m kp pl by (intro exI [of _ m]) simp
  next
    case False
    have "3 * length kps \<le> m" using Cons.prems m(1) by simp
    from Cons.IH [OF this, of s1] show ?thesis using m kp pl False by auto
  qed
qed simp

lemma drop_uncut:
  "length ks \<le> n \<Longrightarrow> \<exists>m r. n \<le> m + length ks
    \<and> drop_cut E took ks n s = Going (foldl (\<lambda>s k. fst (unregister_entry E k s)) s ks) m r"
proof (induction ks arbitrary: n s)
  case (Cons k ks)
  have "1 \<le> n" using Cons.prems by simp
  from unregister_uncut [OF this] obtain m
    where m: "n \<le> m + 1" "unregister_cut E took k n s = Going (fst (unregister_entry E k s)) m (snd (unregister_entry E k s))" by blast
  have "length ks \<le> m" using Cons.prems m(1) by simp
  from Cons.IH [OF this, of "fst (unregister_entry E k s)"] show ?case using m by auto
qed (auto intro: exI [of _ False])

definition awaits :: "provider list option \<Rightarrow> 'w sched \<Rightarrow> nat" where
  "awaits f s = 1 + length (sc_entries s) + (case f of None \<Rightarrow> 0 | Some rows \<Rightarrow> 3 * length (desired_of rows))"

lemma reconcile_uncut:
  assumes "awaits f s \<le> n"
  shows "\<exists>m. reconcile_cut E took f n s = Going (fst (reconcile E f s)) m (snd (reconcile E f s))"
proof -
  obtain j where j: "n = Suc j" using assms by (cases n) (simp_all add: awaits_def)
  show ?thesis
  proof (cases f)
    case (Some rows)
    let ?ks = "filter (\<lambda>k. k \<notin> set (keys (desired_of rows))) (keys (sc_entries s))"
    have len: "length ?ks \<le> length (sc_entries s)" using length_filter_le [of _ "keys (sc_entries s)"] by simp
    have "length (sc_entries s) + 3 * length (desired_of rows) \<le> j" using assms j Some by (simp add: awaits_def)
    then have "length ?ks \<le> j" using len by linarith
    from drop_uncut [OF this, of E took s] obtain m r where m: "j \<le> m + length ?ks"
      "drop_cut E took ?ks j s = Going (drop_stale E (desired_of rows) s) m r" unfolding drop_stale_def by blast
    have "3 * length (desired_of rows) \<le> m" using m(1) len \<open>length (sc_entries s) + _ \<le> j\<close> by linarith
    from place_all_uncut [OF this] show ?thesis using m(2) j Some by (fastforce simp: reconcile_cut_def reconcile_def Let_def)
  qed (simp add: reconcile_cut_def reconcile_def j)
qed

lemma orphan_reconcile:
  assumes "backend_ok E live" "orphan live i x s" "reconcile E f s = (s', r)"
  shows "orphan live i x s'"
  using orphan_reconcile_cut [OF assms(1,2), of True f "awaits f s"] reconcile_uncut [of f s "awaits f s" E True] assms(3)
  by (auto simp: cut_keeps_def)

lemma orphan_step:
  assumes "cancel_step E s s'" "backend_ok E live" "orphan live i x s"
  shows "orphan live i x s'"
  using assms(1)
proof (cases rule: cancel_step.cases)
  case cs_whole
  have loops: "orphan live i x (u\<lparr>sc_stopped := b, sc_loops := n\<rparr>) = orphan live i x u"
    "orphan live i x (u\<lparr>sc_loops := n\<rparr>) = orphan live i x u" for u b n
    by (simp_all add: orphan_def)
  from cs_whole show ?thesis
    by (cases rule: sched_step.cases) (use assms(3) orphan_reconcile [OF assms(2,3)] loops in auto)
next
  case (cs_cut took f n u)
  then have "orphan live i x u" using orphan_reconcile_cut [OF assms(2,3), of took f n] by (simp add: cut_keeps_def)
  then show ?thesis using cs_cut(1) by (simp add: orphan_def)
qed

lemma orphan_steps: "(cancel_step E)\<^sup>*\<^sup>* s s' \<Longrightarrow> backend_ok E live \<Longrightarrow> orphan live i x s \<Longrightarrow> orphan live i x s'"
  by (induction rule: rtranclp_induct) (auto intro: orphan_step)

section \<open>A lost schedule stays lost\<close>

text \<open>
  A backend does not give an id again that it has given before: from the worlds of \<open>G\<close> on, the id
  \<open>i\<close> is never given.
\<close>

definition never_given :: "'w sched_env \<Rightarrow> ('w \<Rightarrow> bool) \<Rightarrow> pystr \<Rightarrow> bool" where
  "never_given E G i =
     ((\<forall>c t b q w. G w \<longrightarrow> snd (se_register E c t b q w) \<noteq> Some i \<and> G (fst (se_register E c t b q w)))
      \<and> (\<forall>id w. G w \<longrightarrow> G (fst (se_unregister E id w))) \<and> (\<forall>p w. G w \<longrightarrow> G (enqueue_now E p w)))"

text \<open>An entry with no schedule under its id.\<close>

definition dead_entry :: "'w schedules \<Rightarrow> ('w \<Rightarrow> bool) \<Rightarrow> pystr \<Rightarrow> reg_entry \<Rightarrow> 'w sched \<Rightarrow> bool" where
  "dead_entry live G k ent s =
     (dget (sc_entries s) k = Some ent \<and> live (sc_world s) (ent_id ent) = None \<and> G (sc_world s))"

lemma dead_unregister:
  assumes "backend_ok E live" "never_given E G (ent_id ent)" "dead_entry live G k ent s" "j \<noteq> k"
  shows "dead_entry live G k ent (fst (unregister_entry E j s))"
proof (cases "dget (sc_entries s) j")
  case None
  then show ?thesis using assms(3) by (simp add: unregister_entry_def)
next
  case (Some e)
  obtain w ok where u: "se_unregister E (ent_id e) (sc_world s) = (w, ok)" by fastforce
  then have "live w = live (sc_world s) \<or> live w = (live (sc_world s))(ent_id e := None)"
    using assms(1) by (cases ok) (auto simp: backend_ok_def)
  then have "live w (ent_id ent) = None" using assms(3) by (auto simp: dead_entry_def)
  moreover have "G (fst (se_unregister E (ent_id e) (sc_world s)))"
    using assms(2,3) unfolding never_given_def dead_entry_def by blast
  ultimately show ?thesis using assms(3,4) u Some by (cases ok) (simp_all add: unregister_entry_def dead_entry_def)
qed

lemma dead_register:
  assumes "backend_ok E live" "never_given E G (ent_id ent)" "dead_entry live G k ent s" "j \<noteq> k"
  shows "dead_entry live G k ent (register_entry E j p c h s)"
proof (cases "register_body E p")
  case (Inl e)
  then show ?thesis using assms(3) by (simp add: register_entry_def register_one_def dead_entry_def)
next
  case (Inr body)
  obtain w r where reg: "se_register E c (se_task_type E) body (se_queue E) (sc_world s) = (w, r)" by fastforce
  have "snd (se_register E c (se_task_type E) body (se_queue E) (sc_world s)) \<noteq> Some (ent_id ent)
      \<and> G (fst (se_register E c (se_task_type E) body (se_queue E) (sc_world s)))"
    using assms(2,3) unfolding never_given_def dead_entry_def by blast
  then have r: "r \<noteq> Some (ent_id ent)" "G w" using reg by simp_all
  have g: "G (enqueue_now E p w)" using assms(2) r(2) unfolding never_given_def by blast
  have "live w = live (sc_world s)" if "r = None" using assms(1) reg that by (auto simp: backend_ok_def)
  moreover have "live w = (live (sc_world s))(i \<mapsto> (c, se_task_type E, body, se_queue E))" if "r = Some i" for i
    using assms(1) reg that by (auto simp: backend_ok_def)
  ultimately have "live w (ent_id ent) = None" using assms(3) r(1) by (cases r) (auto simp: dead_entry_def)
  then show ?thesis using assms(1,3,4) Inr reg r(2) g
    by (cases r) (simp_all add: register_entry_def register_one_def dead_entry_def enqueue_live)
qed

lemma dead_place:
  assumes "backend_ok E live" "never_given E G (ent_id ent)" "dead_entry live G k ent s" "j \<noteq> k"
  shows "dead_entry live G k ent (fst (place_provider E j p s))"
proof -
  have u: "dead_entry live G k ent s'" if "unregister_entry E j s = (s', r)" for s' r
    using dead_unregister [OF assms] that by simp
  show ?thesis
    using assms(3) u dead_register [OF assms(1,2) _ assms(4)]
    by (auto simp: place_provider_def split: sum.split prod.split option.split bool.split)
qed

lemma dead_place_same:
  assumes "dead_entry live G k ent s" "se_derive E p = Inr (c, True)" "config_hash c (pr_config p) = Some (ent_hash ent)"
  shows "place_provider E k p s = (s, False)"
  using assms by (simp add: place_provider_def dead_entry_def)

lemma dead_place_all:
  assumes "backend_ok E live" "never_given E G (ent_id ent)" "se_derive E p = Inr (c, True)" "config_hash c (pr_config p) = Some (ent_hash ent)"
  shows "dead_entry live G k ent s \<Longrightarrow> \<forall>q. (k, q) \<in> set kps \<longrightarrow> q = p \<Longrightarrow> dead_entry live G k ent (fst (place_all E kps s))"
proof (induction kps arbitrary: s)
  case (Cons kp kps)
  obtain j q where kp: "kp = (j, q)" by (cases kp)
  obtain s1 r where pl: "place_provider E j q s = (s1, r)" by fastforce
  have "dead_entry live G k ent s1"
  proof (cases "j = k")
    case True
    then have "q = p" using Cons.prems(2) kp by simp
    then show ?thesis using dead_place_same [OF Cons.prems(1) assms(3,4)] pl True Cons.prems(1) by simp
  next
    case False
    then show ?thesis using dead_place [OF assms(1,2) Cons.prems(1) False, of q] pl by simp
  qed
  then show ?case using Cons.IH [of s1] Cons.prems(2) kp pl by (cases r) auto
qed simp

lemma dead_foldl:
  "backend_ok E live \<Longrightarrow> never_given E G (ent_id ent) \<Longrightarrow> dead_entry live G k ent s \<Longrightarrow> k \<notin> set ks \<Longrightarrow>
    dead_entry live G k ent (foldl (\<lambda>s k. fst (unregister_entry E k s)) s ks)"
proof (induction ks arbitrary: s)
  case (Cons j ks)
  have "j \<noteq> k" "k \<notin> set ks" using Cons.prems(4) by auto
  then show ?case using Cons.IH [OF Cons.prems(1,2) dead_unregister [OF Cons.prems(1-3)]] by simp
qed simp

lemma dead_reconcile:
  assumes "backend_ok E live" "never_given E G (ent_id ent)" "dead_entry live G k ent s"
    and "dget (desired_of rows) k = Some p" "se_derive E p = Inr (c, True)" "config_hash c (pr_config p) = Some (ent_hash ent)"
  shows "dead_entry live G k ent (fst (reconcile E (Some rows) s))"
proof -
  have "k \<in> set (keys (desired_of rows))" using assms(4) by (metis dget_None_iff option.distinct(1))
  then have "dead_entry live G k ent (drop_stale E (desired_of rows) s)"
    unfolding drop_stale_def by (intro dead_foldl [OF assms(1-3)]) simp
  moreover have "(k, q) \<in> set (desired_of rows) \<Longrightarrow> q = p" for q
    using assms(4) distinct_desired [of rows] by (metis map_of_is_SomeI option.inject)
  ultimately show ?thesis
    using dead_place_all [OF assms(1,2,5,6), of k _ "desired_of rows"] by (simp add: reconcile_def Let_def)
qed

section \<open>Two cancellations\<close>

text \<open>A stop while the first provider is registered, and one while it is unregistered.\<close>

abbreviation toy_key :: pystr where "toy_key \<equiv> sched_key (uuid_text 7) (py ''imap'')"

definition toy_running :: "toy_world \<Rightarrow> (pystr, reg_entry) dict \<Rightarrow> toy_world sched" where
  "toy_running ws es = \<lparr>sc_entries = es, sc_world = ws, sc_loops = 1, sc_stopped = False\<rparr>"

definition toy_stopped :: "toy_world \<Rightarrow> (pystr, reg_entry) dict \<Rightarrow> toy_world sched" where
  "toy_stopped ws es = \<lparr>sc_entries = es, sc_world = ws, sc_loops = 0, sc_stopped = True\<rparr>"

definition toy_hash :: pystr where
  "toy_hash = the (config_hash (py ''@hourly'') (pr_config toy_row))"

definition toy_schedule :: "pystr \<times> pystr \<times> bytes \<times> pystr" where
  "toy_schedule = (py ''@hourly'', py ''sync'', projr (register_body toy_env toy_row), py ''q'')"

definition toy_entry :: "pystr \<Rightarrow> reg_entry" where
  "toy_entry i = \<lparr>ent_id = i, ent_hash = toy_hash, ent_cronspec = py ''@hourly''\<rparr>"

lemma toy_facts:
  "se_derive toy_env toy_row = Inr (py ''@hourly'', True)" "config_hash (py ''@hourly'') (pr_config toy_row) = Some toy_hash"
  "\<exists>body. register_body toy_env toy_row = Inr body" "desired_of [toy_row] = [(toy_key, toy_row)]" "desired_of [] = []"
  "se_enqueue toy_env = None"
proof -
  have d: "se_derive toy_env toy_row = Inr (py ''@hourly'', True)" by (simp add: toy_env_def toy_row_def)
  moreover have "config_hash (py ''@hourly'') (pr_config toy_row) \<noteq> None" "is_ok (register_body toy_env toy_row)"
    using toy_calls_succeed d unfolding calls_succeed_def by force+
  ultimately show "se_derive toy_env toy_row = Inr (py ''@hourly'', True)" "config_hash (py ''@hourly'') (pr_config toy_row) = Some toy_hash"
    "\<exists>body. register_body toy_env toy_row = Inr body" "se_enqueue toy_env = None"
    by (auto simp: toy_hash_def toy_env_def elim: is_okE)
  show "desired_of [toy_row] = [(toy_key, toy_row)]" "desired_of [] = []" by (simp_all add: desired_of_def dict_of_def toy_row_def)
qed

lemma toy_register:
  "se_register toy_env (py ''@hourly'') (se_task_type toy_env) (projr (register_body toy_env toy_row)) (se_queue toy_env) ws =
     (ws @ [Some toy_schedule], Some (replicate (length ws) 48))"
  by (simp add: toy_env_def toy_schedule_def)

lemma toy_place:
  assumes "dget (sc_entries s) toy_key = None"
  shows "place_provider toy_env toy_key toy_row s =
    (s\<lparr>sc_entries := dset toy_key (toy_entry (replicate (length (sc_world s)) 48)) (sc_entries s),
       sc_world := sc_world s @ [Some toy_schedule]\<rparr>, False)"
proof -
  obtain body where b: "register_body toy_env toy_row = Inr body" using toy_facts(3) by blast
  show ?thesis using toy_register [of "sc_world s"] assms toy_facts(1,2,6) b
    by (simp add: place_provider_def register_entry_def register_one_def enqueue_now_def toy_entry_def)
qed

lemma toy_live_empty: "toy_live [] = Map.empty"
  by (auto simp: toy_live_def fun_eq_iff)

lemma toy_start_empty: "sched_step toy_env (sched_init []) (toy_running [] [])"
  using start_ok [of toy_env "Some []" "sched_init []" "sched_init []"]
  by (simp add: reconcile_def toy_facts drop_stale_def sched_init_def toy_running_def)

lemma toy_start:
  "sched_step toy_env (toy_stopped ws []) (toy_running (ws @ [Some toy_schedule]) [(toy_key, toy_entry (replicate (length ws) 48))])"
  "sched_step toy_env (sched_init []) (toy_running [Some toy_schedule] [(toy_key, toy_entry [])])"
  using start_ok [of toy_env "Some [toy_row]" "toy_stopped ws []"] start_ok [of toy_env "Some [toy_row]" "sched_init []"]
  by (simp_all add: reconcile_def toy_facts drop_stale_def toy_place toy_stopped_def sched_init_def toy_running_def)

lemma toy_cut_register:
  "reconcile_cut toy_env True (Some [toy_row]) 1 (toy_running [] []) = CutOff (toy_running [Some toy_schedule] [])"
proof -
  obtain body where b: "register_body toy_env toy_row = Inr body" using toy_facts(3) by blast
  show ?thesis using toy_register [of "[]"] toy_facts b
    by (simp add: reconcile_cut_def place_cut_def register_cut_def toy_running_def)
qed

lemma toy_cut_unregister:
  "reconcile_cut toy_env True (Some []) 1 (toy_running [Some toy_schedule] [(toy_key, toy_entry [])]) =
     CutOff (toy_running [None] [(toy_key, toy_entry [])])"
  by (simp add: reconcile_cut_def unregister_cut_def toy_running_def toy_facts) (simp add: toy_env_def toy_entry_def)

section \<open>Properties\<close>

text \<open>
  C22. A reconcile that a stop cancels leaves scheduler and backend in step, but for at most one schedule,
  the one whose call was interrupted after it had taken effect: a new schedule that no entry knows, or an entry
  whose schedule is gone.
\<close>

theorem cancelled_reconcile_damage:
  assumes "(sched_step E)\<^sup>*\<^sup>* (sched_init w) s" "backend_ok E live" "live w = Map.empty"
    and "reconcile_cut E took f n s = CutOff s'"
  shows "in_sync E live s' \<or> took \<and> ((\<exists>i. leaked E live s' i) \<or> (\<exists>k ent. lost E live s' k ent))"
  using reconcile_damage [OF assms(4,2) in_sync_reach [OF assms(1-3)]] by (simp add: damage_def)

lemma cancelled_reconcile_damage_witness:
  "reconcile_cut toy_env True (Some [toy_row]) 1 (toy_running [] []) = CutOff (toy_running [Some toy_schedule] [])
   \<and> (\<exists>i. leaked toy_env toy_live (toy_running [Some toy_schedule] []) i)"
proof -
  have "(sched_step toy_env)\<^sup>*\<^sup>* (sched_init []) (toy_running [] [])" using toy_start_empty by blast
  from cancelled_reconcile_damage [OF this toy_backend_ok toy_live_empty toy_cut_register]
  have "in_sync toy_env toy_live (toy_running [Some toy_schedule] [])
      \<or> (\<exists>i. leaked toy_env toy_live (toy_running [Some toy_schedule] []) i)
      \<or> (\<exists>k ent. lost toy_env toy_live (toy_running [Some toy_schedule] []) k ent)" by blast
  moreover have "toy_live [Some toy_schedule] [] \<noteq> None" by (simp add: toy_live_def)
  then have "\<not> in_sync toy_env toy_live (toy_running [Some toy_schedule] [])"
    unfolding in_sync_def toy_running_def by (metis map_of.simps(1) option.distinct(1) sched.select_convs(1,2))
  moreover have "\<not> lost toy_env toy_live (toy_running [Some toy_schedule] []) k ent" for k ent by (simp add: lost_def toy_running_def)
  ultimately show ?thesis using toy_cut_register by blast
qed

text \<open>
  A reconcile that the cancellation does not reach is the reconcile of the atomic model, and one
  whose cancellation comes after its last await is not reached.
\<close>

theorem uncut_reconcile:
  "(reconcile_cut E took f n s = Going s' m r \<longrightarrow> reconcile E f s = (s', r))
   \<and> (awaits f s \<le> n \<longrightarrow> (\<exists>m. reconcile_cut E took f n s = Going (fst (reconcile E f s)) m (snd (reconcile E f s))))"
  using reconcile_going reconcile_uncut by blast

lemma uncut_reconcile_witness:
  "\<exists>m. reconcile_cut toy_env True (Some [toy_row]) 9 (toy_running [] []) =
     Going (toy_running [Some toy_schedule] [(toy_key, toy_entry [])]) m False"
proof -
  have "reconcile toy_env (Some [toy_row]) (toy_running [] []) = (toy_running [Some toy_schedule] [(toy_key, toy_entry [])], False)"
    by (simp add: reconcile_def toy_facts drop_stale_def toy_place toy_running_def)
  moreover have "awaits (Some [toy_row]) (toy_running [] []) \<le> 9" by (simp add: awaits_def toy_facts toy_running_def)
  ultimately show ?thesis using uncut_reconcile [of toy_env True "Some [toy_row]" 9 "toy_running [] []"] by simp
qed



text \<open>
  And what was lost stays lost: as long as the provider's row and its cron spec stay the same, every reconcile finds
  the entry with the right hash and leaves it, and the provider is never run.
\<close>

theorem lost_schedule_stays_lost:
  assumes "lost E live s k ent" "backend_ok E live" "never_given E G (ent_id ent)" "G (sc_world s)"
    and "list_all (\<lambda>rows. \<exists>p c. dget (desired_of rows) k = Some p \<and> se_derive E p = Inr (c, True)
           \<and> config_hash c (pr_config p) = Some (ent_hash ent)) rowss"
  defines "s' \<equiv> foldl (\<lambda>s rows. fst (reconcile E (Some rows) s)) s rowss"
  shows "dget (sc_entries s') k = Some ent \<and> live (sc_world s') (ent_id ent) = None"
proof -
  have "dead_entry live G k ent s \<Longrightarrow> dead_entry live G k ent (foldl (\<lambda>s rows. fst (reconcile E (Some rows) s)) s rowss)"
    using assms(5)
  proof (induction rowss arbitrary: s)
    case (Cons rows rowss)
    then show ?case using dead_reconcile [OF assms(2,3) Cons.prems(1)] by auto
  qed simp
  then show ?thesis using assms(1,4) by (simp add: s'_def lost_def dead_entry_def)
qed

lemma lost_schedule_stays_lost_witness:
  "\<exists>s. (cancel_step toy_env)\<^sup>*\<^sup>* (sched_init []) s \<and> keys (sc_entries s) = [toy_key] \<and> sc_stopped s
    \<and> toy_live (sc_world (fst (reconcile toy_env (Some [toy_row]) s))) [] = None"
proof -
  let ?s = "toy_stopped [None] [(toy_key, toy_entry [])]"
  have "cancel_step toy_env (sched_init []) (toy_running [Some toy_schedule] [(toy_key, toy_entry [])])"
    by (rule cs_whole [OF toy_start(2)])
  moreover have "cancel_step toy_env (toy_running [Some toy_schedule] [(toy_key, toy_entry [])]) ?s"
    using cs_cut [OF _ _ toy_cut_unregister] by (simp add: toy_running_def toy_stopped_def)
  ultimately have steps: "(cancel_step toy_env)\<^sup>*\<^sup>* (sched_init []) ?s" by (meson converse_rtranclp_into_rtranclp rtranclp.rtrancl_refl)
  have "toy_live [None] = Map.empty" by (auto simp: toy_live_def fun_eq_iff)
  then have "lost toy_env toy_live ?s toy_key (toy_entry [])" by (simp add: lost_def toy_stopped_def toy_entry_def in_sync_def)
  moreover have "never_given toy_env (\<lambda>ws. 1 \<le> length ws) (ent_id (toy_entry []))"
    by (auto simp: never_given_def enqueue_now_def toy_env_def toy_entry_def)
  moreover have "1 \<le> length (sc_world ?s)" by (simp add: toy_stopped_def)
  moreover have "list_all (\<lambda>rows. \<exists>p c. dget (desired_of rows) toy_key = Some p \<and> se_derive toy_env p = Inr (c, True)
      \<and> config_hash c (pr_config p) = Some (ent_hash (toy_entry []))) [[toy_row]]"
    using toy_facts by (simp add: toy_entry_def)
  ultimately have "toy_live (sc_world (fst (reconcile toy_env (Some [toy_row]) ?s))) [] = None"
    using lost_schedule_stays_lost [OF _ toy_backend_ok, of ?s toy_key "toy_entry []" "\<lambda>ws. 1 \<le> length ws" "[[toy_row]]"]
    by (simp add: toy_entry_def)
  with steps show ?thesis by (intro exI [of _ ?s]) (simp add: toy_stopped_def)
qed

end
