(* ===== verification/Clients.thy ===== *)
theory Clients
  imports OpenBao EventBus Sessions
begin

text \<open>
  Who closes which client: \<open>OpenBaoKMS\<close> (\<open>omkit/kms/openbao.py\<close>), the buses (\<open>omkit/eventbus.py\<close>) and the session
  stores (\<open>omkit/sessions.py\<close>) work over a client that the caller passes or that they make themselves, and each has a
  \<open>close\<close>.  The clients and the objects over them are the state; what a closed client does is the library's.
\<close>

section \<open>Clients and the objects over them\<close>

datatype maker = Caller | Sdk

text \<open>How often the SDK has closed it.\<close>

record sdk_client =
  cl_maker :: maker
  cl_closes :: nat

text \<open>\<open>Bao\<close> carries \<open>_owns_client\<close>.\<close>

datatype holder_kind = Bao bool | PgBus | RedisBusOver | PgStore | RedisStoreOver

text \<open>Its client, the bus's stop event, and how often it was closed.\<close>

record holder =
  ho_kind :: holder_kind
  ho_client :: "nat option"
  ho_stop :: bool
  ho_closes :: nat

record sdk_objects =
  so_clients :: "sdk_client list"
  so_holders :: "holder list"

definition objects_init :: sdk_objects where
  "objects_init = \<lparr>so_clients = [], so_holders = []\<rparr>"

definition make_client :: "maker \<Rightarrow> sdk_objects \<Rightarrow> sdk_objects" where
  "make_client m s = s\<lparr>so_clients := so_clients s @ [\<lparr>cl_maker = m, cl_closes = 0\<rparr>]\<rparr>"

definition add_holder :: "holder_kind \<Rightarrow> nat option \<Rightarrow> sdk_objects \<Rightarrow> sdk_objects" where
  "add_holder k c s = s\<lparr>so_holders := so_holders s @ [\<lparr>ho_kind = k, ho_client = c, ho_stop = False, ho_closes = 0\<rparr>]\<rparr>"

text \<open>The client the caller passes, or a new one.\<close>

definition over_client :: "(bool \<Rightarrow> holder_kind) \<Rightarrow> nat option \<Rightarrow> sdk_objects \<Rightarrow> sdk_objects" where
  "over_client k given s =
     (case given of
        Some c \<Rightarrow> add_holder (k False) (Some c) s
      | None \<Rightarrow> add_holder (k True) (Some (length (so_clients s))) (make_client Sdk s))"

definition open_bao :: "pystr \<Rightarrow> pystr \<Rightarrow> pystr \<Rightarrow> pystr \<Rightarrow> nat option \<Rightarrow> sdk_objects \<Rightarrow> bao_missing + sdk_objects" where
  "open_bao addr role_id secret_id key_name given s =
     (case bao_init addr role_id secret_id key_name () of Inl e \<Rightarrow> Inl e | Inr _ \<Rightarrow> Inr (over_client Bao given s))"

text \<open>None is the \<open>ValueError\<close> of the factories.\<close>

definition open_bus ::
    "pystr option \<Rightarrow> bool \<Rightarrow> nat option \<Rightarrow> pystr \<Rightarrow> pystr \<Rightarrow> pystr option \<Rightarrow> sdk_objects \<Rightarrow> sdk_objects option" where
  "open_bus var has_pool given url consumer grp s =
     (case new_bus var has_pool (given \<noteq> None) url consumer grp of
        PostgresBus \<Rightarrow> Some (add_holder PgBus None s)
      | RedisBus _ _ \<Rightarrow> Some (over_client (\<lambda>_. RedisBusOver) given s)
      | BusValueError \<Rightarrow> None)"

definition open_store :: "pystr option \<Rightarrow> bool \<Rightarrow> nat option \<Rightarrow> pystr \<Rightarrow> sdk_objects \<Rightarrow> sdk_objects option" where
  "open_store var has_pool given url s =
     (case new_store var has_pool (given \<noteq> None) url of
        PgSessions \<Rightarrow> Some (add_holder PgStore None s)
      | RedisSessions _ \<Rightarrow> Some (over_client (\<lambda>_. RedisStoreOver) given s)
      | SessionValueError \<Rightarrow> None)"

section \<open>Closing\<close>

definition close_client :: "nat \<Rightarrow> sdk_client list \<Rightarrow> sdk_client list" where
  "close_client c cs = cs[c := (cs ! c)\<lparr>cl_closes := Suc (cl_closes (cs ! c))\<rparr>]"

definition bao_aclose :: "bool \<Rightarrow> nat \<Rightarrow> sdk_client list \<Rightarrow> sdk_client list" where
  "bao_aclose owns c cs = (if owns then close_client c cs else cs)"

definition pg_bus_close :: "holder \<Rightarrow> holder" where
  "pg_bus_close h = h\<lparr>ho_stop := True\<rparr>"

definition redis_bus_close :: "holder \<Rightarrow> nat \<Rightarrow> sdk_client list \<Rightarrow> holder \<times> sdk_client list" where
  "redis_bus_close h c cs = (h\<lparr>ho_stop := True\<rparr>, close_client c cs)"

definition pg_store_close :: "holder \<Rightarrow> holder" where
  "pg_store_close h = h"

definition redis_store_close :: "nat \<Rightarrow> sdk_client list \<Rightarrow> sdk_client list" where
  "redis_store_close c cs = close_client c cs"

text \<open>The close of an object, by its class.\<close>

definition close_holder :: "holder \<Rightarrow> sdk_client list \<Rightarrow> holder \<times> sdk_client list" where
  "close_holder h cs =
     (case (ho_kind h, ho_client h) of
        (Bao owns, Some c) \<Rightarrow> (h, bao_aclose owns c cs)
      | (PgBus, _) \<Rightarrow> (pg_bus_close h, cs)
      | (RedisBusOver, Some c) \<Rightarrow> redis_bus_close h c cs
      | (PgStore, _) \<Rightarrow> (pg_store_close h, cs)
      | (RedisStoreOver, Some c) \<Rightarrow> (h, redis_store_close c cs)
      | _ \<Rightarrow> (h, cs))"

definition close_nth :: "nat \<Rightarrow> sdk_objects \<Rightarrow> sdk_objects" where
  "close_nth i s =
     (case close_holder (so_holders s ! i) (so_clients s) of
        (h, cs) \<Rightarrow> s\<lparr>so_holders := (so_holders s)[i := h\<lparr>ho_closes := Suc (ho_closes h)\<rparr>], so_clients := cs\<rparr>)"

text \<open>The caller makes a client, makes an object over a client of its own or over none, or closes an object.\<close>

definition may_pass :: "nat option \<Rightarrow> sdk_objects \<Rightarrow> bool" where
  "may_pass given s = (\<forall>c. given = Some c \<longrightarrow> c < length (so_clients s) \<and> cl_maker (so_clients s ! c) = Caller)"

inductive object_step :: "sdk_objects \<Rightarrow> sdk_objects \<Rightarrow> bool" where
  ob_client: "object_step s (make_client Caller s)"
| ob_bao: "may_pass given s \<Longrightarrow> open_bao a r x k given s = Inr s' \<Longrightarrow> object_step s s'"
| ob_bus: "may_pass given s \<Longrightarrow> open_bus v p given u n g s = Some s' \<Longrightarrow> object_step s s'"
| ob_store: "may_pass given s \<Longrightarrow> open_store v p given u s = Some s' \<Longrightarrow> object_step s s'"
| ob_close: "i < length (so_holders s) \<Longrightarrow> object_step s (close_nth i s)"

section \<open>Lemmas\<close>

text \<open>Whether an object's close closes the client \<open>c\<close>.\<close>

definition closes :: "nat \<Rightarrow> holder \<Rightarrow> bool" where
  "closes c h = (ho_client h = Some c \<and> ho_kind h \<noteq> Bao False)"

definition holder_ok :: "sdk_client list \<Rightarrow> holder \<Rightarrow> bool" where
  "holder_ok cs h =
     ((case ho_client h of None \<Rightarrow> ho_kind h = PgBus \<or> ho_kind h = PgStore
       | Some c \<Rightarrow> ho_kind h \<noteq> PgBus \<and> ho_kind h \<noteq> PgStore \<and> c < length cs
           \<and> (cl_maker (cs ! c) = Caller \<longrightarrow> ho_kind h \<noteq> Bao True) \<and> (cl_maker (cs ! c) = Sdk \<longrightarrow> ho_kind h \<noteq> Bao False))
      \<and> (ho_stop h \<longleftrightarrow> 0 < ho_closes h \<and> (ho_kind h = PgBus \<or> ho_kind h = RedisBusOver)))"

definition closed_by :: "nat \<Rightarrow> holder list \<Rightarrow> nat" where
  "closed_by c hs = sum_list (map (\<lambda>h. if closes c h then ho_closes h else 0) hs)"

definition objects_ok :: "sdk_objects \<Rightarrow> bool" where
  "objects_ok s =
     (list_all (holder_ok (so_clients s)) (so_holders s)
      \<and> (\<forall>c < length (so_clients s). cl_closes (so_clients s ! c) = closed_by c (so_holders s)
          \<and> (cl_maker (so_clients s ! c) = Sdk \<longrightarrow> length (filter (\<lambda>h. ho_client h = Some c) (so_holders s)) = 1)))"

lemma closed_by_simps [simp]:
  "closed_by c [] = 0" "closed_by c (hs @ [h]) = closed_by c hs + (if closes c h then ho_closes h else 0)"
  by (simp_all add: closed_by_def)

lemma holder_ok_more: "holder_ok cs h \<Longrightarrow> holder_ok (cs @ ds) h"
  by (auto simp: holder_ok_def nth_append split: option.splits)

lemma closed_by_fresh: "list_all (holder_ok cs) hs \<Longrightarrow> length cs \<le> c \<Longrightarrow> closed_by c hs = 0 \<and> filter (\<lambda>h. ho_client h = Some c) hs = []"
  by (induction hs) (auto simp: closed_by_def closes_def holder_ok_def split: option.splits)

lemma objects_ok_client: "objects_ok s \<Longrightarrow> objects_ok (make_client Caller s)"
  using closed_by_fresh [of "so_clients s" "so_holders s" "length (so_clients s)"]
  by (auto simp: objects_ok_def make_client_def list_all_iff nth_append less_Suc_eq intro: holder_ok_more)

lemma objects_ok_pg: "objects_ok s \<Longrightarrow> k = PgBus \<or> k = PgStore \<Longrightarrow> objects_ok (add_holder k None s)"
  by (auto simp: objects_ok_def add_holder_def holder_ok_def closes_def)

lemma objects_ok_over:
  assumes "objects_ok s" "may_pass given s" "k = Bao \<or> k = (\<lambda>_. RedisBusOver) \<or> k = (\<lambda>_. RedisStoreOver)"
  shows "objects_ok (over_client k given s)"
proof (cases given)
  case None
  have "closed_by (length (so_clients s)) (so_holders s) = 0 \<and> filter (\<lambda>h. ho_client h = Some (length (so_clients s))) (so_holders s) = []"
    using assms(1) by (intro closed_by_fresh [OF _ order_refl]) (simp add: objects_ok_def)
  then show ?thesis using None assms(1,3)
    by (auto simp: objects_ok_def over_client_def add_holder_def make_client_def list_all_iff nth_append less_Suc_eq
        holder_ok_def [of _ "\<lparr>ho_kind = _, ho_client = _, ho_stop = _, ho_closes = _\<rparr>"] closes_def intro: holder_ok_more)
next
  case (Some c)
  then show ?thesis using assms
    by (auto simp: objects_ok_def over_client_def add_holder_def may_pass_def
        holder_ok_def [of _ "\<lparr>ho_kind = _, ho_client = _, ho_stop = _, ho_closes = _\<rparr>"] closes_def)
qed

lemma closed_by_update:
  assumes "i < length hs" "ho_client h = ho_client (hs ! i)" "ho_kind h = ho_kind (hs ! i)" "ho_closes h = Suc (ho_closes (hs ! i))"
  shows "closed_by c (hs[i := h]) = closed_by c hs + (if closes c (hs ! i) then 1 else 0)"
  using assms
proof (induction hs arbitrary: i)
  case (Cons x xs)
  then show ?case by (cases i) (auto simp: closed_by_def closes_def)
qed simp

lemma filter_update:
  "i < length hs \<Longrightarrow> P h = P (hs ! i) \<Longrightarrow> length (filter P (hs[i := h])) = length (filter P hs)"
proof (induction hs arbitrary: i)
  case (Cons x xs)
  then show ?case by (cases i) auto
qed simp

text \<open>A close keeps the kind and the client of its object, sets the stop of a bus, and counts on the client it closes.\<close>

lemma close_holder_spec:
  assumes "holder_ok cs h" "close_holder h cs = (h', cs')"
  shows "ho_client h' = ho_client h" "ho_kind h' = ho_kind h" "ho_closes h' = ho_closes h"
    and "ho_stop h' \<longleftrightarrow> ho_stop h \<or> ho_kind h = PgBus \<or> ho_kind h = RedisBusOver"
    and "length cs' = length cs"
    and "c < length cs \<Longrightarrow> cs' ! c = (cs ! c)\<lparr>cl_closes := cl_closes (cs ! c) + (if closes c h then 1 else 0)\<rparr>"
  using assms
  by (auto simp: close_holder_def holder_ok_def bao_aclose_def pg_bus_close_def redis_bus_close_def pg_store_close_def
      redis_store_close_def close_client_def closes_def nth_list_update split: holder_kind.splits option.splits if_splits)

lemma holder_ok_same:
  assumes "holder_ok cs h" "length cs' = length cs" "\<And>c. c < length cs \<Longrightarrow> cl_maker (cs' ! c) = cl_maker (cs ! c)"
  shows "holder_ok cs' h"
  using assms by (auto simp: holder_ok_def split: option.splits)

lemma objects_ok_close:
  assumes ok: "objects_ok s" and i: "i < length (so_holders s)"
  shows "objects_ok (close_nth i s)"
proof -
  let ?h = "so_holders s ! i" and ?cs = "so_clients s"
  obtain h' cs' where ch: "close_holder ?h ?cs = (h', cs')" by fastforce
  let ?h' = "h'\<lparr>ho_closes := Suc (ho_closes h')\<rparr>"
  have all: "holder_ok ?cs x" if "x \<in> set (so_holders s)" for x using ok that by (simp add: objects_ok_def list_all_iff)
  note spec = close_holder_spec [OF all [OF nth_mem [OF i]] ch]
  have same: "holder_ok cs' x" if "x \<in> set (so_holders s)" for x
    by (rule holder_ok_same [OF all [OF that] spec(5)]) (simp add: spec(6))
  have "holder_ok cs' ?h'" using same [OF nth_mem [OF i]] spec(1-4) by (auto simp: holder_ok_def split: option.splits)
  then have "list_all (holder_ok cs') ((so_holders s)[i := ?h'])"
    using same by (auto simp: list_all_iff dest!: set_update_subset_insert [THEN subsetD])
  moreover have "closed_by c ((so_holders s)[i := ?h']) = closed_by c (so_holders s) + (if closes c ?h then 1 else 0)"
    "length (filter (\<lambda>h. ho_client h = Some c) ((so_holders s)[i := ?h'])) = length (filter (\<lambda>h. ho_client h = Some c) (so_holders s))" for c
    using closed_by_update [OF i, of ?h'] filter_update [OF i, of "\<lambda>h. ho_client h = Some c" ?h'] spec(1-3) by simp_all
  ultimately show ?thesis using ok ch spec(5,6) by (simp add: objects_ok_def close_nth_def)
qed

lemma objects_ok_step: "object_step s s' \<Longrightarrow> objects_ok s \<Longrightarrow> objects_ok s'"
proof (induction rule: object_step.induct)
  case (ob_bao given s a r x k s')
  then show ?case using objects_ok_over [of s given Bao] by (auto simp: open_bao_def split: sum.splits)
next
  case (ob_bus given s v p u n g s')
  then show ?case using objects_ok_over [of s given "\<lambda>_. RedisBusOver"] objects_ok_pg [of s PgBus]
    by (auto simp: open_bus_def split: bus_choice.splits)
next
  case (ob_store given s v p u s')
  then show ?case using objects_ok_over [of s given "\<lambda>_. RedisStoreOver"] objects_ok_pg [of s PgStore]
    by (auto simp: open_store_def split: session_choice.splits)
qed (auto intro: objects_ok_client objects_ok_close)

lemma objects_ok_reach: "object_step\<^sup>*\<^sup>* objects_init s \<Longrightarrow> objects_ok s"
proof (induction rule: rtranclp_induct)
  case base
  show ?case by (simp add: objects_ok_def objects_init_def)
qed (rule objects_ok_step)

lemma closed_by_pos: "0 < closed_by c hs \<longleftrightarrow> (\<exists>h \<in> set hs. closes c h \<and> 0 < ho_closes h)"
  by (induction hs) (auto simp: closed_by_def)

lemma one_index:
  assumes "length (filter P xs) = 1"
  shows "\<exists>!i. i < length xs \<and> P (xs ! i)"
proof -
  have "card {i. i < length xs \<and> P (xs ! i)} = 1" using assms by (simp add: length_filter_conv_card)
  then obtain j where "{i. i < length xs \<and> P (xs ! i)} = {j}" by (rule card_1_singletonE)
  then show ?thesis by (intro ex1I [of _ j]) auto
qed

text \<open>A client of the caller under a KMS and two buses; the KMS and the first bus are closed.\<close>

definition shared_client :: sdk_objects where
  "shared_client =
     close_nth 1 (close_nth 0 (add_holder RedisBusOver (Some 0) (add_holder RedisBusOver (Some 0) (add_holder (Bao False) (Some 0)
       (make_client Caller objects_init)))))"

lemma shared_client_reach: "object_step\<^sup>*\<^sup>* objects_init shared_client"
proof -
  let ?s1 = "make_client Caller objects_init"
  let ?s2 = "add_holder (Bao False) (Some 0) ?s1"
  let ?s3 = "add_holder RedisBusOver (Some 0) ?s2"
  let ?s4 = "add_holder RedisBusOver (Some 0) ?s3"
  have p: "may_pass (Some 0) ?s1" "may_pass (Some 0) ?s2" "may_pass (Some 0) ?s3"
    by (simp_all add: may_pass_def make_client_def add_holder_def objects_init_def)
  have "object_step ?s1 ?s2"
    by (rule ob_bao [OF p(1), where a = "[1]" and r = "[1]" and x = "[1]" and k = "[]"]) (simp add: open_bao_def bao_init_def over_client_def)
  moreover have "object_step s (add_holder RedisBusOver (Some 0) s)" if "may_pass (Some 0) s" for s
    by (rule ob_bus [OF that, where v = "Some (py ''redis'')" and p = False and u = "[]" and n = "[]" and g = None])
      (simp add: open_bus_def new_bus_def bus_backend_from_env_def or_none_def over_client_def)
  moreover have "object_step ?s4 (close_nth 0 ?s4)" "object_step (close_nth 0 ?s4) (close_nth 1 (close_nth 0 ?s4))"
    by (rule ob_close, simp add: add_holder_def close_nth_def split: prod.split)+
  ultimately show ?thesis
    unfolding shared_client_def using ob_client [of objects_init] p(2,3) by (meson converse_rtranclp_into_rtranclp rtranclp.rtrancl_refl)
qed

section \<open>Properties\<close>

text \<open>
  A client is closed by the SDK exactly when an object over it is that has a right to it: any bus or store over Redis,
  but an \<open>OpenBaoKMS\<close> only if it made the client.  A client that the SDK made has exactly one object over it, so that
  closing this closes it.  A bus is told to stop exactly when it is closed.  A Redis client that the
  caller shares among several objects is closed by the first close of any of them.
\<close>

theorem clients_closed_by_holders:
  assumes "object_step\<^sup>*\<^sup>* objects_init s" "c < length (so_clients s)"
  shows "(0 < cl_closes (so_clients s ! c) \<longleftrightarrow>
      (\<exists>h \<in> set (so_holders s). ho_client h = Some c \<and> 0 < ho_closes h \<and> ho_kind h \<noteq> Bao False))
    \<and> (cl_maker (so_clients s ! c) = Sdk \<longrightarrow>
        (\<exists>!i. i < length (so_holders s) \<and> ho_client (so_holders s ! i) = Some c)
        \<and> (0 < cl_closes (so_clients s ! c) \<longleftrightarrow> (\<exists>h \<in> set (so_holders s). ho_client h = Some c \<and> 0 < ho_closes h)))
    \<and> (\<forall>h \<in> set (so_holders s). ho_stop h \<longleftrightarrow> 0 < ho_closes h \<and> (ho_kind h = PgBus \<or> ho_kind h = RedisBusOver))"
proof -
  have ok: "objects_ok s" by (rule objects_ok_reach [OF assms(1)])
  then have h: "holder_ok (so_clients s) h" if "h \<in> set (so_holders s)" for h using that by (simp add: objects_ok_def list_all_iff)
  have "cl_closes (so_clients s ! c) = closed_by c (so_holders s)" using ok assms(2) by (simp add: objects_ok_def)
  then have 1: "0 < cl_closes (so_clients s ! c) \<longleftrightarrow> (\<exists>h \<in> set (so_holders s). ho_client h = Some c \<and> 0 < ho_closes h \<and> ho_kind h \<noteq> Bao False)"
    by (auto simp: closed_by_pos closes_def)
  have 2: "(\<exists>!i. i < length (so_holders s) \<and> ho_client (so_holders s ! i) = Some c)
      \<and> (0 < cl_closes (so_clients s ! c) \<longleftrightarrow> (\<exists>h \<in> set (so_holders s). ho_client h = Some c \<and> 0 < ho_closes h))"
    if m: "cl_maker (so_clients s ! c) = Sdk"
  proof
    show "\<exists>!i. i < length (so_holders s) \<and> ho_client (so_holders s ! i) = Some c"
      using ok assms(2) m by (intro one_index) (simp add: objects_ok_def)
    have "ho_kind x \<noteq> Bao False" if "x \<in> set (so_holders s)" "ho_client x = Some c" for x
      using h [OF that(1)] that(2) m by (simp add: holder_ok_def)
    then show "0 < cl_closes (so_clients s ! c) \<longleftrightarrow> (\<exists>h \<in> set (so_holders s). ho_client h = Some c \<and> 0 < ho_closes h)"
      using 1 by blast
  qed
  have "\<forall>h \<in> set (so_holders s). ho_stop h \<longleftrightarrow> 0 < ho_closes h \<and> (ho_kind h = PgBus \<or> ho_kind h = RedisBusOver)"
    using h by (auto simp: holder_ok_def)
  then show ?thesis using 1 2 by (intro conjI impI) simp_all
qed

lemma clients_closed_by_holders_witness:
  "0 < cl_closes (so_clients shared_client ! 0) \<and> map ho_stop (so_holders shared_client) = [False, True, False]"
proof -
  have s: "so_holders shared_client = [\<lparr>ho_kind = Bao False, ho_client = Some 0, ho_stop = False, ho_closes = 1\<rparr>,
      \<lparr>ho_kind = RedisBusOver, ho_client = Some 0, ho_stop = True, ho_closes = 1\<rparr>,
      \<lparr>ho_kind = RedisBusOver, ho_client = Some 0, ho_stop = False, ho_closes = 0\<rparr>]" "length (so_clients shared_client) = 1"
    by (simp_all add: shared_client_def close_nth_def close_holder_def bao_aclose_def redis_bus_close_def close_client_def
        add_holder_def make_client_def objects_init_def)
  then show ?thesis using clients_closed_by_holders [OF shared_client_reach, of 0] by simp
qed

end
