(* ===== verification/Spec2Isabelle.thy ===== *)
theory Spec2Isabelle
  imports Encryption LocalDev OpenBao Envelope Roles Flags Resilience Quota Scheduler EventBus
    Sessions Registry Settings Lifecycle HttpClient Streams Subscriber Cleanup SecurityEvents Database Services Sanitize
    SettingsRun RegistryRun Subscriptions Providers Golden RowSecurity TokenLock
    Pollers ModelTasks SchedulerCancel Clients
begin

text \<open>
  \<^bold>\<open>A verification library for omkit-python\<close>

  omkit is the SDK that the services of a multi-tenant platform share.  A request enters a service
  through the tenant gate (\<open>omkit/tenant.py\<close>), which binds the tenant of its header; from there
  everything the service does is done under that tenant: rows are read under row-level security,
  jobs carry it in their envelopes (\<open>omkit/jobqueue\<close>), outgoing requests carry it in a header
  (\<open>omkit/httpclient.py\<close>), and logs and events are tagged with it.  Around this core stand the
  modules that keep state: key management, event bus, sessions, settings, feature flags, quotas, the
  circuit breaker, the provider registry, the scheduler, the model registry, streams, and cleanup.

  \<^bold>\<open>Conventions\<close>

  A Python \<open>str\<close> is a list of code points (\<^typ>\<open>pystr\<close>), \<open>bytes\<close> a list of 8-bit words, a \<open>dict\<close> an
  association list in insertion order.  A call that may raise returns a sum (the exception on the
  left) or an option.  A coroutine is a function on its object's state where nothing else can run
  in between, and a step of an inductive relation where other tasks can.  Context variables and
  environment variables are arguments and results.  Tables of the database are lists of rows on
  which the SQL of the source is written out; Redis streams, hashes and locks are explicit too.  The
  clock is an argument.  Third-party code is a parameter: pydantic, httpx's headers, AES-GCM (with
  the laws of an authenticated cipher), Postgres casts, with what the code relies on as a named
  predicate or a locale; the standard library is defined, where the source uses it: UTF-8, base64,
  hexadecimal, \<open>json\<close>, \<open>uuid\<close>, \<open>hmac\<close> with SHA-256, \<open>datetime.isoformat\<close>, \<open>html.escape\<close>.

  \<^bold>\<open>Theories\<close>

  \<^item> \<open>OmPrelude\<close>, \<open>PyText\<close>, \<open>Utf8\<close>, \<open>Base64\<close>, \<open>Json\<close>, \<open>JsonRT\<close>, \<open>JsonIndent\<close>, \<open>Sha256\<close>: the Python that the components
    share, with the round trips of the codecs (reading back what \<open>json.dumps\<close> wrote is
    \<open>loads_dumps_default\<close>, \<open>loads_dumps_compact\<close> and \<open>loads_dumps_indent\<close>).
  \<^item> \<open>AesGcm\<close> (\<open>omkit/crypto\<close>), \<open>Encryption\<close> (\<open>omkit/encryption.py\<close>): sealing and opening under any
    cipher that satisfies the locale of authenticated encryption; tokens of secret settings.
  \<^item> \<open>Kms\<close>, \<open>LocalDev\<close>, \<open>OpenBao\<close> (\<open>omkit/kms\<close>): the contract of a key manager as a locale, interpreted
    on both adapters; the binding of wrapped keys to user and purpose; token cache, login and retry.
    \<open>TokenLock\<close> has any number of concurrent calls over the one token and its lock.
  \<^item> \<open>Tenant\<close> (\<open>omkit/tenant.py\<close>), \<open>Envelope\<close> (\<open>omkit/jobqueue\<close>), \<open>HttpClient\<close> (\<open>omkit/httpclient.py\<close>): the
    tenant's way in, through the job queue, and out to the next service.
  \<^item> \<open>Roles\<close> (\<open>omkit/auth\<close>), \<open>Flags\<close> (\<open>omkit/featureflags\<close>), \<open>SecurityEvents\<close> (\<open>omkit/security\<close>): roles and their
    checks, audit rows, flags with their cache, security rows.
  \<^item> \<open>Resilience\<close> (\<open>omkit/resilience.py\<close>), \<open>Quota\<close> (\<open>omkit/quota.py\<close>): the breaker as a state machine under
    interleaved calls, retries; limits, months and usage.
  \<^item> \<open>EventBus\<close> (\<open>omkit/eventbus.py\<close>), \<open>Streams\<close> (\<open>omkit/valkeystream.py\<close>), \<open>Subscriber\<close>
    (\<open>omkit/valkeysub.py\<close>): delivery, with offsets in Postgres, with pending lists in Redis, and over
    pub/sub with reconnects.
  \<^item> \<open>Sessions\<close> (\<open>omkit/sessions.py\<close>): the locale of a session store, interpreted on the Postgres and
    the Redis store.
  \<^item> \<open>Settings\<close> (\<open>omkit/settings.py\<close>), \<open>Registry\<close> (\<open>omkit/provider/registry.py\<close>), \<open>Scheduler\<close>
    (\<open>omkit/scheduler\<close>), \<open>Lifecycle\<close> (\<open>omkit/model_lifecycle.py\<close>), \<open>Cleanup\<close> (\<open>omkit/cleanup.py\<close>): the
    background loops; what each leaves in place after any sequence of changes, failures and stops.
  \<^item> \<open>Loops\<close>: the event-ended loop of the workers (\<open>while not stop.is_set()\<close> over an
    \<open>asyncio.wait_for\<close>), and exactly when it returns.  \<open>SettingsRun\<close> (\<open>omkit/settings.py\<close>) and
    \<open>RegistryRun\<close> (\<open>omkit/provider/registry.py\<close>) build on it: the life of a settings manager with
    its worker tasks, the reconnecting listener and the poll loop of the registry; \<open>Subscriptions\<close> ties
    the loops of both buses and of the scheduler to their step relations.
  \<^item> \<open>Pollers\<close>: the replicas of a service inside the polls of one consumer of the event bus.  \<open>ModelTasks\<close>:
    callers of a model and a reaper that are cancelled while the executor's threads run on.
    \<open>SchedulerCancel\<close>: a reconcile cut at any await by a stop.  Each refines the theory with the atomic
    steps: an uninterrupted run is shown to be the atomic one, or the relation contains its steps.
  \<^item> \<open>Clients\<close>: the clients under KMS, buses and session stores, and which \<open>close\<close> closes which.
  \<^item> \<open>Providers\<close> (\<open>omkit/provider/base.py\<close>): the data contracts of a provider.  \<open>Golden\<close>
    (\<open>scripts/regen_golden.py\<close>): the fixtures that both SDKs are tested on.
  \<^item> \<open>Database\<close> (\<open>omkit/dbpool.py\<close>, \<open>omkit/config.py\<close>, \<open>omkit/valkey.py\<close>), \<open>Services\<close> (\<open>omkit/health.py\<close>,
    \<open>cost.py\<close>, \<open>logging.py\<close>, \<open>metrics.py\<close>, \<open>tracing.py\<close>, \<open>syncnotifier.py\<close>, \<open>provider/base.py\<close>),
    \<open>Sanitize\<close> (\<open>omkit/sanitize.py\<close>): connection strings and pool arguments, the small modules every
    service mounts, and the cleaning of LLM output and HTML.

  \<^item> \<open>RowSecurity\<close>: row-level security over the life of a pooled connection, from the role of
    \<open>dbpool\<close> through the guards of \<open>tenant\<close> and the role switch of \<open>eventbus\<close> to what the queries of \<open>sessions\<close>
    see; which roles bypass it and what the policies say is a parameter.

  Every theory has its definitions in the order of the code, then lemmas, then the properties under
  \<open>Properties\<close>, each with a witness where it has a hypothesis.

  \<^bold>\<open>What is proved\<close>

  \<^item> \<^emph>\<open>Tenant isolation.\<close>  No request passes the gate without a valid tenant header; the application
    runs under exactly that tenant, and so do the jobs it enqueues and the services it calls; a
    pooled connection carries a tenant only inside a transaction, and sees the rows of no other as long as its
    role is restricted; limits, sessions and keys of one
    tenant are out of the reach of another.
  \<^item> \<^emph>\<open>Round trips and refusals.\<close>  Envelopes, tokens, wrapped keys, session payloads, events and stream
    messages read back exactly; what cannot be read is refused with the documented error.
  \<^item> \<^emph>\<open>Invariants under interleaving.\<close>  The breaker, the token lock, the flag cache, the buses, the registry, the
    scheduler, the model registry and the cleanup locks keep their invariants over every
    interleaving of the steps of their relations, failures included; offsets, models and schedules also
    where the steps of a poll interleave and where a caller, a reaper or a reconcile is cancelled half way, with
    exactly what a cancellation may leave behind.
  \<^item> \<^emph>\<open>Refinement.\<close>  The cached flag store is the last snapshot less the invalidated keys; a settings
    poll is the table's state; both KMS adapters meet the contract of \<open>Kms\<close>.
  \<^item> \<^emph>\<open>Composition.\<close>  The theorems of this theory follow one tenant through the gate, the job queue, a
    worker, row-level security, an outgoing request and the next service's gate, and from a scheduled
    job back to the provider it was registered for.
  \<^item> \<^emph>\<open>Where the code falls short\<close> of what it promises, the property says what does hold, and the
    exact input on which it fails: events that commit out of order, the role that a
    connection loses to a transaction of the event bus, an offset that a slower replica moves back, a schedule or a released
    model that a stop leaves behind, a login for every call that held a revoked token, idle stream entries that are
    never claimed, binding labels that collide when a name holds a bar, and others.

  \<^bold>\<open>Bounds and termination\<close>

  Loops over lists are structural.  The JSON reader and the text scans recurse on the length of what
  is left and have termination proofs; there is no fuel.  A loop that a stop event ends is a partial
  function (\<open>stop_loop\<close>), with the exact condition under which it returns and the round it returns
  in; a poll loop returns in the first round that sees the stop, a cancellation or
  an exception it does not catch, and never if there is none.  Other endless loops (subscriptions,
  reapers, ticks) are their bodies as steps, over sequences of any length.

  \<^bold>\<open>Not modelled\<close>

  The facades, which only re-export, and the import guards of optional packages.  Of the modelled
  modules: log output and metrics histograms, except where the outcome is one; the exact backoff of
  retries; TLS and HTTP below the request; start-up and shutdown of third-party clients; the
  interpreter's recursion and digit limits; float formatting (a float is its literal); settings
  messages whose key is a number; what pydantic-settings reads from the environment.
\<close>

section \<open>Across the components\<close>

text \<open>
  C7. One tenant all the way: a request that the gate of the first service admits for a tenant runs its
  application under it; a job the application enqueues there passes the queue's serializer and runs
  its handler, in a worker of any context, with its payload under that tenant: row-level
  security is set to it, and a request the handler sends passes the gate of the next service, whose
  application runs under it again.  The request id does not travel with the job: the second service
  has its own, unless the handler sets one.
\<close>

theorem tenant_journey:
  fixes callers :: "nat \<Rightarrow> 'h \<Rightarrow> 'h option" and u :: pystr
  assumes "pydantic_ok P" "httpx_ok api"
    and "sc_type sc = py ''http''" "scope_path sc \<notin> set (excluded_paths ex)" "raw_tenant sc = Some t" "HttpClient.ascii t"
    and "payload \<noteq> []" "jwf (JObj payload)" "in_transaction conn"
    and "\<forall>w. or_none tok = Some w \<longrightarrow> HttpClient.ascii w" "\<not> hx_has api h TENANT_HEADER"
    and "sc_type scB = py ''http''" "scope_path scB \<notin> set (excluded_paths exB)"
  defines "cA \<equiv> \<lparr>ctx_tenant = Some t, ctx_request = Some (raw_request_id sc u)\<rparr>"
  shows "tenant_call ex (\<lambda>_. AskCtx k) sc u snd_fn ctx s =
      (case run_prog (send_with_request_id (raw_request_id sc u) snd_fn) (k cA) cA s of (_, s', out) \<Rightarrow> (ctx, s', out))
    \<and> (\<exists>v h'. res_bind (require cA) (\<lambda>tid. Inr (enqueue P tid payload)) = Inr (Inr v)
        \<and> json_deserializer (json_serializer v) = Inr v
        \<and> tenant_middleware P (\<lambda>pl rest c. (c, pl, set_rls c conn, run_hooks api callers c (snd (build_tenant_client tok None)) h)) [WireParsed v] wctx
            = (wctx, Inr (payload, Inr (conn\<lparr>app_tenant_id := Some t\<rparr>), Some h'))
        \<and> (scope_headers scB = hx_raw api h' \<longrightarrow>
            (let ridB = (case or_none (get_header (hx_raw api h) X_REQUEST_ID) of None \<Rightarrow> uB | Some r \<Rightarrow> r)
             in tenant_call exB appB scB uB sndB ctxB sB =
                  (case run_prog (send_with_request_id ridB sndB) (appB scB) \<lparr>ctx_tenant = Some t, ctx_request = Some ridB\<rparr> sB of
                     (_, sB', out) \<Rightarrow> (ctxB, sB', out)))))"
proof -
  have t: "validate_uuid t" "t \<noteq> []" using assms(5) by (auto simp: raw_tenant_def split: option.splits if_splits)
  have tv: "valid_uuid t" "list_all valid_cp t" using t(1) assms(6)
    by (auto simp: validate_uuid_def HttpClient.ascii_def list_all_iff valid_cp_def surrogate_def)
  let ?v = "JObj (wrap_obj t payload [])" and ?c = "\<lparr>ctx_tenant = Some t, ctx_request = None\<rparr>"
  have "\<forall>w. or_none (ctx_tenant ?c) = Some w \<longrightarrow> HttpClient.ascii w" "\<forall>w. or_none (ctx_request ?c) = Some w \<longrightarrow> HttpClient.ascii w"
    using assms(6) t(2) by (simp_all add: or_none_def)
  from request_hook_headers [OF assms(2) this(1) assms(10) this(2), of h] obtain h' where
    h': "request_hook api tok ?c h = Some h'"
      "get_header (hx_raw api h') X_TENANT_ID = header_or (get_header (hx_raw api h) X_TENANT_ID) (Some t)"
      "get_header (hx_raw api h') X_REQUEST_ID = header_or (get_header (hx_raw api h) X_REQUEST_ID) None" by auto
  have "get_header (hx_raw api h) X_TENANT_ID = None"
    using assms(2,11) header_names(1,4) unfolding httpx_ok_def by metis
  then have th: "get_header (hx_raw api h') X_TENANT_ID = Some t" using h'(2) t(2) by (simp add: or_none_def)
  have jv: "jwf ?v" using wrap_obj_jwf [of t "[]" payload] tv assms(8) by simp
  have gate: "tenant_call ex (\<lambda>_. AskCtx k) sc u snd_fn ctx s =
      (case run_prog (send_with_request_id (raw_request_id sc u) snd_fn) (k cA) cA s of (_, s', out) \<Rightarrow> (ctx, s', out))"
    using tenant_call_bound [OF assms(3-5), of "\<lambda>_. AskCtx k" u snd_fn ctx s] by (simp add: cA_def)
  have queue: "res_bind (require cA) (\<lambda>tid. Inr (enqueue P tid payload)) = Inr (Inr ?v)" "json_deserializer (json_serializer ?v) = Inr ?v"
    using enqueue_value [OF assms(1) tv assms(7,8)] t(2) json_loads_bytes_dumps [OF jv]
    by (simp_all add: cA_def require_def json_deserializer_def json_serializer_def)
  have job: "tenant_middleware P (\<lambda>pl rest c. (c, pl, set_rls c conn, run_hooks api callers c (snd (build_tenant_client tok None)) h)) [WireParsed ?v] wctx
      = (wctx, Inr (payload, Inr (conn\<lparr>app_tenant_id := Some t\<rparr>), Some h'))"
    using enqueued_unwraps [OF assms(1) tv assms(7,8)] assms(9) h'(1) t(2)
    by (simp add: tenant_middleware_def bind_eq set_rls_def require_def build_tenant_client_def Let_def)
  have "tenant_call exB appB scB uB sndB ctxB sB =
      (case run_prog (send_with_request_id ridB sndB) (appB scB) \<lparr>ctx_tenant = Some t, ctx_request = Some ridB\<rparr> sB of
         (_, sB', out) \<Rightarrow> (ctxB, sB', out))"
    if sc: "scope_headers scB = hx_raw api h'"
      and rid: "ridB = (case or_none (get_header (hx_raw api h) X_REQUEST_ID) of None \<Rightarrow> uB | Some r \<Rightarrow> r)" for ridB
  proof -
    have "raw_tenant scB = Some t" using th t sc by (simp add: raw_tenant_def)
    moreover have "raw_request_id scB uB = ridB"
      using h'(3) sc rid by (cases "get_header (hx_raw api h) X_REQUEST_ID") (simp_all add: raw_request_id_def header_or_def or_none_def)
    ultimately show ?thesis using tenant_call_bound [OF assms(12,13), of t appB uB sndB ctxB sB] by simp
  qed
  then show ?thesis using gate queue job by (auto simp: Let_def)
qed

lemma example_tenant:
  assumes "n < 2 ^ 128"
  shows "raw_tenant (example_scope [(bstr ''X-Tenant-ID'', map byte_of (uuid_text n))]) = Some (uuid_text n)" "HttpClient.ascii (uuid_text n)"
proof -
  have a: "HttpClient.ascii (uuid_text n)" using set_uuid_text [of n] by (force simp: HttpClient.ascii_def list_all_iff)
  have "uuid_text n \<noteq> []" by (simp add: uuid_text_def Let_def)
  moreover have "validate_uuid (uuid_text n)" using assms by (simp add: validate_uuid_def)
  ultimately show "raw_tenant (example_scope [(bstr ''X-Tenant-ID'', map byte_of (uuid_text n))]) = Some (uuid_text n)"
    using latin1_ascii [OF a]
    by (simp add: raw_tenant_def example_scope_def scope_headers_def X_TENANT_ID_def bstr_def bytes_lower_def byte_of_def)
  show "HttpClient.ascii (uuid_text n)" by (rule a)
qed

lemma tenant_journey_witness:
  "\<exists>v h'. tenant_middleware strict_pydantic
      (\<lambda>pl rest c. (c, pl, set_rls c (pooled_conn\<lparr>in_transaction := True\<rparr>), run_hooks list_httpx (\<lambda>_. Some) c (snd (build_tenant_client None None)) []))
      [WireParsed v] no_ctx
    = (no_ctx, Inr ([(py ''n'', JInt 1)], Inr (pooled_conn\<lparr>in_transaction := True, app_tenant_id := Some (uuid_text 7)\<rparr>), Some h'))"
proof -
  have p: "sc_type (example_scope hs) = py ''http''" "scope_path (example_scope hs) \<notin> set (excluded_paths None)" for hs
    by (simp_all add: example_scope_def scope_path_def excluded_paths_def DEFAULT_EXCLUDE_def)
  have ten: "raw_tenant (example_scope [(bstr ''X-Tenant-ID'', map byte_of (uuid_text 7))]) = Some (uuid_text 7)"
    "HttpClient.ascii (uuid_text 7)" by (rule example_tenant, simp)+
  have job: "[(py ''n'', JInt 1)] \<noteq> []" "jwf (JObj [(py ''n'', JInt 1)])" by simp_all
  have env: "in_transaction (pooled_conn\<lparr>in_transaction := True\<rparr>)" "\<forall>w. or_none None = Some w \<longrightarrow> HttpClient.ascii w"
    "\<not> hx_has list_httpx [] TENANT_HEADER" by (simp_all add: or_none_def list_httpx_def)
  show ?thesis
    using tenant_journey [OF strict_pydantic_ok list_httpx_ok p ten job env p [of "[]"], where callers = "\<lambda>_. Some" and wctx = no_ctx
        and appB = "\<lambda>_. undefined" and sndB = "\<lambda>_. undefined" and uB = "[]" and ctxB = no_ctx and sB = undefined, THEN conjunct2]
    by blast
qed



end
